(* ===== verification/Prelude.thy ===== *)
theory Prelude
  imports Main "HOL-Library.Word" "HOL-Library.Monad_Syntax"
begin

text \<open>
  Shared vocabulary of the development: the machine types of the Rust sources, the error
  values of the engine, bounds-checked slice access, big-endian byte strings, and the
  generic lemmas about them that the component theories rely on.

  Rust's fixed-width integers are words; \<open>usize\<close> positions and lengths of in-memory
  buffers are natural numbers, with every subtraction and every index that could leave the
  range written out. A Rust panic (index out of range, failed \<open>assert!\<close>,
  \<open>unreachable!\<close>) is the error value \<open>Panic\<close>, so that a theorem about a result
  also says that no panic happens.
\<close>

unbundle bit_operations_syntax

type_synonym u8 = "8 word"
type_synonym u16 = "16 word"
type_synonym u32 = "32 word"
type_synonym u64 = "64 word"
type_synonym i64 = "64 word" \<comment> \<open>read with \<open>sint\<close>\<close>
type_synonym bytes = "u8 list"

section \<open>Results\<close>

text \<open>
  The constructors of \<open>LimboError\<close> (\<open>error.rs\<close>) that the modelled code raises. A
  formatted message is represented by its literal prefix.
\<close>

datatype limbo_error =
    Corrupt string
  | InternalError string
  | CacheFull
  | ParseError string
  | InvalidArgument string
  | ConstraintErr string
  | Panic

type_synonym 'a res = "limbo_error + 'a"

definition res_bind :: "'e + 'a \<Rightarrow> ('a \<Rightarrow> 'e + 'b) \<Rightarrow> 'e + 'b" where
  "res_bind m f = (case m of Inl e \<Rightarrow> Inl e | Inr x \<Rightarrow> f x)"

lemma res_bind_simps [simp]:
  "res_bind (Inl e) f = Inl e"
  "res_bind (Inr x) f = f x"
  by (simp_all add: res_bind_def)

lemma res_bind_Inr_iff:
  "res_bind m f = Inr y \<longleftrightarrow> (\<exists>x. m = Inr x \<and> f x = Inr y)"
  by (cases m) auto

lemma res_bind_InrE [elim!]:
  assumes "res_bind m f = Inr y"
  obtains x where "m = Inr x" "f x = Inr y"
  using assms by (auto simp: res_bind_Inr_iff)

lemma res_bind_cong [fundef_cong]:
  assumes "m = m'" and "\<And>x. m' = Inr x \<Longrightarrow> f x = g x"
  shows "res_bind m f = res_bind m' g"
  using assms by (cases m') auto

section \<open>Slices\<close>

text \<open>\<open>slice.get(i)\<close>, \<open>buf[i]\<close> and \<open>buf[i] = x\<close> with the bounds check of the language.\<close>

definition slice_get :: "'a list \<Rightarrow> nat \<Rightarrow> 'a option" where
  "slice_get xs i = (if i < length xs then Some (xs ! i) else None)"

definition slice_idx :: "'a list \<Rightarrow> nat \<Rightarrow> 'a res" where
  "slice_idx xs i = (if i < length xs then Inr (xs ! i) else Inl Panic)"

definition slice_set :: "'a list \<Rightarrow> nat \<Rightarrow> 'a \<Rightarrow> 'a list res" where
  "slice_set xs i x = (if i < length xs then Inr (xs[i := x]) else Inl Panic)"

text \<open>\<open>&buf[i..]\<close> and \<open>&buf[i..j]\<close>.\<close>

definition slice_from :: "'a list \<Rightarrow> nat \<Rightarrow> 'a list res" where
  "slice_from xs i = (if i \<le> length xs then Inr (drop i xs) else Inl Panic)"

definition slice_range :: "'a list \<Rightarrow> nat \<Rightarrow> nat \<Rightarrow> 'a list res" where
  "slice_range xs i j = (if i \<le> j \<and> j \<le> length xs then Inr (take (j - i) (drop i xs)) else Inl Panic)"

lemma slice_get_in [simp]: "i < length xs \<Longrightarrow> slice_get xs i = Some (xs ! i)"
  by (simp add: slice_get_def)

lemma slice_get_out [simp]: "length xs \<le> i \<Longrightarrow> slice_get xs i = None"
  by (simp add: slice_get_def)

lemma slice_idx_in [simp]: "i < length xs \<Longrightarrow> slice_idx xs i = Inr (xs ! i)"
  by (simp add: slice_idx_def)

lemma slice_set_in [simp]: "i < length xs \<Longrightarrow> slice_set xs i x = Inr (xs[i := x])"
  by (simp add: slice_set_def)

lemma slice_from_in [simp]: "i \<le> length xs \<Longrightarrow> slice_from xs i = Inr (drop i xs)"
  by (simp add: slice_from_def)

lemma slice_range_in [simp]:
  "i \<le> j \<Longrightarrow> j \<le> length xs \<Longrightarrow> slice_range xs i j = Inr (take (j - i) (drop i xs))"
  by (simp add: slice_range_def)

lemma length_bytes_cases:
  "length bs = 2 \<Longrightarrow> \<exists>a b. bs = [a, b]"
  "length bs = 3 \<Longrightarrow> \<exists>a b c. bs = [a, b, c]"
  "length bs = 4 \<Longrightarrow> \<exists>a b c d. bs = [a, b, c, d]"
  "length bs = 6 \<Longrightarrow> \<exists>a b c d e f. bs = [a, b, c, d, e, f]"
  "length bs = 8 \<Longrightarrow> \<exists>a b c d e f g h. bs = [a, b, c, d, e, f, g, h]"
  by (simp_all add: length_Suc_conv numeral_eq_Suc) blast+

section \<open>Words as numbers\<close>

lemma unat_u8_less [simp]: "unat (b :: u8) < 256"
  using unsigned_less [of b] by simp

lemma unat_u8_of_nat [simp]: "unat (word_of_nat k :: u8) = k mod 256"
  by (simp add: unsigned_of_nat take_bit_eq_mod)

lemma unat_drop_bit: "unat (drop_bit n (w :: 'a::len word)) = unat w div 2 ^ n"
  by (metis drop_bit_eq_div unsigned_drop_bit_eq take_bit_nat_eq_self unsigned_less)

lemma and_7f: "(w :: 'a::len word) AND 0x7f = take_bit 7 w"
  by (simp add: take_bit_eq_mask mask_eq_exp_minus_1)

lemma unat_take_bit: "unat (take_bit n (w :: 'a::len word)) = unat w mod 2 ^ n"
  by (metis take_bit_eq_mod unsigned_take_bit_eq)

lemma unat_and_7f: "unat ((w :: 'a::len word) AND 0x7f) = unat w mod 128"
  by (simp only: and_7f unat_take_bit) simp

lemma or_80: "(w AND 0x7f) OR 0x80 = (w AND 0x7f) + (0x80 :: 'a::len word)"
proof -
  have "(w AND 0x7f) AND (0x80 :: 'a word) = w AND (0x7f AND 0x80)"
    by (simp only: and.assoc)
  also have "(0x7f :: 'a word) AND 0x80 = 0" by simp
  finally have "(w AND 0x7f) AND (0x80 :: 'a word) = 0" by simp
  then show ?thesis by (simp only: disjunctive_add_eq_or)
qed

lemma and_80_iff: "(c :: u8) AND 0x80 = 0 \<longleftrightarrow> unat c < 128"
proof -
  have "c AND 0x80 = 0 \<longleftrightarrow> \<not> bit c 7"
    using and_exp_eq_0_iff_not_bit [of c 7] by simp
  also have "bit c 7 \<longleftrightarrow> odd (unat c div 128)"
    using bit_unsigned_iff [of c 7, where 'a = nat] by (simp add: bit_iff_odd)
  also have "\<dots> \<longleftrightarrow> \<not> unat c < 128"
    using div_nat_eqI [of 128 1 "unat c"] unat_u8_less [of c] by (cases "unat c < 128") simp_all
  finally show ?thesis by simp
qed

lemma ucast_unat: "ucast w = word_of_nat (unat w)"
  by simp

section \<open>Big-endian byte strings\<close>

definition be_nat :: "bytes \<Rightarrow> nat" where
  "be_nat bs = foldl (\<lambda>a b. a * 256 + unat b) 0 bs"

fun be_bytes :: "nat \<Rightarrow> nat \<Rightarrow> bytes" where
  "be_bytes 0 k = []"
| "be_bytes (Suc n) k = be_bytes n (k div 256) @ [word_of_nat (k mod 256)]"

text \<open>\<open>uN::from_be_bytes\<close> and \<open>uN::to_be_bytes\<close>; the byte count is that of the width.\<close>

definition from_be :: "bytes \<Rightarrow> 'a::len word" where
  "from_be bs = word_of_nat (be_nat bs)"

definition to_be :: "nat \<Rightarrow> 'a::len word \<Rightarrow> bytes" where
  "to_be n w = be_bytes n (unat w)"

lemma length_be_bytes [simp]: "length (be_bytes n k) = n"
  by (induction n arbitrary: k) auto

lemma length_to_be [simp]: "length (to_be n w) = n"
  by (simp add: to_be_def)

lemma be_nat_Nil [simp]: "be_nat [] = 0"
  by (simp add: be_nat_def)

lemma be_nat_snoc [simp]: "be_nat (bs @ [b]) = be_nat bs * 256 + unat b"
  by (simp add: be_nat_def)

lemma be_nat_less: "be_nat bs < 256 ^ length bs"
proof (induction bs rule: rev_induct)
  case (snoc b bs)
  have "be_nat bs * 256 + unat b < (be_nat bs + 1) * 256"
    by simp
  also have "\<dots> \<le> 256 ^ length bs * 256"
    using snoc by (intro mult_le_mono1) simp
  finally show ?case by (simp add: mult.commute)
qed simp

lemma be_nat_be_bytes: "be_nat (be_bytes n k) = k mod 256 ^ n"
proof (induction n arbitrary: k)
  case (Suc n)
  then show ?case
    by (simp add: mod_mult2_eq [of k 256 "256 ^ n"] mult.commute add.commute)
qed simp

lemma be_bytes_be_nat: "be_bytes (length bs) (be_nat bs) = bs"
  by (induction bs rule: rev_induct) (simp_all add: word_of_nat_eq_iff)

lemma from_be_to_be:
  fixes w :: "'a::len word"
  assumes "LENGTH('a) \<le> 8 * n"
  shows "from_be (to_be n w) = w"
proof -
  have "unat w < 2 ^ LENGTH('a)" by simp
  also have "\<dots> \<le> 2 ^ (8 * n)" using assms by (intro power_increasing) auto
  also have "(2::nat) ^ (8 * n) = 256 ^ n" by (simp add: power_mult)
  finally have "unat w mod 256 ^ n = unat w" by simp
  then show ?thesis by (simp add: from_be_def to_be_def be_nat_be_bytes)
qed

lemma to_be_from_be:
  fixes bs :: bytes
  assumes "8 * length bs \<le> LENGTH('a::len)"
  shows "to_be (length bs) (from_be bs :: 'a word) = bs"
proof -
  have "be_nat bs < 256 ^ length bs" by (rule be_nat_less)
  also have "(256::nat) ^ length bs = 2 ^ (8 * length bs)" by (simp add: power_mult)
  also have "\<dots> \<le> 2 ^ LENGTH('a)" using assms by (intro power_increasing) auto
  finally have "unat (word_of_nat (be_nat bs) :: 'a word) = be_nat bs"
    by (simp add: unsigned_of_nat take_bit_eq_mod)
  then show ?thesis by (simp add: from_be_def to_be_def be_bytes_be_nat)
qed

end
