(* ===== verification/Varint.thy ===== *)
theory Varint
  imports Prelude
begin

text \<open>
  Variable-length integers of the SQLite file format
  (\<open>oxisqlite-core/storage/sqlite3_ondisk/mod.rs\<close>: \<open>read_varint\<close>, \<open>write_varint\<close>,
  \<open>write_varint_to_vec\<close>).

  The routines are modelled on the buffers they work on: the writer updates a byte slice in
  place (out of range is a panic) with its three branches and its loops, the reader indexes
  the slice. The specification is \<open>varint_ref\<close>, the digits of the value in base 128; the
  lemmas show that the writer produces it, that the reader inverts it, that it is the
  shortest encoding, and that the reader never looks past the bytes it reports.
\<close>

section \<open>The routines of the source\<close>

function read_varint_loop :: "bytes \<Rightarrow> nat \<Rightarrow> u64 \<Rightarrow> (u64 \<times> nat) res" where
  "read_varint_loop buf i v =
     (if i < 8 then
        (case slice_get buf i of
           Some c \<Rightarrow>
             (let v = push_bit 7 v + ucast (c AND 0x7f) in
              if c AND 0x80 = 0 then Inr (v, i + 1) else read_varint_loop buf (i + 1) v)
         | None \<Rightarrow> Inl (Corrupt ''Invalid varint''))
      else
        (case slice_get buf 8 of
           Some c \<Rightarrow> Inr (push_bit 8 v + ucast c, 9)
         | None \<Rightarrow> Inl (Corrupt ''Invalid varint'')))"
  by pat_completeness auto
termination
  by (relation "measure (\<lambda>(buf, i, v). 8 - i)") auto

declare read_varint_loop.simps [simp del]

definition read_varint :: "bytes \<Rightarrow> (u64 \<times> nat) res" where
  "read_varint buf = read_varint_loop buf 0 0"

text \<open>\<open>for i in (0..8).rev() { buf[i] = ((value & 0x7f) | 0x80) as u8; value >>= 7; }\<close>\<close>

fun write_varint9_loop :: "nat \<Rightarrow> u64 \<Rightarrow> bytes \<Rightarrow> bytes res" where
  "write_varint9_loop 0 value buf = Inr buf"
| "write_varint9_loop (Suc i) value buf =
     res_bind (slice_set buf i (ucast ((value AND 0x7f) OR 0x80)))
       (write_varint9_loop i (drop_bit 7 value))"

text \<open>\<open>while bytes != 0 { encoded[n] = 0x80 | (bytes & 0x7f); bytes >>= 7; n += 1; }\<close>\<close>

function encode_loop :: "u64 \<Rightarrow> bytes \<Rightarrow> nat \<Rightarrow> (bytes \<times> nat) res" where
  "encode_loop v encoded n =
     (if v \<noteq> 0 then
        res_bind (slice_set encoded n (ucast (0x80 OR (v AND 0x7f))))
          (\<lambda>encoded. encode_loop (drop_bit 7 v) encoded (n + 1))
      else Inr (encoded, n))"
  by pat_completeness auto
termination
proof (relation "measure (\<lambda>(v, encoded, n). unat v)")
  fix v :: u64 and encoded x :: bytes and n :: nat
  assume "v \<noteq> 0"
  then have "0 < unat v" by (simp add: unat_gt_0)
  then have "unat (drop_bit 7 v) < unat v"
    by (simp only: unat_drop_bit) (rule div_less_dividend, simp_all)
  then show "((drop_bit 7 v, x, n + 1), (v, encoded, n)) \<in> measure (\<lambda>(v, encoded, n). unat v)"
    by (simp only: in_measure split_conv)
qed simp

declare encode_loop.simps [simp del]

text \<open>\<open>for i in 0..n { buf[i] = encoded[n - 1 - i]; }\<close>\<close>

fun copy_rev_loop :: "nat list \<Rightarrow> nat \<Rightarrow> bytes \<Rightarrow> bytes \<Rightarrow> bytes res" where
  "copy_rev_loop [] n encoded buf = Inr buf"
| "copy_rev_loop (i # is) n encoded buf =
     res_bind (slice_idx encoded (n - 1 - i)) (\<lambda>b.
       res_bind (slice_set buf i b) (copy_rev_loop is n encoded))"

definition write_varint :: "bytes \<Rightarrow> u64 \<Rightarrow> (bytes \<times> nat) res" where
  "write_varint buf value =
     (if value \<le> 0x7f then
        res_bind (slice_set buf 0 (ucast (value AND 0x7f))) (\<lambda>buf. Inr (buf, 1))
      else if value \<le> 0x3fff then
        res_bind (slice_set buf 0 (ucast ((drop_bit 7 value AND 0x7f) OR 0x80))) (\<lambda>buf.
          res_bind (slice_set buf 1 (ucast (value AND 0x7f))) (\<lambda>buf. Inr (buf, 2)))
      else if value AND push_bit 32 0xff000000 > 0 then
        res_bind (slice_set buf 8 (ucast value)) (\<lambda>buf.
          res_bind (write_varint9_loop 8 (drop_bit 8 value) buf) (\<lambda>buf. Inr (buf, 9)))
      else
        res_bind (encode_loop value (replicate 10 0) 0) (\<lambda>(encoded, n).
          res_bind (slice_idx encoded 0) (\<lambda>e0.
            res_bind (slice_set encoded 0 (e0 AND 0x7f)) (\<lambda>encoded.
              res_bind (copy_rev_loop [0..<n] n encoded buf) (\<lambda>buf. Inr (buf, n))))))"

definition write_varint_to_vec :: "u64 \<Rightarrow> bytes \<Rightarrow> bytes res" where
  "write_varint_to_vec value payload =
     res_bind (write_varint (replicate 9 0) value) (\<lambda>(varint, n).
       res_bind (slice_range varint 0 n) (\<lambda>s. Inr (payload @ s)))"

section \<open>Reference encoding: base-128 digits\<close>

fun le128 :: "nat \<Rightarrow> nat \<Rightarrow> nat list" where
  "le128 0 k = []"
| "le128 (Suc n) k = (k mod 128) # le128 n (k div 128)"

definition varint_len :: "nat \<Rightarrow> nat" where
  "varint_len k = (if k < 2 ^ 7 then 1 else if k < 2 ^ 14 then 2 else if k < 2 ^ 21 then 3
     else if k < 2 ^ 28 then 4 else if k < 2 ^ 35 then 5 else if k < 2 ^ 42 then 6
     else if k < 2 ^ 49 then 7 else if k < 2 ^ 56 then 8 else 9)"

text \<open>A digit with the continuation bit set.\<close>

definition cont :: "nat \<Rightarrow> u8" where
  "cont d = word_of_nat (d + 128)"

definition varint_ref :: "nat \<Rightarrow> bytes" where
  "varint_ref k =
     (if k < 2 ^ 56
      then rev (map cont (le128 (varint_len k - 1) (k div 128))) @ [word_of_nat (k mod 128)]
      else rev (map cont (le128 8 (k div 256))) @ [word_of_nat (k mod 256)])"

section \<open>Digits\<close>

definition be128 :: "nat list \<Rightarrow> nat" where
  "be128 ds = foldl (\<lambda>a d. a * 128 + d) 0 ds"

lemma be128_snoc [simp]: "be128 (ds @ [d]) = be128 ds * 128 + d"
  by (simp add: be128_def)

lemma length_le128 [simp]: "length (le128 n k) = n"
  by (induction n arbitrary: k) auto

lemma le128_digit: "d \<in> set (le128 n k) \<Longrightarrow> d < 128"
  by (induction n arbitrary: k) auto

lemma be128_rev_le128: "be128 (rev (le128 n k)) = k mod 128 ^ n"
proof (induction n arbitrary: k)
  case 0
  then show ?case by (simp add: be128_def)
next
  case (Suc n)
  then show ?case
    by (simp add: mod_mult2_eq [of k 128 "128 ^ n"] mult.commute add.commute)
qed

lemma unat_cont: "d < 128 \<Longrightarrow> unat (cont d) = d + 128"
  by (simp only: cont_def unat_u8_of_nat) simp

lemma cont_and_7f: "d < 128 \<Longrightarrow> ucast (cont d AND 0x7f) = (word_of_nat d :: u64)"
  by (simp only: ucast_unat unat_and_7f unat_cont) simp

lemma cont_and_80: "d < 128 \<Longrightarrow> cont d AND 0x80 \<noteq> 0"
  by (simp add: and_80_iff unat_cont)

lemma varint_len_bounds: "1 \<le> varint_len k" "varint_len k \<le> 9"
  by (simp_all add: varint_len_def)

lemma varint_len_less_56: "k < 2 ^ 56 \<Longrightarrow> varint_len k \<le> 8 \<and> k < 128 ^ varint_len k"
  by (auto simp: varint_len_def)

lemma varint_len_le_iff:
  assumes "1 \<le> j" "j \<le> 8"
  shows "varint_len k \<le> j \<longleftrightarrow> k < 128 ^ j"
proof -
  have "j \<in> {1, 2, 3, 4, 5, 6, 7, 8}" using assms by auto
  then show ?thesis by (auto simp: varint_len_def)
qed

lemma length_varint_ref: "k < 2 ^ 64 \<Longrightarrow> length (varint_ref k) = varint_len k"
  using varint_len_bounds(1) [of k] by (auto simp: varint_ref_def varint_len_def)

section \<open>Reading\<close>

lemma read_varint_loop_cont:
  assumes "\<forall>d\<in>set ds. d < 128" and "length pre + length ds \<le> 8"
  shows "read_varint_loop (pre @ map cont ds @ rest) (length pre) (word_of_nat a) =
    read_varint_loop (pre @ map cont ds @ rest) (length pre + length ds)
      (word_of_nat (foldl (\<lambda>a d. a * 128 + d) a ds))"
  using assms
proof (induction ds arbitrary: pre a)
  case (Cons d ds)
  have "read_varint_loop (pre @ map cont (d # ds) @ rest) (length pre) (word_of_nat a) =
    read_varint_loop ((pre @ [cont d]) @ map cont ds @ rest) (length (pre @ [cont d]))
      (word_of_nat (a * 128 + d))"
    using Cons.prems
    by (subst read_varint_loop.simps)
      (simp add: Let_def cont_and_80 cont_and_7f push_bit_eq_mult)
  also have "\<dots> = read_varint_loop ((pre @ [cont d]) @ map cont ds @ rest)
      (length (pre @ [cont d]) + length ds) (word_of_nat (foldl (\<lambda>a d. a * 128 + d) (a * 128 + d) ds))"
    using Cons.prems by (intro Cons.IH) auto
  finally show ?case by simp
qed simp

lemma read_varint_short:
  assumes "\<forall>d\<in>set ds. d < 128" and "length ds < 8" and "l < 128"
  shows "read_varint (map cont ds @ word_of_nat l # rest) =
    Inr (word_of_nat (be128 ds * 128 + l), length ds + 1)"
proof -
  have l: "(word_of_nat l :: u8) AND 0x80 = 0" "ucast ((word_of_nat l :: u8) AND 0x7f) = (word_of_nat l :: u64)"
    using assms(3) by (simp add: and_80_iff) (use assms(3) in \<open>simp only: ucast_unat unat_and_7f unat_u8_of_nat; simp\<close>)
  show ?thesis
    using read_varint_loop_cont [of ds "[]" "word_of_nat l # rest" 0] assms
    by (simp add: read_varint_def be128_def)
      (subst read_varint_loop.simps, simp add: l Let_def nth_append push_bit_eq_mult)
qed

lemma read_varint_long:
  assumes "\<forall>d\<in>set ds. d < 128" and "length ds = 8"
  shows "read_varint (map cont ds @ c # rest) =
    Inr (word_of_nat (be128 ds * 256 + unat c), 9)"
  using read_varint_loop_cont [of ds "[]" "c # rest" 0] assms
  by (simp add: read_varint_def be128_def)
    (subst read_varint_loop.simps, simp add: nth_append push_bit_eq_mult)

lemma read_varint_ref:
  assumes "k < 2 ^ 64"
  shows "read_varint (varint_ref k @ rest) = Inr (word_of_nat k, varint_len k)"
proof (cases "k < 2 ^ 56")
  case True
  let ?ds = "rev (le128 (varint_len k - 1) (k div 128))"
  have len: "varint_len k \<le> 8" "k < 128 ^ varint_len k"
    using varint_len_less_56 [OF True] by auto
  have pow: "(128::nat) ^ varint_len k = 128 * 128 ^ (varint_len k - 1)"
    using varint_len_bounds(1) [of k] by (metis Suc_diff_1 less_le_trans power_Suc zero_less_one)
  have "k div 128 < 128 ^ (varint_len k - 1)"
    using len(2) unfolding pow by (simp add: less_mult_imp_div_less mult.commute)
  then have "be128 ?ds * 128 + k mod 128 = k"
    by (simp add: be128_rev_le128)
  moreover have "read_varint (map cont ?ds @ word_of_nat (k mod 128) # rest) =
      Inr (word_of_nat (be128 ?ds * 128 + k mod 128), length ?ds + 1)"
    using len(1) varint_len_bounds(1) [of k] by (intro read_varint_short) (auto dest: le128_digit)
  ultimately show ?thesis
    using True varint_len_bounds(1) [of k] by (simp add: varint_ref_def rev_map)
next
  case False
  let ?ds = "rev (le128 8 (k div 256))"
  have "k div 256 < 128 ^ 8"
    using assms by (simp add: less_mult_imp_div_less)
  then have "be128 ?ds * 256 + k mod 256 = k"
    by (simp only: be128_rev_le128) simp
  moreover have "read_varint (map cont ?ds @ word_of_nat (k mod 256) # rest) =
      Inr (word_of_nat (be128 ?ds * 256 + unat (word_of_nat (k mod 256) :: u8)), 9)"
    by (intro read_varint_long) (auto dest: le128_digit)
  moreover have "varint_len k = 9" using False by (auto simp: varint_len_def)
  ultimately show ?thesis
    using False by (simp add: varint_ref_def rev_map)
qed

section \<open>Writing\<close>

lemma ucast_digit: "ucast ((v :: u64) AND 0x7f) = (word_of_nat (unat v mod 128) :: u8)"
  by (simp only: ucast_unat unat_and_7f)

lemma ucast_cont: "ucast ((v AND 0x7f) OR 0x80) = cont (unat (v :: u64) mod 128)"
proof -
  have "unat ((v AND 0x7f) + 0x80) = unat v mod 128 + 128"
    by (simp add: unat_word_ariths(1) unat_and_7f)
  then show ?thesis
    unfolding or_80 by (simp only: ucast_unat cont_def)
qed

lemma ucast_low_byte: "ucast (v :: u64) = (word_of_nat (unat v mod 256) :: u8)"
  by (rule word_unat_eq_iff [THEN iffD2]) (simp only: ucast_unat unat_u8_of_nat mod_mod_trivial)

lemma write_varint9_loop_eq:
  "m \<le> length buf \<Longrightarrow>
   write_varint9_loop m v buf = Inr (rev (map cont (le128 m (unat v))) @ drop m buf)"
proof (induction m arbitrary: v buf)
  case (Suc m)
  then show ?case
    by (simp add: ucast_cont unat_drop_bit drop_update_swap Cons_nth_drop_Suc [symmetric])
qed simp

fun ndig :: "nat \<Rightarrow> nat" where
  "ndig k = (if k = 0 then 0 else Suc (ndig (k div 128)))"

declare ndig.simps [simp del]

lemma ndig_range: "128 ^ j \<le> k \<Longrightarrow> k < 128 ^ Suc j \<Longrightarrow> ndig k = Suc j"
proof (induction j arbitrary: k)
  case 0
  then show ?case by (simp add: ndig.simps [of k] ndig.simps [of 0])
next
  case (Suc j)
  have "ndig (k div 128) = Suc j"
    using Suc.prems by (intro Suc.IH) (simp_all add: less_mult_imp_div_less div_le_mono
        less_eq_div_iff_mult_less_eq mult.commute)
  moreover have "k \<noteq> 0" using Suc.prems(1) by (intro notI) simp
  ultimately show ?case by (simp add: ndig.simps [of k])
qed

lemma ndig_varint_len:
  assumes "0 < k" "k < 2 ^ 56"
  shows "ndig k = varint_len k"
proof -
  let ?j = "varint_len k - 1"
  have "varint_len k \<le> 8" "k < 128 ^ varint_len k"
    using varint_len_less_56 [OF assms(2)] by auto
  moreover have "128 ^ ?j \<le> k"
  proof (cases "?j = 0")
    case False
    then have "\<not> varint_len k \<le> ?j" "1 \<le> ?j" "?j \<le> 8"
      using \<open>varint_len k \<le> 8\<close> by auto
    then show ?thesis by (simp only: varint_len_le_iff not_less)
  qed (use assms in simp)
  ultimately show ?thesis
    using ndig_range [of ?j k] varint_len_bounds(1) [of k] by simp
qed

lemma encode_loop_eq:
  "n + ndig (unat v) \<le> length enc \<Longrightarrow>
   encode_loop v enc n =
     Inr (take n enc @ map cont (le128 (ndig (unat v)) (unat v)) @ drop (n + ndig (unat v)) enc,
          n + ndig (unat v))"
proof (induction v enc n rule: encode_loop.induct)
  case (1 v enc n)
  show ?case
  proof (cases "v = 0")
    case True
    then show ?thesis by (subst encode_loop.simps) (simp add: ndig.simps [of 0])
  next
    case False
    then have nd: "ndig (unat v) = Suc (ndig (unat v div 128))"
      by (simp add: ndig.simps [of "unat v"] unat_eq_zero)
    let ?e = "enc[n := cont (unat v mod 128)]"
    have "slice_set enc n (ucast (0x80 OR (v AND 0x7f))) = Inr ?e"
      using "1.prems" by (simp add: nd or.commute [of "0x80"] ucast_cont)
    moreover have "encode_loop (drop_bit 7 v) ?e (n + 1) =
      Inr (take (n + 1) ?e @ map cont (le128 (ndig (unat v div 128)) (unat v div 128)) @
           drop (n + 1 + ndig (unat v div 128)) ?e, n + 1 + ndig (unat v div 128))"
      using "1.IH" [OF False calculation] "1.prems" by (simp add: nd unat_drop_bit)
    ultimately show ?thesis
      using False "1.prems"
      by (subst encode_loop.simps)
        (simp add: nd take_Suc_conv_app_nth drop_update_cancel)
  qed
qed

lemma copy_rev_loop_eq:
  "j \<le> n \<Longrightarrow> n \<le> length enc \<Longrightarrow> n \<le> length buf \<Longrightarrow>
   copy_rev_loop [j..<n] n enc buf = Inr (take j buf @ drop j (rev (take n enc)) @ drop n buf)"
proof (induction "n - j" arbitrary: j buf)
  case 0
  then show ?case by simp
next
  case (Suc d)
  then have j: "j < n" by simp
  let ?b = "buf[j := enc ! (n - 1 - j)]"
  have "copy_rev_loop [Suc j..<n] n enc ?b = Inr (take (Suc j) ?b @ drop (Suc j) (rev (take n enc)) @ drop n ?b)"
    using Suc j by (intro Suc.hyps) auto
  moreover have "drop j (rev (take n enc)) = enc ! (n - 1 - j) # drop (Suc j) (rev (take n enc))"
    using Suc j by (subst Cons_nth_drop_Suc [symmetric]) (simp_all add: rev_nth min_def)
  ultimately show ?case
    using Suc j by (simp add: upt_conv_Cons take_Suc_conv_app_nth)
qed


lemma top_byte_zero_iff: "(v :: u64) AND push_bit 32 0xff000000 > 0 \<longleftrightarrow> 2 ^ 56 \<le> unat v"
proof -
  have "push_bit 32 0xff000000 = (NOT (mask 56) :: u64)"
    by (simp add: mask_eq_exp_minus_1)
  then have "v AND push_bit 32 0xff000000 = 0 \<longleftrightarrow> v AND NOT (mask 56) = 0"
    by (simp only:)
  also have "\<dots> \<longleftrightarrow> take_bit 56 v = v"
    by (auto simp: bit_eq_iff bit_simps)
  also have "\<dots> \<longleftrightarrow> unat v mod 2 ^ 56 = unat v"
    by (simp only: word_unat_eq_iff unat_take_bit)
  also have "\<dots> \<longleftrightarrow> unat v < 2 ^ 56"
    by (metis mod_less mod_less_divisor zero_less_numeral zero_less_power)
  finally show ?thesis by (metis not_less word_gt_0)  
qed

lemma cont_and_7f_u8: "d < 128 \<Longrightarrow> cont d AND 0x7f = word_of_nat d"
  by (simp add: word_unat_eq_iff unat_and_7f unat_cont)

lemma unat_u64_less: "unat (v :: u64) < 2 ^ 64"
  using unsigned_less [of v] by simp

text \<open>The writer produces the reference encoding, for every value and any buffer of 9 bytes.\<close>

lemma write_varint_eq:
  assumes "9 \<le> length buf"
  shows "write_varint buf v =
    Inr (varint_ref (unat v) @ drop (varint_len (unat v)) buf, varint_len (unat v))"
proof -
  let ?k = "unat v"
  consider "?k < 2 ^ 7" | "2 ^ 7 \<le> ?k" "?k < 2 ^ 14" | "2 ^ 14 \<le> ?k" "?k < 2 ^ 56" | "2 ^ 56 \<le> ?k"
    by linarith
  then show ?thesis
  proof cases
    case 1
    then have "v \<le> 0x7f" by (simp add: word_le_nat_alt)
    then show ?thesis
      using 1 assms
      by (cases buf) (simp_all add: write_varint_def varint_ref_def varint_len_def ucast_digit)
  next
    case 2
    then have "\<not> v \<le> 0x7f" "v \<le> 0x3fff" by (simp_all add: word_le_nat_alt)
    moreover obtain b c bs where "buf = b # c # bs"
      using assms by (cases buf rule: remdups_adj.cases) auto
    moreover have "?k div 128 mod 128 = ?k div 128" using 2 by (simp add: less_mult_imp_div_less)
    ultimately show ?thesis
      using 2 by (simp add: write_varint_def varint_ref_def varint_len_def ucast_digit ucast_cont
          unat_drop_bit)
  next
    case 3
    have le: "\<not> v \<le> 0x7f" "\<not> v \<le> 0x3fff" using 3 by (simp_all add: word_le_nat_alt)
    have top: "\<not> v AND push_bit 32 0xff000000 > 0"
      using 3 by (simp only: top_byte_zero_iff)
    let ?L = "varint_len ?k"
    have nd: "ndig ?k = ?L" "?L \<le> 8" "1 \<le> ?L"
      using 3 ndig_varint_len varint_len_less_56 [of ?k] varint_len_bounds(1) [of ?k] by auto
    obtain m where m: "?L = Suc m" using nd(3) by (cases ?L) auto
    let ?e = "map cont (le128 ?L ?k) @ replicate (10 - ?L) 0"
    have enc: "encode_loop v (replicate 10 0) 0 = Inr (?e, ?L)"
      using nd by (subst encode_loop_eq) simp_all
    have "write_varint buf v = Inr (rev (take ?L (word_of_nat (?k mod 128) # map cont (le128 m (?k div 128)) @
        replicate (10 - ?L) 0)) @ drop ?L buf, ?L)"
      unfolding write_varint_def using assms nd
      by (simp only: le top enc if_False res_bind_simps split_conv)
        (simp add: copy_rev_loop_eq m cont_and_7f_u8 del: upt_Suc)
    then show ?thesis
      using 3 by (simp add: varint_ref_def m)
  next
    case 4
    have le: "\<not> v \<le> 0x7f" "\<not> v \<le> 0x3fff" using 4 by (simp_all add: word_le_nat_alt)
    have top: "v AND push_bit 32 0xff000000 > 0"
      using 4 by (simp only: top_byte_zero_iff)
    have "write_varint buf v = Inr (rev (map cont (le128 8 (?k div 256))) @ drop 8 (buf[8 := ucast v]), 9)"
      unfolding write_varint_def using assms
      by (simp only: le top if_True if_False)
        (simp add: write_varint9_loop_eq unat_drop_bit del: write_varint9_loop.simps)
    moreover have "drop 8 (buf[8 := ucast v]) = word_of_nat (?k mod 256) # drop 9 buf"
      using assms by (subst Cons_nth_drop_Suc [symmetric]) (simp_all add: ucast_low_byte)
    moreover have "varint_len ?k = 9" using 4 by (auto simp: varint_len_def)
    ultimately show ?thesis
      using 4 by (simp add: varint_ref_def)
  qed
qed

lemma unat_ucast_7f: "unat (ucast ((c :: u8) AND 0x7f) :: u64) = unat c mod 128"
proof -
  have "unat c mod 128 < 128" by simp
  then have "unat c mod 128 < 2 ^ 64" by simp
  then show ?thesis
    by (simp only: unsigned_ucast_eq unat_and_7f take_bit_nat_eq_self len_num1 len_bit0)
      (simp add: take_bit_nat_eq_self)
qed

lemma read_varint_loop_sound:
  assumes "read_varint_loop buf i v = Inr (w, n)" and "i \<le> 8" and "unat v < 128 ^ i"
  shows "i < n \<and> n \<le> 9 \<and> n \<le> length buf \<and> (n \<le> 8 \<longrightarrow> unat w < 128 ^ n) \<and>
    (\<forall>rest. read_varint_loop (take n buf @ rest) i v = Inr (w, n))"
  using assms
proof (induction buf i v rule: read_varint_loop.induct)
  case (1 buf i v)
  show ?case
  proof (cases "i < 8")
    case False
    then have "i = 8" using "1.prems"(2) by simp
    with "1.prems"(1) show ?thesis
      by (simp add: read_varint_loop.simps [of _ 8] slice_get_def nth_append split: if_splits)
  next
    case True
    let ?c = "buf ! i" let ?v = "push_bit 7 v + ucast (buf ! i AND 0x7f)"
    have len: "i < length buf"
      using "1.prems"(1) True by (subst (asm) read_varint_loop.simps) (simp add: slice_get_def split: if_splits)
    have "(128::nat) ^ i \<le> 128 ^ 7" using True by (intro power_increasing) auto
    then have "unat v < 128 ^ 7" using "1.prems"(3) by linarith
    then have "unat ?v = unat v * 128 + unat ?c mod 128"
      by (simp add: unat_word_ariths(1) push_bit_eq_mult unat_word_ariths(2) unat_ucast_7f)
    also have "\<dots> < 128 ^ Suc i" using "1.prems"(3) by simp
    finally have v: "unat ?v < 128 ^ Suc i" .
    have step: "read_varint_loop b i v =
        (if ?c AND 0x80 = 0 then Inr (?v, Suc i) else read_varint_loop b (Suc i) ?v)"
      if "i < length b" "b ! i = ?c" for b
      using that True by (subst read_varint_loop.simps) (simp add: Let_def)
    show ?thesis
    proof (cases "?c AND 0x80 = 0")
      case True
      with "1.prems"(1) step [OF len refl] have "w = ?v" "n = Suc i" by simp_all
      then show ?thesis
        using v len True \<open>i < 8\<close> by (simp add: step nth_append)
    next
      case False
      with "1.prems"(1) step [OF len refl] have "read_varint_loop buf (i + 1) ?v = Inr (w, n)" by simp
      then have IH: "Suc i < n \<and> n \<le> 9 \<and> n \<le> length buf \<and> (n \<le> 8 \<longrightarrow> unat w < 128 ^ n) \<and>
          (\<forall>rest. read_varint_loop (take n buf @ rest) (Suc i) ?v = Inr (w, n))"
        using "1.IH" [OF True _ refl False] len \<open>i < 8\<close> v by simp
      then show ?thesis
        using False len by (simp add: step nth_append)
    qed
  qed
qed

lemma read_varint_loop_error:
  assumes "read_varint_loop buf i v = Inl e" and "i \<le> 8" and "i \<le> length buf"
  shows "e = Corrupt ''Invalid varint'' \<and> length buf < 9 \<and> (\<forall>j. i \<le> j \<and> j < length buf \<longrightarrow> buf ! j AND 0x80 \<noteq> 0)"
  using assms
proof (induction buf i v rule: read_varint_loop.induct)
  case (1 buf i v)
  show ?case
  proof (cases "i < 8 \<and> i < length buf")
    case False
    then have "i = 8 \<or> i = length buf" using "1.prems" by auto
    with "1.prems"(1,2) show ?thesis
      by (subst (asm) read_varint_loop.simps) (auto simp: slice_get_def split: if_splits)
  next
    case True
    then have step: "read_varint_loop buf (i + 1) (push_bit 7 v + ucast (buf ! i AND 0x7f)) = Inl e"
        "buf ! i AND 0x80 \<noteq> 0"
      using "1.prems"(1) by (subst (asm) read_varint_loop.simps, simp add: Let_def split: if_splits)+
    have IH: "e = Corrupt ''Invalid varint'' \<and> length buf < 9 \<and>
        (\<forall>j. i + 1 \<le> j \<and> j < length buf \<longrightarrow> buf ! j AND 0x80 \<noteq> 0)"
      using True step by (intro "1.IH") auto
    with step(2) show ?thesis
      by (metis Suc_eq_plus1 le_antisym not_less_eq_eq)
  qed
qed

lemma read_varint_all_cont:
  assumes "length buf < 9" and "\<forall>b\<in>set buf. b AND 0x80 \<noteq> 0"
  shows "read_varint buf = Inl (Corrupt ''Invalid varint'')"
proof -
  let ?ds = "map (\<lambda>b. unat b - 128) buf"
  have d: "\<forall>b\<in>set buf. 128 \<le> unat b \<and> unat b < 256"
    using assms(2) by (simp add: and_80_iff not_less)
  then have buf: "map cont ?ds = buf"
    by (simp add: map_idI cont_def del: of_nat_add)
  have "\<forall>x\<in>set ?ds. x < 128" using d by (auto simp: less_diff_conv2)
  then have "read_varint buf = read_varint_loop buf (length buf) (word_of_nat (be128 ?ds))"
    using read_varint_loop_cont [of ?ds "[]" "[]" 0] assms(1)
    by (simp add: read_varint_def buf be128_def del: map_map)
  also have "\<dots> = Inl (Corrupt ''Invalid varint'')"
    using assms(1) by (subst read_varint_loop.simps) simp
  finally show ?thesis .
qed

section \<open>Properties\<close>

text \<open>
  C16. Round trip: encoding a 64-bit value with \<open>write_varint_to_vec\<close> never panics, and decoding
  the bytes, whatever follows them, yields the value and exactly the number of bytes written.
\<close>

theorem varint_roundtrip:
  "\<exists>enc. write_varint_to_vec v payload = Inr (payload @ enc) \<and>
     read_varint (enc @ rest) = Inr (v, length enc)"
proof -
  let ?k = "unat v"
  have k: "?k < 2 ^ 64" by (rule unat_u64_less)
  have "write_varint_to_vec v payload = Inr (payload @ varint_ref ?k)"
    using varint_len_bounds [of ?k] length_varint_ref [OF k]
    by (simp add: write_varint_to_vec_def write_varint_eq)
  then show ?thesis
    using read_varint_ref [OF k, of rest] length_varint_ref [OF k] by auto
qed

text \<open>
  Size: the encoder writes between one and nine bytes, as many as the base-128 length of the
  value requires, and leaves the rest of the caller's buffer untouched.
\<close>

theorem write_varint_size:
  assumes "9 \<le> length buf"
  shows "\<exists>buf' n. write_varint buf v = Inr (buf', n) \<and> 1 \<le> n \<and> n \<le> 9 \<and>
    length buf' = length buf \<and> drop n buf' = drop n buf \<and>
    (\<forall>j. 1 \<le> j \<and> j \<le> 8 \<longrightarrow> (n \<le> j \<longleftrightarrow> unat v < 2 ^ (7 * j)))"
proof -
  let ?k = "unat v"
  have len: "length (varint_ref ?k) = varint_len ?k"
    by (intro length_varint_ref) (rule unat_u64_less)
  have "(128::nat) ^ j = 2 ^ (7 * j)" for j by (simp add: power_mult)
  then show ?thesis
    using write_varint_eq [OF assms, of v] varint_len_bounds [of ?k] assms len varint_len_le_iff
    by auto
qed

theorem write_varint_size_witness:
  "length (replicate 9 (0::u8)) = 9 \<and>
   (\<exists>buf' n. write_varint (replicate 9 0) 300 = Inr (buf', n) \<and> 1 \<le> n \<and> n \<le> 9 \<and>
    length buf' = 9 \<and> drop n buf' = drop n (replicate 9 0) \<and>
    (\<forall>j. 1 \<le> j \<and> j \<le> 8 \<longrightarrow> (n \<le> j \<longleftrightarrow> unat (300::u64) < 2 ^ (7 * j))))"
  using write_varint_size [of "replicate 9 0" 300] by simp

text \<open>
  C26. A successful read consumes between one and nine bytes of the buffer, never looks beyond
  them (the result is the same whatever follows), and the value it returns has no shorter
  encoding than the one the encoder writes.
\<close>

theorem read_varint_sound:
  assumes "read_varint buf = Inr (v, n)"
  shows "1 \<le> n \<and> n \<le> 9 \<and> n \<le> length buf \<and>
    (\<forall>rest. read_varint (take n buf @ rest) = Inr (v, n)) \<and>
    (\<exists>b m. write_varint (replicate 9 0) v = Inr (b, m) \<and> m \<le> n)"
proof -
  have s: "0 < n \<and> n \<le> 9 \<and> n \<le> length buf \<and> (n \<le> 8 \<longrightarrow> unat v < 128 ^ n) \<and>
      (\<forall>rest. read_varint_loop (take n buf @ rest) 0 0 = Inr (v, n))"
    using assms by (intro read_varint_loop_sound) (simp_all add: read_varint_def)
  have "varint_len (unat v) \<le> n"
    using s varint_len_bounds(2) [of "unat v"] varint_len_le_iff [of n "unat v"]
    by (cases "n \<le> 8") auto
  then show ?thesis
    using s write_varint_eq [of "replicate 9 0" v] by (auto simp: read_varint_def)
qed

theorem read_varint_sound_witness:
  "read_varint [0x82, 0x2c, 0x07] = Inr (300, 2) \<and>
   (\<forall>rest. read_varint (take 2 [0x82, 0x2c, 0x07] @ rest) = Inr (300, 2))"
proof -
  have "read_varint [0x82, 0x2c, 0x07] = Inr (300, 2)"
    by (simp add: read_varint_def read_varint_loop.simps push_bit_eq_mult)
  then show ?thesis using read_varint_sound [of "[0x82, 0x2c, 0x07]" 300 2] by blast
qed

text \<open>
  The reader fails exactly on a truncated encoding (fewer than nine bytes, every one with the
  continuation bit set), always with the corruption error and never with a panic.
\<close>

theorem read_varint_error_iff:
  "read_varint buf = Inl e \<longleftrightarrow>
   e = Corrupt ''Invalid varint'' \<and> length buf < 9 \<and> (\<forall>b\<in>set buf. b AND 0x80 \<noteq> 0)"
proof
  assume "read_varint buf = Inl e"
  then show "e = Corrupt ''Invalid varint'' \<and> length buf < 9 \<and> (\<forall>b\<in>set buf. b AND 0x80 \<noteq> 0)"
    using read_varint_loop_error [of buf 0 0 e] by (auto simp: read_varint_def in_set_conv_nth)
next
  assume "e = Corrupt ''Invalid varint'' \<and> length buf < 9 \<and> (\<forall>b\<in>set buf. b AND 0x80 \<noteq> 0)"
  then show "read_varint buf = Inl e" using read_varint_all_cont [of buf] by simp
qed

theorem read_varint_error_iff_witness:
  "read_varint [0x81, 0xff] = Inl (Corrupt ''Invalid varint'')"
  using read_varint_error_iff [of "[0x81, 0xff]" "Corrupt ''Invalid varint''"] by simp

end
