(* ===== verification/Mvcc.thy ===== *)
theory Mvcc
  imports Prelude "HOL-Library.Finite_Map"
begin

text \<open>
  The multi-version store \<open>MvStore\<close> (\<open>oxisqlite-core/mvcc/database/mod.rs\<close>), its logical
  clock (\<open>mvcc/clock.rs\<close>), its persistent log (\<open>mvcc/persistent_storage/mod.rs\<close>) and its
  errors (\<open>mvcc/errors.rs\<close>): data, visibility rules and every operation.

  The two ordered maps of the store are finite maps; iteration over a key set is in key
  order. The transaction-state atomic is modelled by its decoded value, with the encoding
  (\<open>encode\<close>, \<open>decode\<close>) beside it and the assertion it makes on every store. An operation
  takes the store and returns the new store with its result, an error included, because the
  code changes the store on one of its error paths. One operation is one step: the model
  interleaves transactions at the granularity of the public operations.
\<close>

section \<open>Data\<close>

datatype rowid = RowID (table_id: u64) (row_id: i64)

text \<open>The derived order of the struct: table first, then the signed row number.\<close>

lemma word_eqI_sint: "sint v = sint w \<Longrightarrow> v = w" for v w :: "'a::len word"
  using signed_word_eqI [of v w, where 'a = int] by simp

instantiation rowid :: linorder
begin

definition less_eq_rowid :: "rowid \<Rightarrow> rowid \<Rightarrow> bool" where
  "a \<le> b \<longleftrightarrow> table_id a < table_id b \<or> (table_id a = table_id b \<and> sint (row_id a) \<le> sint (row_id b))"

definition less_rowid :: "rowid \<Rightarrow> rowid \<Rightarrow> bool" where
  "a < b \<longleftrightarrow> table_id a < table_id b \<or> (table_id a = table_id b \<and> sint (row_id a) < sint (row_id b))"

instance
  by standard (auto simp: less_eq_rowid_def less_rowid_def intro!: rowid.expand word_eqI_sint)

end

record row =
  rid :: rowid
  rdata :: bytes

datatype tx_ts_or_id = Timestamp u64 | TxID u64

record row_version =
  rv_begin :: tx_ts_or_id
  rv_end :: "tx_ts_or_id option"
  rv_row :: row

record log_record =
  tx_timestamp :: u64
  row_versions :: "row_version list"

datatype transaction_state = Active | Preparing | Aborted | Terminated | Committed u64

record transaction =
  state :: transaction_state
  tx_id :: u64
  begin_ts :: u64
  write_set :: "rowid fset"
  read_set :: "rowid fset"

datatype db_error = NoSuchTransactionID u64 | WriteWriteConflict | TxTerminated | Io string | DbPanic

text \<open>The storage backends; the second fails while its flag is set.\<close>

datatype storage = Noop | Flaky bool

record mv_store =
  rows :: "(rowid, row_version list) fmap"
  txs :: "(u64, transaction) fmap"
  tx_ids :: u64
  clock :: u64
  log_storage :: storage

section \<open>Transaction states as 64-bit values\<close>

definition encode :: "transaction_state \<Rightarrow> db_error + u64" where
  "encode st = (case st of
     Active \<Rightarrow> Inr 0
   | Preparing \<Rightarrow> Inr 1
   | Aborted \<Rightarrow> Inr 2
   | Terminated \<Rightarrow> Inr 3
   | Committed ts \<Rightarrow>
       if ts AND 0x8000000000000000 = 0 then Inr (0x8000000000000000 OR ts) else Inl DbPanic)"

definition decode :: "u64 \<Rightarrow> db_error + transaction_state" where
  "decode v =
     (if v = 0 then Inr Active
      else if v = 1 then Inr Preparing
      else if v = 2 then Inr Aborted
      else if v = 3 then Inr Terminated
      else if v AND 0x8000000000000000 \<noteq> 0 then Inr (Committed (v AND 0x7fffffffffffffff))
      else Inl DbPanic)"

text \<open>\<open>AtomicTransactionState::store\<close>: the value is encoded, which may fail.\<close>

definition store_state :: "transaction_state \<Rightarrow> transaction \<Rightarrow> db_error + transaction" where
  "store_state st t = res_bind (encode st) (\<lambda>_. Inr (t\<lparr>state := st\<rparr>))"

definition new_transaction :: "u64 \<Rightarrow> u64 \<Rightarrow> transaction" where
  "new_transaction key ts =
     \<lparr>state = Active, tx_id = key, begin_ts = ts, write_set = {||}, read_set = {||}\<rparr>"

definition insert_to_read_set :: "rowid \<Rightarrow> transaction \<Rightarrow> transaction" where
  "insert_to_read_set key t = t\<lparr>read_set := finsert key (read_set t)\<rparr>"

definition insert_to_write_set :: "rowid \<Rightarrow> transaction \<Rightarrow> transaction" where
  "insert_to_write_set key t = t\<lparr>write_set := finsert key (write_set t)\<rparr>"

section \<open>Visibility\<close>

definition is_begin_visible :: "(u64, transaction) fmap \<Rightarrow> transaction \<Rightarrow> row_version \<Rightarrow> bool" where
  "is_begin_visible T t rv = (case rv_begin rv of
     Timestamp ts \<Rightarrow> begin_ts t \<ge> ts
   | TxID b \<Rightarrow> (case fmlookup T b of
        None \<Rightarrow> False
      | Some tb \<Rightarrow> (case state tb of
           Active \<Rightarrow> tx_id t = tx_id tb \<and> rv_end rv = None
         | Preparing \<Rightarrow> False
         | Committed ts \<Rightarrow> begin_ts t \<ge> ts
         | Aborted \<Rightarrow> False
         | Terminated \<Rightarrow> False)))"

definition is_end_visible :: "(u64, transaction) fmap \<Rightarrow> transaction \<Rightarrow> row_version \<Rightarrow> bool" where
  "is_end_visible T t rv = (case rv_end rv of
     Some (Timestamp ts) \<Rightarrow> begin_ts t < ts
   | Some (TxID e) \<Rightarrow> (case fmlookup T e of
        None \<Rightarrow> False
      | Some te \<Rightarrow> (case state te of
           Active \<Rightarrow> tx_id t \<noteq> tx_id te
         | Preparing \<Rightarrow> False
         | Committed ts \<Rightarrow> begin_ts t < ts
         | Aborted \<Rightarrow> False
         | Terminated \<Rightarrow> False))
   | None \<Rightarrow> True)"

definition is_visible_to :: "(u64, transaction) fmap \<Rightarrow> transaction \<Rightarrow> row_version \<Rightarrow> bool" where
  "is_visible_to T t rv = (is_begin_visible T t rv \<and> is_end_visible T t rv)"

definition is_write_write_conflict ::
  "(u64, transaction) fmap \<Rightarrow> transaction \<Rightarrow> row_version \<Rightarrow> bool" where
  "is_write_write_conflict T t rv = (case rv_end rv of
     Some (TxID e) \<Rightarrow> (case fmlookup T e of
        None \<Rightarrow> False
      | Some te \<Rightarrow> if tx_id te = tx_id t then False else state te \<noteq> Aborted)
   | Some (Timestamp _) \<Rightarrow> True
   | None \<Rightarrow> False)"

definition rewritten_for_commit :: "row_version \<Rightarrow> u64 \<Rightarrow> u64 \<Rightarrow> row_version option" where
  "rewritten_for_commit rv tx end_ts =
     (let begin_matches = (rv_begin rv = TxID tx);
          end_matches = (rv_end rv = Some (TxID tx));
          updated = rv;
          updated = (if begin_matches then updated\<lparr>rv_begin := Timestamp end_ts\<rparr> else updated);
          updated = (if end_matches then updated\<lparr>rv_end := Some (Timestamp end_ts)\<rparr> else updated)
      in if \<not> begin_matches \<and> \<not> end_matches then None else Some updated)"

section \<open>Operations of the store\<close>

definition new_store :: "u64 \<Rightarrow> storage \<Rightarrow> mv_store" where
  "new_store clk st = \<lparr>rows = fmempty, txs = fmempty, tx_ids = 1, clock = clk, log_storage = st\<rparr>"

text \<open>\<open>LocalClock\<close>: \<open>fetch_add\<close> returns the old value and wraps around; \<open>reset\<close> overwrites it.\<close>

definition get_timestamp :: "mv_store \<Rightarrow> u64 \<times> mv_store" where
  "get_timestamp s = (clock s, s\<lparr>clock := clock s + 1\<rparr>)"

definition clock_reset :: "u64 \<Rightarrow> mv_store \<Rightarrow> mv_store" where
  "clock_reset ts s = s\<lparr>clock := ts\<rparr>"

definition get_tx_id :: "mv_store \<Rightarrow> u64 \<times> mv_store" where
  "get_tx_id s = (tx_ids s, s\<lparr>tx_ids := tx_ids s + 1\<rparr>)"

definition log_tx :: "storage \<Rightarrow> log_record \<Rightarrow> db_error + unit" where
  "log_tx st r = (case st of
     Noop \<Rightarrow> Inr ()
   | Flaky should_fail \<Rightarrow> if should_fail then Inl (Io ''injected log_tx failure'') else Inr ())"

definition read_tx_log :: "storage \<Rightarrow> db_error + log_record list" where
  "read_tx_log st = (case st of
     Noop \<Rightarrow> Inl (Io ''cannot read from Noop storage'')
   | Flaky _ \<Rightarrow> Inl (Io ''cannot read from Flaky storage''))"

definition get_begin_timestamp :: "(u64, transaction) fmap \<Rightarrow> tx_ts_or_id \<Rightarrow> u64" where
  "get_begin_timestamp T x = (case x of
     Timestamp ts \<Rightarrow> ts
   | TxID k \<Rightarrow> (case fmlookup T k of Some t \<Rightarrow> begin_ts t | None \<Rightarrow> 0))"

text \<open>\<open>Iterator::rposition\<close>: the last index whose element satisfies the predicate.\<close>

fun rposition :: "('a \<Rightarrow> bool) \<Rightarrow> 'a list \<Rightarrow> nat option" where
  "rposition P [] = None"
| "rposition P (x # xs) = (case rposition P xs of
     Some i \<Rightarrow> Some (Suc i)
   | None \<Rightarrow> if P x then Some 0 else None)"

definition insert_version_raw ::
  "(u64, transaction) fmap \<Rightarrow> row_version list \<Rightarrow> row_version \<Rightarrow> row_version list" where
  "insert_version_raw T versions rv =
     (let position = (case rposition (\<lambda>v. get_begin_timestamp T (rv_begin v)
                                        < get_begin_timestamp T (rv_begin rv)) versions of
                        Some p \<Rightarrow> p + 1 | None \<Rightarrow> 0)
      in take position versions @ rv # drop position versions)"

definition insert_version :: "rowid \<Rightarrow> row_version \<Rightarrow> mv_store \<Rightarrow> mv_store" where
  "insert_version key rv s =
     (let versions = (case fmlookup (rows s) key of Some vs \<Rightarrow> vs | None \<Rightarrow> [])
      in s\<lparr>rows := fmupd key (insert_version_raw (txs s) versions rv) (rows s)\<rparr>)"

definition begin_tx :: "mv_store \<Rightarrow> mv_store \<times> u64" where
  "begin_tx s =
     (let (key, s) = get_tx_id s;
          (ts, s) = get_timestamp s
      in (s\<lparr>txs := fmupd key (new_transaction key ts) (txs s)\<rparr>, key))"

definition mv_insert :: "u64 \<Rightarrow> row \<Rightarrow> mv_store \<Rightarrow> mv_store \<times> (db_error + unit)" where
  "mv_insert tx r s = (case fmlookup (txs s) tx of
     None \<Rightarrow> (s, Inl (NoSuchTransactionID tx))
   | Some t \<Rightarrow>
       if state t \<noteq> Active then (s, Inl DbPanic)
       else
         let rv = \<lparr>rv_begin = TxID (tx_id t), rv_end = None, rv_row = r\<rparr>;
             s = s\<lparr>txs := fmupd tx (insert_to_write_set (rid r) t) (txs s)\<rparr>
         in (insert_version (rid r) rv s, Inr ()))"

text \<open>The loop of \<open>rollback_tx\<close> over the write set.\<close>

definition rollback_row :: "u64 \<Rightarrow> rowid \<Rightarrow> mv_store \<Rightarrow> mv_store" where
  "rollback_row tx key s = (case fmlookup (rows s) key of
     None \<Rightarrow> s
   | Some vs \<Rightarrow>
       let vs = filter (\<lambda>rv. rv_begin rv \<noteq> TxID tx) vs
       in if vs = [] then s\<lparr>rows := fmdrop key (rows s)\<rparr>
          else s\<lparr>rows := fmupd key vs (rows s)\<rparr>)"

definition rollback_tx :: "u64 \<Rightarrow> mv_store \<Rightarrow> mv_store \<times> (db_error + unit)" where
  "rollback_tx tx s = (case fmlookup (txs s) tx of
     None \<Rightarrow> (s, Inl TxTerminated)
   | Some t \<Rightarrow>
       if state t \<noteq> Active then (s, Inl DbPanic)
       else
         let s = s\<lparr>txs := fmupd tx (t\<lparr>state := Aborted\<rparr>) (txs s)\<rparr>;
             ids = sorted_list_of_fset (write_set t);
             s = fold (rollback_row tx) ids s;
             s = s\<lparr>txs := fmupd tx (t\<lparr>state := Terminated\<rparr>) (txs s)\<rparr>
         in (s\<lparr>txs := fmdrop tx (txs s)\<rparr>, Inr ()))"

text \<open>
  \<open>for rv in row_versions.iter_mut().rev()\<close>: the second argument counts the versions still to
  be visited.
\<close>

fun delete_loop ::
  "u64 \<Rightarrow> rowid \<Rightarrow> row_version list \<Rightarrow> nat \<Rightarrow> mv_store \<Rightarrow> mv_store \<times> (db_error + bool)" where
  "delete_loop tx key vs 0 s = (s, Inr False)"
| "delete_loop tx key vs (Suc i) s = (case fmlookup (txs s) tx of
     None \<Rightarrow> (s, Inl (NoSuchTransactionID tx))
   | Some t \<Rightarrow>
       if state t \<noteq> Active then (s, Inl DbPanic)
       else if \<not> is_visible_to (txs s) t (vs ! i) then delete_loop tx key vs i s
       else if is_write_write_conflict (txs s) t (vs ! i)
       then (fst (rollback_tx tx s), Inl WriteWriteConflict)
       else
         let s = s\<lparr>rows := fmupd key (vs[i := (vs ! i)\<lparr>rv_end := Some (TxID (tx_id t))\<rparr>]) (rows s)\<rparr>
         in (s\<lparr>txs := fmupd tx (insert_to_write_set key t) (txs s)\<rparr>, Inr True))"

definition mv_delete :: "u64 \<Rightarrow> rowid \<Rightarrow> mv_store \<Rightarrow> mv_store \<times> (db_error + bool)" where
  "mv_delete tx key s = (case fmlookup (rows s) key of
     None \<Rightarrow> (s, Inr False)
   | Some vs \<Rightarrow> delete_loop tx key vs (length vs) s)"

definition mv_update :: "u64 \<Rightarrow> row \<Rightarrow> mv_store \<Rightarrow> mv_store \<times> (db_error + bool)" where
  "mv_update tx r s = (case mv_delete tx (rid r) s of
     (s, Inl e) \<Rightarrow> (s, Inl e)
   | (s, Inr False) \<Rightarrow> (s, Inr False)
   | (s, Inr True) \<Rightarrow> (case mv_insert tx r s of
        (s, Inl e) \<Rightarrow> (s, Inl e)
      | (s, Inr _) \<Rightarrow> (s, Inr True)))"

definition mv_upsert :: "u64 \<Rightarrow> row \<Rightarrow> mv_store \<Rightarrow> mv_store \<times> (db_error + unit)" where
  "mv_upsert tx r s = (case mv_delete tx (rid r) s of
     (s, Inl e) \<Rightarrow> (s, Inl e)
   | (s, Inr _) \<Rightarrow> mv_insert tx r s)"

text \<open>\<open>row_versions.iter().rev().filter(visible).next()\<close>.\<close>

definition newest_visible ::
  "(u64, transaction) fmap \<Rightarrow> transaction \<Rightarrow> row_version list \<Rightarrow> row_version option" where
  "newest_visible T t vs = List.find (is_visible_to T t) (rev vs)"

definition mv_read :: "u64 \<Rightarrow> rowid \<Rightarrow> mv_store \<Rightarrow> mv_store \<times> (db_error + row option)" where
  "mv_read tx key s = (case fmlookup (txs s) tx of
     None \<Rightarrow> (s, Inl (NoSuchTransactionID tx))
   | Some t \<Rightarrow>
       if state t \<noteq> Active then (s, Inl DbPanic)
       else (case fmlookup (rows s) key of
          None \<Rightarrow> (s, Inr None)
        | Some vs \<Rightarrow> (case newest_visible (txs s) t vs of
             None \<Rightarrow> (s, Inr None)
           | Some rv \<Rightarrow> (s\<lparr>txs := fmupd tx (insert_to_read_set key t) (txs s)\<rparr>, Inr (Some (rv_row rv))))))"

section \<open>Commit\<close>

definition log_versions ::
  "(u64, transaction) fmap \<Rightarrow> u64 \<Rightarrow> u64 \<Rightarrow> row_version list \<Rightarrow> row_version list \<Rightarrow> row_version list" where
  "log_versions T tx end_ts vs acc =
     fold (\<lambda>rv acc. case rewritten_for_commit rv tx end_ts of
             Some updated \<Rightarrow> insert_version_raw T acc updated | None \<Rightarrow> acc) vs acc"

definition build_log_record :: "mv_store \<Rightarrow> u64 \<Rightarrow> u64 \<Rightarrow> rowid list \<Rightarrow> log_record" where
  "build_log_record s tx end_ts ids =
     \<lparr>tx_timestamp = end_ts,
      row_versions = fold (\<lambda>key acc. case fmlookup (rows s) key of
          None \<Rightarrow> acc | Some vs \<Rightarrow> log_versions (txs s) tx end_ts vs acc) ids []\<rparr>"

definition commit_versions :: "u64 \<Rightarrow> u64 \<Rightarrow> row_version list \<Rightarrow> row_version list" where
  "commit_versions tx end_ts vs =
     map (\<lambda>rv. case rewritten_for_commit rv tx end_ts of Some updated \<Rightarrow> updated | None \<Rightarrow> rv) vs"

definition commit_row :: "u64 \<Rightarrow> u64 \<Rightarrow> rowid \<Rightarrow> mv_store \<Rightarrow> mv_store" where
  "commit_row tx end_ts key s = (case fmlookup (rows s) key of
     None \<Rightarrow> s
   | Some vs \<Rightarrow> s\<lparr>rows := fmupd key (commit_versions tx end_ts vs) (rows s)\<rparr>)"

definition commit_tx :: "u64 \<Rightarrow> mv_store \<Rightarrow> mv_store \<times> (db_error + unit)" where
  "commit_tx tx s =
     (let (end_ts, s) = get_timestamp s in
      case fmlookup (txs s) tx of
        None \<Rightarrow> (s, Inl TxTerminated)
      | Some t \<Rightarrow>
          if state t = Terminated then (s, Inl TxTerminated)
          else if state t \<noteq> Active then (s, Inl DbPanic)
          else
            let s = s\<lparr>txs := fmupd tx (t\<lparr>state := Preparing\<rparr>) (txs s)\<rparr>;
                ids = sorted_list_of_fset (write_set t);
                log_rec = build_log_record s tx end_ts ids
            in case (if row_versions log_rec \<noteq> [] then log_tx (log_storage s) log_rec else Inr ()) of
                 Inl e \<Rightarrow> (s\<lparr>txs := fmupd tx (t\<lparr>state := Active\<rparr>) (txs s)\<rparr>, Inl e)
               | Inr _ \<Rightarrow> (case store_state (Committed end_ts) t of
                    Inl e \<Rightarrow> (s, Inl e)
                  | Inr t \<Rightarrow>
                      let s = s\<lparr>txs := fmupd tx t (txs s)\<rparr>;
                          s = fold (commit_row tx end_ts) ids s
                      in (s\<lparr>txs := fmdrop tx (txs s)\<rparr>, Inr ())))"

section \<open>Garbage collection, recovery, scans\<close>

definition should_stay :: "(u64, transaction) fmap \<Rightarrow> row_version \<Rightarrow> bool" where
  "should_stay T rv =
     ((case rv_begin rv of TxID b \<Rightarrow> b |\<in>| fmdom T | Timestamp _ \<Rightarrow> False) \<or>
      (case rv_end rv of
         Some (Timestamp e) \<Rightarrow>
           list_ex (\<lambda>k. case fmlookup T k of
               None \<Rightarrow> False
             | Some t \<Rightarrow> (case state t of
                  Active \<Rightarrow> e > begin_ts t
                | Preparing \<Rightarrow> e > begin_ts t
                | _ \<Rightarrow> False)) (sorted_list_of_fset (fmdom T))
       | Some (TxID k) \<Rightarrow> k |\<in>| fmdom T
       | None \<Rightarrow> True))"

definition gc_row :: "(u64, transaction) fmap \<Rightarrow> row_version list \<Rightarrow> row_version list \<times> nat" where
  "gc_row T vs = (filter (should_stay T) vs, length (filter (\<lambda>rv. \<not> should_stay T rv) vs))"

definition drop_unused_row_versions :: "mv_store \<Rightarrow> mv_store \<times> nat" where
  "drop_unused_row_versions s =
     (let (R, dropped, to_remove) =
        fold (\<lambda>key (R, dropped, to_remove). case fmlookup R key of
            None \<Rightarrow> (R, dropped, to_remove)
          | Some vs \<Rightarrow>
              let (vs, n) = gc_row (txs s) vs
              in (fmupd key vs R, dropped + n, if vs = [] then to_remove @ [key] else to_remove))
          (sorted_list_of_fset (fmdom (rows s))) (rows s, 0, [])
      in (s\<lparr>rows := fold fmdrop to_remove R\<rparr>, dropped))"

definition recover :: "mv_store \<Rightarrow> mv_store \<times> (db_error + unit)" where
  "recover s = (case read_tx_log (log_storage s) of
     Inl e \<Rightarrow> (s, Inl e)
   | Inr tx_log \<Rightarrow>
       (fold (\<lambda>record s. clock_reset (tx_timestamp record)
                (fold (\<lambda>v. insert_version (rid (rv_row v)) v) (row_versions record) s)) tx_log s,
        Inr ()))"

text \<open>\<open>SkipMap::range(a..b)\<close> in key order, the upper bound excluded.\<close>

definition row_range :: "rowid \<Rightarrow> rowid \<Rightarrow> mv_store \<Rightarrow> rowid list" where
  "row_range a b s = filter (\<lambda>key. a \<le> key \<and> key < b) (sorted_list_of_fset (fmdom (rows s)))"

abbreviation (input) i64_max :: i64 where
  "i64_max \<equiv> 0x7fffffffffffffff"

definition scan_row_ids :: "mv_store \<Rightarrow> rowid list" where
  "scan_row_ids s = sorted_list_of_fset (fmdom (rows s))"

definition scan_row_ids_for_table :: "u64 \<Rightarrow> mv_store \<Rightarrow> rowid list" where
  "scan_row_ids_for_table tbl s = row_range (RowID tbl 0) (RowID tbl i64_max) s"

definition get_row_id_range :: "u64 \<Rightarrow> i64 \<Rightarrow> rowid list \<Rightarrow> nat \<Rightarrow> mv_store \<Rightarrow> rowid list" where
  "get_row_id_range tbl start bucket max_items s =
     bucket @ take max_items (row_range (RowID tbl start) (RowID tbl i64_max) s)"

definition get_next_row_id_for_table :: "u64 \<Rightarrow> i64 \<Rightarrow> mv_store \<Rightarrow> rowid option" where
  "get_next_row_id_for_table tbl start s =
     (case row_range (RowID tbl start) (RowID tbl i64_max) s of [] \<Rightarrow> None | key # _ \<Rightarrow> Some key)"

end
