(* ===== verification/MvccInv.thy ===== *)
theory MvccInv
  imports Mvcc
begin

text \<open>
  Invariant of the multi-version store. Closed forms of the loops of \<open>commit_tx\<close>,
  \<open>rollback_tx\<close> and \<open>drop_unused_row_versions\<close>; the invariant \<open>mv_inv\<close>, which says how the
  row versions and the transaction table agree; its preservation by every operation; and
  the steps and reachable states of the store.
\<close>

section \<open>Closed forms of the loops\<close>

definition rb_versions :: "u64 \<Rightarrow> row_version list option \<Rightarrow> row_version list option" where
  "rb_versions tx m = (case m of
     None \<Rightarrow> None
   | Some vs \<Rightarrow>
       let vs = filter (\<lambda>rv. rv_begin rv \<noteq> TxID tx) vs in if vs = [] then None else Some vs)"

lemma rb_versions_idem [simp]: "rb_versions tx (rb_versions tx m) = rb_versions tx m"
  by (cases m) (simp_all add: rb_versions_def Let_def)

lemma rollback_row_fields [simp]:
  "txs (rollback_row tx key s) = txs s"
  "tx_ids (rollback_row tx key s) = tx_ids s"
  "clock (rollback_row tx key s) = clock s"
  "log_storage (rollback_row tx key s) = log_storage s"
  by (simp_all add: rollback_row_def Let_def split: option.splits)

lemma rollback_row_rows:
  "fmlookup (rows (rollback_row tx key s)) k =
     (if k = key then rb_versions tx (fmlookup (rows s) k) else fmlookup (rows s) k)"
  by (auto simp: rollback_row_def rb_versions_def Let_def split: option.splits)

lemma fold_rollback_row_fields [simp]:
  "txs (fold (rollback_row tx) ids s) = txs s"
  "tx_ids (fold (rollback_row tx) ids s) = tx_ids s"
  "clock (fold (rollback_row tx) ids s) = clock s"
  "log_storage (fold (rollback_row tx) ids s) = log_storage s"
  by (induction ids arbitrary: s) simp_all

lemma fold_rollback_row_rows:
  "fmlookup (rows (fold (rollback_row tx) ids s)) k =
     (if k \<in> set ids then rb_versions tx (fmlookup (rows s) k) else fmlookup (rows s) k)"
  by (induction ids arbitrary: s) (simp_all add: rollback_row_rows)

lemma commit_version_cases:
  "(case rewritten_for_commit rv tx ts of Some u \<Rightarrow> u | None \<Rightarrow> rv) =
   rv\<lparr>rv_begin := (if rv_begin rv = TxID tx then Timestamp ts else rv_begin rv),
      rv_end := (if rv_end rv = Some (TxID tx) then Some (Timestamp ts) else rv_end rv)\<rparr>"
  by (auto simp: rewritten_for_commit_def Let_def)

lemma commit_versions_idem [simp]:
  "commit_versions tx ts (commit_versions tx ts vs) = commit_versions tx ts vs"
  by (simp add: commit_versions_def commit_version_cases)

lemma commit_row_fields [simp]:
  "txs (commit_row tx ts key s) = txs s"
  "tx_ids (commit_row tx ts key s) = tx_ids s"
  "clock (commit_row tx ts key s) = clock s"
  "log_storage (commit_row tx ts key s) = log_storage s"
  by (simp_all add: commit_row_def split: option.splits)

lemma commit_row_rows:
  "fmlookup (rows (commit_row tx ts key s)) k =
     (if k = key then map_option (commit_versions tx ts) (fmlookup (rows s) k) else fmlookup (rows s) k)"
  by (auto simp: commit_row_def split: option.splits)

lemma fold_commit_row_fields [simp]:
  "txs (fold (commit_row tx ts) ids s) = txs s"
  "tx_ids (fold (commit_row tx ts) ids s) = tx_ids s"
  "clock (fold (commit_row tx ts) ids s) = clock s"
  "log_storage (fold (commit_row tx ts) ids s) = log_storage s"
  by (induction ids arbitrary: s) simp_all

lemma fold_commit_row_rows:
  "fmlookup (rows (fold (commit_row tx ts) ids s)) k =
     (if k \<in> set ids then map_option (commit_versions tx ts) (fmlookup (rows s) k) else fmlookup (rows s) k)"
  by (induction ids arbitrary: s) (simp_all add: commit_row_rows option.map_comp comp_def)

lemma fold_fmdrop: "fmlookup (fold fmdrop ks m) k = (if k \<in> set ks then None else fmlookup m k)"
  by (induction ks arbitrary: m) auto

definition gc_rows :: "(u64, transaction) fmap \<Rightarrow> row_version list option \<Rightarrow> row_version list option" where
  "gc_rows T m = (case m of
     None \<Rightarrow> None
   | Some vs \<Rightarrow> let vs = filter (should_stay T) vs in if vs = [] then None else Some vs)"

definition gc_step where
  "gc_step T = (\<lambda>key (R, dropped, to_remove). case fmlookup R key of
      None \<Rightarrow> (R, dropped, to_remove)
    | Some vs \<Rightarrow>
        let (vs, n) = gc_row T vs
        in (fmupd key vs R, dropped + n, if vs = [] then to_remove @ [key] else to_remove))"

definition gc_count :: "(u64, transaction) fmap \<Rightarrow> row_version list option \<Rightarrow> nat" where
  "gc_count T m = (case m of None \<Rightarrow> 0 | Some vs \<Rightarrow> length (filter (\<lambda>rv. \<not> should_stay T rv) vs))"

lemma fold_gc_step:
  assumes "distinct ks" "fold (gc_step T) ks (R, n, rm) = (R', n', rm')"
  shows "(\<forall>k. fmlookup R' k = (if k \<in> set ks then map_option (filter (should_stay T)) (fmlookup R k) else fmlookup R k)) \<and>
    set rm' = set rm \<union> {k \<in> set ks. \<exists>vs. fmlookup R k = Some vs \<and> filter (should_stay T) vs = []} \<and>
    n' = n + (\<Sum>k\<leftarrow>ks. gc_count T (fmlookup R k))"
  using assms
proof (induction ks arbitrary: R n rm)
  case (Cons k ks)
  obtain R1 n1 rm1 where step: "gc_step T k (R, n, rm) = (R1, n1, rm1)" by (cases "gc_step T k (R, n, rm)")
  have keep: "fmlookup R1 j = fmlookup R j" if "j \<noteq> k" for j
    using step that by (auto simp: gc_step_def gc_row_def split: option.splits)
  have at: "fmlookup R1 k = map_option (filter (should_stay T)) (fmlookup R k)"
      "set rm1 = set rm \<union> {j. j = k \<and> (\<exists>vs. fmlookup R k = Some vs \<and> filter (should_stay T) vs = [])}"
      "n1 = n + gc_count T (fmlookup R k)"
    using step by (auto simp: gc_step_def gc_row_def gc_count_def split: option.splits if_splits)
  have IH: "(\<forall>j. fmlookup R' j = (if j \<in> set ks then map_option (filter (should_stay T)) (fmlookup R1 j) else fmlookup R1 j)) \<and>
    set rm' = set rm1 \<union> {j \<in> set ks. \<exists>vs. fmlookup R1 j = Some vs \<and> filter (should_stay T) vs = []} \<and>
    n' = n1 + (\<Sum>j\<leftarrow>ks. gc_count T (fmlookup R1 j))"
    using Cons.prems step by (intro Cons.IH) auto
  have k: "k \<notin> set ks" using Cons.prems by simp
  have "(\<Sum>j\<leftarrow>ks. gc_count T (fmlookup R1 j)) = (\<Sum>j\<leftarrow>ks. gc_count T (fmlookup R j))"
    using k by (intro arg_cong [where f = sum_list] map_cong) (auto intro!: arg_cong [where f = "gc_count T"] keep)
  moreover have "fmlookup R' j = (if j \<in> set (k # ks) then map_option (filter (should_stay T)) (fmlookup R j) else fmlookup R j)" for j
    using IH k keep [of j] at(1) by (cases "j = k") auto
  moreover have "set rm' = set rm \<union> {j \<in> set (k # ks). \<exists>vs. fmlookup R j = Some vs \<and> filter (should_stay T) vs = []}"
  proof -
    have "{j \<in> set ks. \<exists>vs. fmlookup R1 j = Some vs \<and> filter (should_stay T) vs = []} =
        {j \<in> set ks. \<exists>vs. fmlookup R j = Some vs \<and> filter (should_stay T) vs = []}"
      using k keep by (metis (no_types, lifting))
    then show ?thesis using IH at(2) by auto
  qed
  ultimately show ?case using IH at(3) by simp
qed simp

lemma drop_unused_row_versions_eq:
  "fst (drop_unused_row_versions s) = s\<lparr>rows := rows (fst (drop_unused_row_versions s))\<rparr>"
  "fmlookup (rows (fst (drop_unused_row_versions s))) k = gc_rows (txs s) (fmlookup (rows s) k)"
  "snd (drop_unused_row_versions s) =
     (\<Sum>k\<leftarrow>sorted_list_of_fset (fmdom (rows s)). gc_count (txs s) (fmlookup (rows s) k))"
proof -
  let ?ks = "sorted_list_of_fset (fmdom (rows s))"
  obtain R n rm where f: "fold (gc_step (txs s)) ?ks (rows s, 0, []) = (R, n, rm)"
    by (cases "fold (gc_step (txs s)) ?ks (rows s, 0, [])")
  have d: "drop_unused_row_versions s = (s\<lparr>rows := fold fmdrop rm R\<rparr>, n)"
    using f by (simp add: drop_unused_row_versions_def gc_step_def [symmetric])
  have ks: "distinct ?ks" by (simp add: sorted_list_of_fset.rep_eq)
  note g = fold_gc_step [OF ks f]
  show "fst (drop_unused_row_versions s) = s\<lparr>rows := rows (fst (drop_unused_row_versions s))\<rparr>"
    by (simp add: d)
  show "fmlookup (rows (fst (drop_unused_row_versions s))) k = gc_rows (txs s) (fmlookup (rows s) k)"
    using g by (auto simp: d fold_fmdrop gc_rows_def fmlookup_dom_iff split: option.splits)
  show "snd (drop_unused_row_versions s) = (\<Sum>k\<leftarrow>?ks. gc_count (txs s) (fmlookup (rows s) k))"
    using g by (simp add: d)
qed

section \<open>The invariant\<close>

definition tx_ok :: "mv_store \<Rightarrow> u64 \<Rightarrow> transaction \<Rightarrow> bool" where
  "tx_ok s k t \<longleftrightarrow> tx_id t = k \<and> state t = Active \<and> begin_ts t < clock s \<and> k < tx_ids s"

text \<open>
  A version belongs to the row it is stored under, and while its creator is running nobody else
  has ended it. A transaction named in its \<open>begin\<close> is tracked
  and has the row in its write set; a transaction named in its \<open>end\<close> was issued by this store
  and, while it is tracked, has the row in its write set. Timestamps are in the past.
\<close>

definition begin_ok :: "mv_store \<Rightarrow> rowid \<Rightarrow> tx_ts_or_id \<Rightarrow> bool" where
  "begin_ok s key b \<longleftrightarrow> (case b of
     Timestamp ts \<Rightarrow> ts < clock s
   | TxID k \<Rightarrow> (\<exists>t. fmlookup (txs s) k = Some t \<and> key |\<in>| write_set t))"

definition end_ok :: "mv_store \<Rightarrow> rowid \<Rightarrow> tx_ts_or_id option \<Rightarrow> bool" where
  "end_ok s key e \<longleftrightarrow> (case e of
     None \<Rightarrow> True
   | Some (Timestamp ts) \<Rightarrow> ts < clock s
   | Some (TxID k) \<Rightarrow> k < tx_ids s \<and> (\<forall>t. fmlookup (txs s) k = Some t \<longrightarrow> key |\<in>| write_set t))"

definition version_ok :: "mv_store \<Rightarrow> rowid \<Rightarrow> row_version \<Rightarrow> bool" where
  "version_ok s key rv \<longleftrightarrow>
     rid (rv_row rv) = key \<and> begin_ok s key (rv_begin rv) \<and> end_ok s key (rv_end rv) \<and>
     (\<forall>k. rv_begin rv = TxID k \<longrightarrow> rv_end rv = None \<or> rv_end rv = Some (TxID k))"

definition mv_inv :: "mv_store \<Rightarrow> bool" where
  "mv_inv s \<longleftrightarrow>
     (\<forall>k t. fmlookup (txs s) k = Some t \<longrightarrow> tx_ok s k t) \<and>
     (\<forall>key vs. fmlookup (rows s) key = Some vs \<longrightarrow> vs \<noteq> [] \<and> (\<forall>rv\<in>set vs. version_ok s key rv))"

text \<open>
  The counters are below the bounds the code supports: a timestamp must fit the 63 bits that
  \<open>TransactionState::encode\<close> leaves for it, and transaction identifiers must not wrap around.
\<close>

definition has_room :: "mv_store \<Rightarrow> bool" where
  "has_room s \<longleftrightarrow> clock s < 0x8000000000000000 \<and> tx_ids s < 0xffffffffffffffff"

lemmas ok_defs = tx_ok_def version_ok_def begin_ok_def end_ok_def

lemma mv_invD:
  assumes "mv_inv s"
  shows "fmlookup (txs s) k = Some t \<Longrightarrow> tx_ok s k t"
    and "fmlookup (rows s) key = Some vs \<Longrightarrow> vs \<noteq> []"
    and "fmlookup (rows s) key = Some vs \<Longrightarrow> rv \<in> set vs \<Longrightarrow> version_ok s key rv"
  using assms by (auto simp: mv_inv_def)

lemma word_less_succ:
  fixes c b :: u64
  assumes "c < b" "x \<le> c"
  shows "x < c + 1"
proof -
  have "unat c < unat b" "unat x \<le> unat c" using assms by (simp_all add: word_less_nat_alt word_le_nat_alt)
  moreover have "unat b < 2 ^ 64" using unsigned_less [of b] by simp
  ultimately have "unat (c + 1) = unat c + 1" by (simp add: unat_word_ariths(1))
  then show ?thesis using \<open>unat x \<le> unat c\<close> by (simp add: word_less_nat_alt)
qed

lemma has_room_succ:
  assumes "has_room s"
  shows "x \<le> clock s \<Longrightarrow> x < clock s + 1" "y \<le> tx_ids s \<Longrightarrow> y < tx_ids s + 1"
  using assms by (auto simp: has_room_def elim: word_less_succ)

section \<open>Preservation\<close>

lemma new_store_inv: "mv_inv (new_store clk st)"
  by (simp add: mv_inv_def new_store_def)

lemma begin_tx_eq:
  "begin_tx s = (s\<lparr>tx_ids := tx_ids s + 1, clock := clock s + 1,
      txs := fmupd (tx_ids s) (new_transaction (tx_ids s) (clock s)) (txs s)\<rparr>, tx_ids s)"
  by (simp add: begin_tx_def get_tx_id_def get_timestamp_def)

lemma tx_ids_fresh: "mv_inv s \<Longrightarrow> fmlookup (txs s) (tx_ids s) = None"
  by (cases "fmlookup (txs s) (tx_ids s)") (auto dest: mv_invD(1) simp: tx_ok_def)

lemma begin_tx_inv:
  assumes inv: "mv_inv s" and room: "has_room s"
  shows "mv_inv (fst (begin_tx s))"
proof -
  note succ = has_room_succ [OF room]
  have "tx_ok (fst (begin_tx s)) k t" if "fmlookup (txs (fst (begin_tx s))) k = Some t" for k t
    using that mv_invD(1) [OF inv, of k t] succ
    by (auto simp: begin_tx_eq tx_ok_def new_transaction_def split: if_splits)
  moreover have "version_ok (fst (begin_tx s)) key rv" if "version_ok s key rv" for key rv
    using that tx_ids_fresh [OF inv] succ
    by (auto simp: begin_tx_eq ok_defs split: tx_ts_or_id.splits option.splits)
  ultimately show ?thesis
    using inv by (auto simp: mv_inv_def) (auto simp: begin_tx_eq)
qed

text \<open>Growing the read and write sets of one transaction.\<close>

lemma grow_tx_inv:
  assumes inv: "mv_inv s" and t: "fmlookup (txs s) k = Some t"
    and t': "state t' = state t" "tx_id t' = tx_id t" "begin_ts t' = begin_ts t" "write_set t |\<subseteq>| write_set t'"
  shows "mv_inv (s\<lparr>txs := fmupd k t' (txs s)\<rparr>)"
proof -
  have "version_ok (s\<lparr>txs := fmupd k t' (txs s)\<rparr>) key rv" if "version_ok s key rv" for key rv
    using that t t'(4) by (auto simp: ok_defs split: tx_ts_or_id.splits option.splits)
  moreover have "tx_ok (s\<lparr>txs := fmupd k t' (txs s)\<rparr>) j u" if "fmlookup (txs (s\<lparr>txs := fmupd k t' (txs s)\<rparr>)) j = Some u" for j u
    using that mv_invD(1) [OF inv, of j] t t' by (auto simp: tx_ok_def split: if_splits)
  ultimately show ?thesis
    using inv by (auto simp: mv_inv_def)
qed

text \<open>Replacing the versions of one row.\<close>

lemma upd_row_inv:
  assumes "mv_inv s" "vs \<noteq> []" "\<forall>rv\<in>set vs. version_ok s key rv"
  shows "mv_inv (s\<lparr>rows := fmupd key vs (rows s)\<rparr>)"
  using assms by (auto simp: mv_inv_def ok_defs split: tx_ts_or_id.splits option.splits)

lemma insert_version_raw_set: "set (insert_version_raw T vs rv) = insert rv (set vs)"
proof -
  have "set (take p vs @ rv # drop p vs) = insert rv (set vs)" for p
    by (metis append_take_drop_id insert_is_Un list.simps(15) set_append sup_left_commute)
  then show ?thesis by (simp only: insert_version_raw_def Let_def)
qed

lemma insert_version_inv:
  assumes "mv_inv s" "version_ok s key rv"
  shows "mv_inv (insert_version key rv s)"
proof -
  define vs where "vs = (case fmlookup (rows s) key of Some vs \<Rightarrow> vs | None \<Rightarrow> [])"
  have "\<forall>rv\<in>set vs. version_ok s key rv"
    using mv_invD(3) [OF assms(1)] by (cases "fmlookup (rows s) key") (auto simp: vs_def)
  moreover have "insert_version_raw (txs s) vs rv \<noteq> []"
    by (metis insert_not_empty insert_version_raw_set list.set(1))
  ultimately show ?thesis
    unfolding insert_version_def Let_def vs_def [symmetric]
    using assms by (intro upd_row_inv) (auto simp: insert_version_raw_set)
qed

lemma mv_insert_inv:
  assumes inv: "mv_inv s"
  shows "mv_inv (fst (mv_insert tx r s))"
proof (cases "fmlookup (txs s) tx")
  case (Some t)
  let ?s = "s\<lparr>txs := fmupd tx (insert_to_write_set (rid r) t) (txs s)\<rparr>"
  have "mv_inv ?s"
    using inv Some by (rule grow_tx_inv) (auto simp: insert_to_write_set_def)
  moreover have "version_ok ?s (rid r) \<lparr>rv_begin = TxID (tx_id t), rv_end = None, rv_row = r\<rparr>"
    using mv_invD(1) [OF inv Some] by (simp add: ok_defs insert_to_write_set_def)
  ultimately show ?thesis
    using Some inv by (simp add: mv_insert_def Let_def insert_version_inv)
qed (use inv in \<open>simp add: mv_insert_def\<close>)

lemma mv_read_inv: "mv_inv s \<Longrightarrow> mv_inv (fst (mv_read tx key s))"
  by (auto simp: mv_read_def insert_to_read_set_def split: option.splits intro!: grow_tx_inv)

lemma rollback_tx_eq:
  assumes "fmlookup (txs s) tx = Some t" "state t = Active"
  shows "snd (rollback_tx tx s) = Inr ()"
    "txs (fst (rollback_tx tx s)) = fmdrop tx (txs s)"
    "clock (fst (rollback_tx tx s)) = clock s" "tx_ids (fst (rollback_tx tx s)) = tx_ids s"
    "log_storage (fst (rollback_tx tx s)) = log_storage s"
    "fmlookup (rows (fst (rollback_tx tx s))) k =
      (if k |\<in>| write_set t then rb_versions tx (fmlookup (rows s) k) else fmlookup (rows s) k)"
  using assms by (auto simp: rollback_tx_def Let_def fold_rollback_row_rows fmap_ext)

lemma rb_versions_SomeD:
  "rb_versions tx m = Some vs \<Longrightarrow>
   \<exists>ws. m = Some ws \<and> vs = filter (\<lambda>rv. rv_begin rv \<noteq> TxID tx) ws \<and> vs \<noteq> []"
  by (auto simp: rb_versions_def Let_def split: option.splits if_splits)

text \<open>Under the invariant the loop over the write set reaches every version of the transaction.\<close>

lemma rollback_tx_rows:
  assumes inv: "mv_inv s" and t: "fmlookup (txs s) tx = Some t"
  shows "fmlookup (rows (fst (rollback_tx tx s))) k = rb_versions tx (fmlookup (rows s) k)"
proof (cases "k |\<in>| write_set t")
  case False
  have "rb_versions tx (fmlookup (rows s) k) = fmlookup (rows s) k"
  proof (cases "fmlookup (rows s) k")
    case (Some vs)
    have "rv_begin rv \<noteq> TxID tx" if "rv \<in> set vs" for rv
      using mv_invD(3) [OF inv Some that] t False by (auto simp: ok_defs)
    then have "filter (\<lambda>rv. rv_begin rv \<noteq> TxID tx) vs = vs" by simp
    then show ?thesis using Some mv_invD(2) [OF inv Some] by (simp add: rb_versions_def)
  qed (simp add: rb_versions_def)
  then show ?thesis
    using rollback_tx_eq(6) [OF t] mv_invD(1) [OF inv t] False by (simp add: tx_ok_def)
qed (use rollback_tx_eq(6) [OF t] mv_invD(1) [OF inv t] in \<open>simp add: tx_ok_def\<close>)

lemma rollback_tx_inv:
  assumes inv: "mv_inv s"
  shows "mv_inv (fst (rollback_tx tx s))"
proof (cases "fmlookup (txs s) tx")
  case (Some t)
  let ?s = "fst (rollback_tx tx s)"
  have act: "state t = Active" using mv_invD(1) [OF inv Some] by (simp add: tx_ok_def)
  note eq = rollback_tx_eq(2-5) [OF Some act] rollback_tx_rows [OF inv Some]
  have "version_ok ?s key rv" if "version_ok s key rv" "rv_begin rv \<noteq> TxID tx" for key rv
    using that by (auto simp: ok_defs eq split: tx_ts_or_id.splits option.splits)
  moreover have "tx_ok ?s k u" if "fmlookup (txs ?s) k = Some u" for k u
    using that mv_invD(1) [OF inv, of k u] by (auto simp: eq tx_ok_def split: if_splits)
  ultimately show ?thesis
    using inv by (auto simp: mv_inv_def eq dest!: rb_versions_SomeD)
qed (use inv in \<open>simp add: rollback_tx_def\<close>)

text \<open>
  What \<open>delete\<close> does: it looks for the newest visible version; that version is marked as ended by
  the transaction, or the transaction is rolled back when another one has ended it.
\<close>

definition mark_deleted :: "u64 \<Rightarrow> rowid \<Rightarrow> transaction \<Rightarrow> row_version list \<Rightarrow> nat \<Rightarrow> mv_store \<Rightarrow> mv_store" where
  "mark_deleted tx key t vs i s =
     s\<lparr>rows := fmupd key (vs[i := (vs ! i)\<lparr>rv_end := Some (TxID (tx_id t))\<rparr>]) (rows s),
       txs := fmupd tx (insert_to_write_set key t) (txs s)\<rparr>"

lemma rposition_snoc: "rposition P (xs @ [x]) = (if P x then Some (length xs) else rposition P xs)"
  by (induction xs) (auto split: option.splits)

lemma rposition_SomeD:
  "rposition P xs = Some i \<Longrightarrow> i < length xs \<and> P (xs ! i) \<and> (\<forall>j. i < j \<and> j < length xs \<longrightarrow> \<not> P (xs ! j))"
  by (induction xs rule: rev_induct) (auto simp: rposition_snoc nth_append split: if_splits)

lemma rposition_None_iff: "rposition P xs = None \<longleftrightarrow> (\<forall>x\<in>set xs. \<not> P x)"
  by (induction xs) (auto split: option.splits)

lemma delete_loop_eq:
  assumes "fmlookup (txs s) tx = Some t" "state t = Active" "n \<le> length vs"
  shows "delete_loop tx key vs n s = (case rposition (is_visible_to (txs s) t) (take n vs) of
      None \<Rightarrow> (s, Inr False)
    | Some i \<Rightarrow> if is_write_write_conflict (txs s) t (vs ! i) then (fst (rollback_tx tx s), Inl WriteWriteConflict)
        else (mark_deleted tx key t vs i s, Inr True))"
  using assms(3)
proof (induction n)
  case (Suc n)
  then show ?case using assms(1,2)
    by (auto simp: take_Suc_conv_app_nth rposition_snoc mark_deleted_def Let_def)
qed simp

text \<open>Under the invariant there is a conflict exactly when the visible version has an end.\<close>

lemma conflict_iff:
  assumes "mv_inv s" "fmlookup (txs s) tx = Some t" "is_visible_to (txs s) t rv"
  shows "is_write_write_conflict (txs s) t rv \<longleftrightarrow> rv_end rv \<noteq> None"
  using assms(2,3) mv_invD(1) [OF assms(1)]
  by (auto simp: is_write_write_conflict_def is_visible_to_def is_end_visible_def tx_ok_def
      split: option.splits tx_ts_or_id.splits)

lemma mv_delete_eq:
  assumes "mv_inv s" "fmlookup (txs s) tx = Some t"
  shows "mv_delete tx key s = (case fmlookup (rows s) key of
      None \<Rightarrow> (s, Inr False)
    | Some vs \<Rightarrow> (case rposition (is_visible_to (txs s) t) vs of
         None \<Rightarrow> (s, Inr False)
       | Some i \<Rightarrow> if rv_end (vs ! i) \<noteq> None then (fst (rollback_tx tx s), Inl WriteWriteConflict)
           else (mark_deleted tx key t vs i s, Inr True)))"
  using mv_invD(1) [OF assms] conflict_iff [OF assms]
  by (auto simp: mv_delete_def delete_loop_eq [OF assms(2)] tx_ok_def
      split: option.splits dest!: rposition_SomeD)

lemma mv_delete_untracked:
  assumes "mv_inv s" "fmlookup (txs s) tx = None"
  shows "mv_delete tx key s =
    (s, if fmlookup (rows s) key = None then Inr False else Inl (NoSuchTransactionID tx))"
proof (cases "fmlookup (rows s) key")
  case (Some vs)
  then obtain i where "length vs = Suc i" using mv_invD(2) [OF assms(1)] by (cases vs) auto
  then show ?thesis using Some assms(2) by (simp add: mv_delete_def)
qed (simp add: mv_delete_def)

lemma visible_begin_own:
  assumes "mv_inv s" "fmlookup (txs s) tx = Some t" "is_visible_to (txs s) t rv" "rv_begin rv = TxID k"
  shows "k = tx"
  using assms(2-4) mv_invD(1) [OF assms(1)]
  by (force simp: is_visible_to_def is_begin_visible_def tx_ok_def split: option.splits)

lemma mark_deleted_inv:
  assumes inv: "mv_inv s" and t: "fmlookup (txs s) tx = Some t" and vs: "fmlookup (rows s) key = Some vs"
    and i: "i < length vs" "is_visible_to (txs s) t (vs ! i)"
  shows "mv_inv (mark_deleted tx key t vs i s)"
proof -
  let ?rv = "(vs ! i)\<lparr>rv_end := Some (TxID (tx_id t))\<rparr>"
  let ?s = "s\<lparr>txs := fmupd tx (insert_to_write_set key t) (txs s)\<rparr>"
  have tid: "tx_id t = tx" "tx < tx_ids s" using mv_invD(1) [OF inv t] by (auto simp: tx_ok_def)
  have inv1: "mv_inv ?s"
    using inv t by (rule grow_tx_inv) (auto simp: insert_to_write_set_def)
  have "version_ok ?s key (vs ! i)"
    using inv1 vs i(1) by (intro mv_invD(3)) auto
  then have "version_ok ?s key ?rv"
    using tid visible_begin_own [OF inv t i(2)] by (auto simp: ok_defs insert_to_write_set_def)
  then have "mv_inv (?s\<lparr>rows := fmupd key (vs[i := ?rv]) (rows ?s)\<rparr>)"
    using inv1 vs i(1)
    by (intro upd_row_inv) (auto dest!: set_update_subset_insert [THEN subsetD] mv_invD(3))
  moreover have "mark_deleted tx key t vs i s = ?s\<lparr>rows := fmupd key (vs[i := ?rv]) (rows ?s)\<rparr>"
    by (simp add: mark_deleted_def)
  ultimately show ?thesis by (simp only:)
qed

lemma mv_delete_inv:
  assumes inv: "mv_inv s"
  shows "mv_inv (fst (mv_delete tx key s))"
proof (cases "fmlookup (txs s) tx")
  case (Some t)
  show ?thesis
    using inv mark_deleted_inv [OF inv Some] rollback_tx_inv [OF inv, of tx]
    by (auto simp: mv_delete_eq [OF inv Some] split: option.splits dest!: rposition_SomeD)
qed (use inv in \<open>simp add: mv_delete_untracked\<close>)

lemma mv_update_inv: "mv_inv s \<Longrightarrow> mv_inv (fst (mv_update tx r s))"
  using mv_delete_inv [of s tx "rid r"] mv_insert_inv [of "fst (mv_delete tx (rid r) s)" tx r]
  by (auto simp: mv_update_def split: prod.splits sum.splits bool.splits)

lemma mv_upsert_inv: "mv_inv s \<Longrightarrow> mv_inv (fst (mv_upsert tx r s))"
  using mv_delete_inv [of s tx "rid r"] mv_insert_inv [of "fst (mv_delete tx (rid r) s)" tx r]
  by (auto simp: mv_upsert_def split: prod.splits sum.splits)

section \<open>Commit\<close>

lemma top_bit_clear:
  fixes ts :: u64
  assumes "ts < 0x8000000000000000"
  shows "ts AND 0x8000000000000000 = 0"
proof -
  have "unat ts < 2 ^ 63" using assms by (simp add: word_less_nat_alt)
  then have "\<not> bit (unat ts) 63" by (simp add: bit_iff_odd)
  then have "\<not> bit ts 63" by (simp add: bit_unsigned_iff)
  then show ?thesis using and_exp_eq_0_iff_not_bit [of ts 63] by simp
qed

text \<open>The outcome of a commit whose log write succeeds, and of one whose log write fails.\<close>

definition commit_log :: "mv_store \<Rightarrow> u64 \<Rightarrow> transaction \<Rightarrow> log_record" where
  "commit_log s tx t = build_log_record (s\<lparr>clock := clock s + 1, txs := fmupd tx (t\<lparr>state := Preparing\<rparr>) (txs s)\<rparr>)
     tx (clock s) (sorted_list_of_fset (write_set t))"

definition log_fails :: "mv_store \<Rightarrow> u64 \<Rightarrow> transaction \<Rightarrow> bool" where
  "log_fails s tx t \<longleftrightarrow> row_versions (commit_log s tx t) \<noteq> [] \<and> log_storage s = Flaky True"

lemma commit_tx_fail:
  assumes "fmlookup (txs s) tx = Some t" "state t = Active" "log_fails s tx t"
  shows "commit_tx tx s = (s\<lparr>clock := clock s + 1\<rparr>, Inl (Io ''injected log_tx failure''))"
proof -
  have t: "t\<lparr>state := Active\<rparr> = t" using assms(2) by simp
  have "fmupd tx t (fmupd tx t' (txs s)) = txs s" for t'
    using assms(1) by (intro fmap_ext) auto
  then show ?thesis
    using assms by (simp add: commit_tx_def get_timestamp_def Let_def log_fails_def commit_log_def log_tx_def t)
qed

lemma commit_tx_ok:
  assumes "fmlookup (txs s) tx = Some t" "state t = Active" "\<not> log_fails s tx t" "clock s < 0x8000000000000000"
  shows "snd (commit_tx tx s) = Inr ()"
    "txs (fst (commit_tx tx s)) = fmdrop tx (txs s)"
    "clock (fst (commit_tx tx s)) = clock s + 1" "tx_ids (fst (commit_tx tx s)) = tx_ids s"
    "log_storage (fst (commit_tx tx s)) = log_storage s"
    "fmlookup (rows (fst (commit_tx tx s))) k =
      (if k |\<in>| write_set t then map_option (commit_versions tx (clock s)) (fmlookup (rows s) k)
       else fmlookup (rows s) k)"
proof -
  obtain v where v: "encode (Committed (clock s)) = Inr v"
    using top_bit_clear [OF assms(4)] by (simp add: encode_def)
  have l: "row_versions (commit_log s tx t) = [] \<or> (\<forall>r. log_tx (log_storage s) r = Inr ())"
    using assms(3) by (auto simp: log_fails_def log_tx_def split: storage.splits)
  let ?t = "t\<lparr>state := Committed (clock s)\<rparr>"
  have eq: "commit_tx tx s =
     (let s1 = fold (commit_row tx (clock s)) (sorted_list_of_fset (write_set t))
                (s\<lparr>clock := clock s + 1, txs := fmupd tx ?t (txs s)\<rparr>)
      in (s1\<lparr>txs := fmdrop tx (txs s1)\<rparr>, Inr ()))"
    using l assms(1,2)
    by (elim disjE) (simp_all add: commit_tx_def get_timestamp_def commit_log_def store_state_def v Let_def)
  show "snd (commit_tx tx s) = Inr ()"
    "txs (fst (commit_tx tx s)) = fmdrop tx (txs s)"
    "clock (fst (commit_tx tx s)) = clock s + 1" "tx_ids (fst (commit_tx tx s)) = tx_ids s"
    "log_storage (fst (commit_tx tx s)) = log_storage s"
    "fmlookup (rows (fst (commit_tx tx s))) k =
      (if k |\<in>| write_set t then map_option (commit_versions tx (clock s)) (fmlookup (rows s) k)
       else fmlookup (rows s) k)"
    by (auto simp: eq Let_def fold_commit_row_rows fmap_ext)
qed

text \<open>Versions of a row; the set of rows the transaction touched covers all its versions.\<close>

definition versions :: "mv_store \<Rightarrow> rowid \<Rightarrow> row_version list" where
  "versions s key = (case fmlookup (rows s) key of None \<Rightarrow> [] | Some vs \<Rightarrow> vs)"

lemma in_versions:
  "rv \<in> set (versions s key) \<longleftrightarrow> (\<exists>vs. fmlookup (rows s) key = Some vs \<and> rv \<in> set vs)"
  by (cases "fmlookup (rows s) key") (simp_all add: versions_def)

lemma versions_ok: "mv_inv s \<Longrightarrow> rv \<in> set (versions s key) \<Longrightarrow> version_ok s key rv"
  by (auto simp: in_versions mv_invD(3))

lemma commit_versions_untouched:
  assumes "mv_inv s" "fmlookup (txs s) tx = Some t" "key |\<notin>| write_set t"
  shows "commit_versions tx ts (versions s key) = versions s key"
proof -
  have "rewritten_for_commit rv tx ts = None" if "rv \<in> set (versions s key)" for rv
    using versions_ok [OF assms(1) that] assms(2,3)
    by (auto simp: rewritten_for_commit_def ok_defs Let_def)
  then show ?thesis by (auto simp: commit_versions_def intro!: map_idI)
qed

lemma commit_tx_versions:
  assumes "mv_inv s" "fmlookup (txs s) tx = Some t" "\<not> log_fails s tx t" "clock s < 0x8000000000000000"
  shows "versions (fst (commit_tx tx s)) key = commit_versions tx (clock s) (versions s key)"
proof -
  have "state t = Active" using mv_invD(1) [OF assms(1,2)] by (simp add: tx_ok_def)
  then show ?thesis
    using commit_tx_ok(6) [OF assms(2) _ assms(3,4)] commit_versions_untouched [OF assms(1,2), of key "clock s"]
    by (auto simp: versions_def commit_versions_def split: option.splits)
qed

lemma mv_inv_versions:
  "mv_inv s \<longleftrightarrow>
     (\<forall>k t. fmlookup (txs s) k = Some t \<longrightarrow> tx_ok s k t) \<and>
     (\<forall>key. fmlookup (rows s) key \<noteq> Some []) \<and>
     (\<forall>key. \<forall>rv\<in>set (versions s key). version_ok s key rv)"
  by (fastforce simp: mv_inv_def in_versions)

lemma tick_inv: "mv_inv s \<Longrightarrow> has_room s \<Longrightarrow> mv_inv (s\<lparr>clock := clock s + 1\<rparr>)"
  using has_room_succ(1) [of s]
  by (fastforce simp: mv_inv_def ok_defs split: tx_ts_or_id.splits option.splits)

lemma commit_tx_inv:
  assumes inv: "mv_inv s" and room: "has_room s"
  shows "mv_inv (fst (commit_tx tx s))"
proof (cases "fmlookup (txs s) tx")
  case None
  then show ?thesis using tick_inv [OF inv room] by (simp add: commit_tx_def get_timestamp_def)
next
  case (Some t)
  have act: "state t = Active" using mv_invD(1) [OF inv Some] by (simp add: tx_ok_def)
  show ?thesis
  proof (cases "log_fails s tx t")
    case True
    then show ?thesis using tick_inv [OF inv room] by (simp add: commit_tx_fail [OF Some act])
  next
    case False
    have c: "clock s < 0x8000000000000000" using room by (simp add: has_room_def)
    let ?s = "fst (commit_tx tx s)"
    note eq = commit_tx_ok(2-4) [OF Some act False c] commit_tx_versions [OF inv Some False c]
    have "version_ok ?s key rv'" if v: "rv' \<in> set (versions ?s key)" for key rv'
    proof -
      obtain rv where rv: "rv \<in> set (versions s key)"
        "rv' = (case rewritten_for_commit rv tx (clock s) of Some u \<Rightarrow> u | None \<Rightarrow> rv)"
        using v by (auto simp: eq commit_versions_def)
      then show ?thesis using versions_ok [OF inv rv(1)] has_room_succ(1) [OF room]
        by (auto simp: rewritten_for_commit_def Let_def ok_defs eq less_imp_le
            split: tx_ts_or_id.splits option.splits if_splits)
    qed
    moreover have "tx_ok ?s k u" if "fmlookup (txs ?s) k = Some u" for k u
      using that mv_invD(1) [OF inv, of k u] has_room_succ(1) [OF room]
      by (auto simp: eq tx_ok_def less_imp_le split: if_splits)
    moreover have "fmlookup (rows ?s) key \<noteq> Some []" for key
      using commit_tx_ok(6) [OF Some act False c, of key] mv_invD(2) [OF inv, of key]
      by (auto simp: commit_versions_def split: if_splits)
    ultimately show ?thesis by (simp add: mv_inv_versions)
  qed
qed

lemma gc_rows_SomeD: "gc_rows T m = Some vs \<Longrightarrow> \<exists>ws. m = Some ws \<and> vs = filter (should_stay T) ws \<and> vs \<noteq> []"
  by (auto simp: gc_rows_def Let_def split: option.splits if_splits)

lemma drop_unused_row_versions_inv:
  assumes "mv_inv s"
  shows "mv_inv (fst (drop_unused_row_versions s))"
proof -
  let ?s = "fst (drop_unused_row_versions s)"
  have f: "txs ?s = txs s" "clock ?s = clock s" "tx_ids ?s = tx_ids s"
    by (subst drop_unused_row_versions_eq(1), simp)+
  have "version_ok ?s key rv = version_ok s key rv" "tx_ok ?s k t = tx_ok s k t" for key rv k t
    unfolding ok_defs f by simp_all
  then show ?thesis using assms
    by (auto simp: mv_inv_def f drop_unused_row_versions_eq(2) dest!: gc_rows_SomeD)
qed

section \<open>Runs of the store\<close>

text \<open>
  The public operations as steps. \<open>mv_exec\<close> is the store after the operation and the error it
  reported; \<open>mv_reach\<close> is the store after any interleaving of operations of any transactions,
  known or unknown, as long as the counters have room.
\<close>

datatype mv_op =
  OpBegin | OpInsert u64 row | OpUpdate u64 row | OpUpsert u64 row | OpDelete u64 rowid
  | OpRead u64 rowid | OpCommit u64 | OpRollback u64 | OpGc

definition err_of :: "db_error + 'a \<Rightarrow> db_error option" where
  "err_of r = (case r of Inl e \<Rightarrow> Some e | Inr _ \<Rightarrow> None)"

fun mv_exec :: "mv_op \<Rightarrow> mv_store \<Rightarrow> mv_store \<times> db_error option" where
  "mv_exec OpBegin s = (fst (begin_tx s), None)"
| "mv_exec (OpInsert tx r) s = map_prod id err_of (mv_insert tx r s)"
| "mv_exec (OpUpdate tx r) s = map_prod id err_of (mv_update tx r s)"
| "mv_exec (OpUpsert tx r) s = map_prod id err_of (mv_upsert tx r s)"
| "mv_exec (OpDelete tx key) s = map_prod id err_of (mv_delete tx key s)"
| "mv_exec (OpRead tx key) s = map_prod id err_of (mv_read tx key s)"
| "mv_exec (OpCommit tx) s = map_prod id err_of (commit_tx tx s)"
| "mv_exec (OpRollback tx) s = map_prod id err_of (rollback_tx tx s)"
| "mv_exec OpGc s = (fst (drop_unused_row_versions s), None)"

inductive mv_reach :: "mv_store \<Rightarrow> mv_store \<Rightarrow> bool" for s0 where
  start: "mv_reach s0 s0"
| step: "mv_reach s0 s \<Longrightarrow> has_room s \<Longrightarrow> mv_reach s0 (fst (mv_exec op s))"

lemmas mv_inv_intros =
  begin_tx_inv mv_insert_inv mv_update_inv mv_upsert_inv mv_delete_inv mv_read_inv commit_tx_inv
  rollback_tx_inv drop_unused_row_versions_inv

lemma mv_exec_inv: "mv_inv s \<Longrightarrow> has_room s \<Longrightarrow> mv_inv (fst (mv_exec op s))"
  by (cases op) (auto intro: mv_inv_intros)

lemma mv_reach_inv: "mv_reach s0 s \<Longrightarrow> mv_inv s0 \<Longrightarrow> mv_inv s"
  by (induction rule: mv_reach.induct) (auto intro: mv_exec_inv)

end
