(* ===== verification/MvccIso.thy ===== *)
theory MvccIso
  imports MvccInv
begin

text \<open>
  Snapshot isolation of the versioned store. A reference definition of visibility (\<open>sees\<close>) that
  only mentions the timestamp of the reader and the set of running transactions is shown equal to
  the code's \<open>is_visible_to\<close> on every reachable store; what each operation does to the view of
  another transaction follows from it, and is lifted to runs through the interface
  \<open>isolated_store\<close>.
\<close>

section \<open>Visibility\<close>

definition sees :: "u64 fset \<Rightarrow> u64 \<Rightarrow> u64 \<Rightarrow> row_version \<Rightarrow> bool" where
  "sees D tx b rv =
     ((case rv_begin rv of Timestamp ts \<Rightarrow> ts \<le> b | TxID k \<Rightarrow> k = tx \<and> rv_end rv = None) \<and>
      (case rv_end rv of None \<Rightarrow> True | Some (Timestamp e) \<Rightarrow> b < e | Some (TxID k) \<Rightarrow> k |\<in>| D \<and> k \<noteq> tx))"

lemma is_visible_to_sees:
  assumes "mv_inv s" "fmlookup (txs s) tx = Some t" "version_ok s key rv"
  shows "is_visible_to (txs s) t rv = sees (fmdom (txs s)) tx (begin_ts t) rv"
proof -
  have *: "tx_id u = k" "state u = Active" if "fmlookup (txs s) k = Some u" for k u
    using mv_invD(1) [OF assms(1) that] by (auto simp: tx_ok_def)
  show ?thesis
    using assms(2,3) * by (fastforce simp: is_visible_to_def is_begin_visible_def is_end_visible_def sees_def
        ok_defs fmlookup_dom_iff split: tx_ts_or_id.splits option.splits)
qed

text \<open>The rows a transaction sees under a key, oldest first; \<open>read\<close> returns the last of them.\<close>

definition view :: "mv_store \<Rightarrow> u64 \<Rightarrow> u64 \<Rightarrow> rowid \<Rightarrow> row list" where
  "view s tx b key = map rv_row (filter (sees (fmdom (txs s)) tx b) (versions s key))"

definition last_row :: "row list \<Rightarrow> row option" where
  "last_row rs = (if rs = [] then None else Some (last rs))"

lemma find_rev: "List.find P (rev xs) = (if filter P xs = [] then None else Some (last (filter P xs)))"
  by (induction xs rule: rev_induct) auto

lemma filter_visible:
  assumes "mv_inv s" "fmlookup (txs s) tx = Some t"
  shows "filter (is_visible_to (txs s) t) (versions s key) =
    filter (sees (fmdom (txs s)) tx (begin_ts t)) (versions s key)"
  using is_visible_to_sees [OF assms versions_ok [OF assms(1)]] by (intro filter_cong) auto

lemma mv_read_view:
  assumes "mv_inv s" "fmlookup (txs s) tx = Some t"
  shows "snd (mv_read tx key s) = Inr (last_row (view s tx (begin_ts t) key))"
proof -
  have "state t = Active" using mv_invD(1) [OF assms] by (simp add: tx_ok_def)
  then show ?thesis
    using assms(2) filter_visible [OF assms, of key]
    by (auto simp: mv_read_def newest_visible_def find_rev view_def last_row_def last_map versions_def
        split: option.splits)
qed

lemma mv_read_untracked: "fmlookup (txs s) tx = None \<Longrightarrow> mv_read tx key s = (s, Inl (NoSuchTransactionID tx))"
  by (simp add: mv_read_def)

section \<open>What an operation does to the view of another transaction\<close>

text \<open>The view only depends on the versions and on which ending transactions are running.\<close>

lemma view_mono_txs:
  assumes "\<And>rv k. rv \<in> set (versions s key) \<Longrightarrow> rv_end rv = Some (TxID k) \<Longrightarrow>
      k |\<in>| fmdom (txs s) \<longleftrightarrow> k |\<in>| fmdom (txs s')"
    and "versions s' key = versions s key"
  shows "view s' tx b key = view s tx b key"
proof -
  have "sees (fmdom (txs s')) tx b rv = sees (fmdom (txs s)) tx b rv" if "rv \<in> set (versions s key)" for rv
    using assms(1) [OF that] by (auto simp: sees_def split: tx_ts_or_id.splits option.splits)
  then show ?thesis unfolding view_def assms(2) by (metis (mono_tags, lifting) filter_cong)
qed

lemma begin_tx_view:
  assumes "mv_inv s"
  shows "view (fst (begin_tx s)) tx b key = view s tx b key"
proof (rule view_mono_txs)
  fix rv k assume "rv \<in> set (versions s key)" "rv_end rv = Some (TxID k)"
  then show "k |\<in>| fmdom (txs s) \<longleftrightarrow> k |\<in>| fmdom (txs (fst (begin_tx s)))"
    using versions_ok [OF assms, of rv key] by (auto simp: begin_tx_eq ok_defs)
qed (simp add: begin_tx_eq versions_def)

lemma mv_read_frame:
  "versions (fst (mv_read u k s)) = versions s" "fmdom (txs (fst (mv_read u k s))) = fmdom (txs s)"
  "tx \<noteq> u \<Longrightarrow> fmlookup (txs (fst (mv_read u k s))) tx = fmlookup (txs s) tx"
  by (auto simp: mv_read_def versions_def fun_eq_iff fmlookup_dom_iff split: option.splits)

lemma versions_insert_version:
  "versions (insert_version k rv s) key =
     (if key = k then insert_version_raw (txs s) (versions s k) rv else versions s key)"
  by (auto simp: insert_version_def versions_def Let_def split: option.splits)

lemma filter_insert_version_raw:
  "\<not> P rv \<Longrightarrow> filter P (insert_version_raw T vs rv) = filter P vs"
  unfolding insert_version_raw_def Let_def
  by (simp, metis append_take_drop_id filter_append)

lemma mv_insert_frame:
  "fmdom (txs (fst (mv_insert u r s))) = fmdom (txs s)"
  "tx \<noteq> u \<Longrightarrow> fmlookup (txs (fst (mv_insert u r s))) tx = fmlookup (txs s) tx"
  by (auto simp: mv_insert_def insert_version_def Let_def fmlookup_dom_iff split: option.splits)

lemma mv_insert_versions:
  assumes "mv_inv s" "fmlookup (txs s) u = Some t"
  shows "snd (mv_insert u r s) = Inr ()"
    "\<exists>T. versions (fst (mv_insert u r s)) key =
      (if key = rid r then insert_version_raw T (versions s key) \<lparr>rv_begin = TxID u, rv_end = None, rv_row = r\<rparr>
       else versions s key)"
  using assms(2) mv_invD(1) [OF assms]
  by (auto simp: mv_insert_def tx_ok_def Let_def versions_insert_version) (auto simp: versions_def)

lemma mv_insert_view:
  assumes "mv_inv s" "tx \<noteq> u"
  shows "view (fst (mv_insert u r s)) tx b key = view s tx b key"
proof (cases "fmlookup (txs s) u")
  case (Some t)
  obtain T where "versions (fst (mv_insert u r s)) key =
      (if key = rid r then insert_version_raw T (versions s key) \<lparr>rv_begin = TxID u, rv_end = None, rv_row = r\<rparr>
       else versions s key)"
    using mv_insert_versions(2) [OF assms(1) Some] by blast
  then show ?thesis
    using assms(2) by (simp add: view_def mv_insert_frame filter_insert_version_raw sees_def)
qed (simp add: mv_insert_def)

text \<open>
  A rollback takes back what the transaction inserted, but leaves its marks on the versions it
  deleted; the view of another transaction is the same unless there is such a mark.
\<close>

definition ended_by :: "u64 \<Rightarrow> row_version list \<Rightarrow> bool" where
  "ended_by u vs = list_ex (\<lambda>rv. rv_end rv = Some (TxID u) \<and> rv_begin rv \<noteq> TxID u) vs"

lemma rollback_tx_versions:
  assumes "mv_inv s" "fmlookup (txs s) u = Some t"
  shows "versions (fst (rollback_tx u s)) key = filter (\<lambda>rv. rv_begin rv \<noteq> TxID u) (versions s key)"
  by (auto simp: versions_def rollback_tx_rows [OF assms] rb_versions_def Let_def split: option.splits)

lemma rollback_tx_frame:
  assumes "mv_inv s" "fmlookup (txs s) u = Some t"
  shows "txs (fst (rollback_tx u s)) = fmdrop u (txs s)" "snd (rollback_tx u s) = Inr ()"
  using rollback_tx_eq(1,2) [OF assms(2)] mv_invD(1) [OF assms] by (auto simp: tx_ok_def)

lemma rollback_tx_view:
  assumes "mv_inv s" "tx \<noteq> u" "fmlookup (txs s) u \<noteq> None \<Longrightarrow> \<not> ended_by u (versions s key)"
  shows "view (fst (rollback_tx u s)) tx b key = view s tx b key"
proof (cases "fmlookup (txs s) u")
  case (Some t)
  have "sees (fmdom (fmdrop u (txs s))) tx b rv \<and> rv_begin rv \<noteq> TxID u \<longleftrightarrow> sees (fmdom (txs s)) tx b rv"
    if "rv \<in> set (versions s key)" for rv
    using that assms(2,3) Some
    by (auto simp: sees_def ended_by_def list_ex_iff split: tx_ts_or_id.splits option.splits)
  then show ?thesis
    by (simp add: view_def rollback_tx_versions [OF assms(1) Some] rollback_tx_frame [OF assms(1) Some]
        conj_commute cong: filter_cong)
qed (simp add: rollback_tx_def)

lemma filter_update_last:
  assumes "i < length xs" "P (xs ! i)" "\<And>j. i < j \<Longrightarrow> j < length xs \<Longrightarrow> \<not> P (xs ! j)" "\<not> P y"
  shows "filter P (xs[i := y]) = butlast (filter P xs)"
proof -
  have "filter P (drop (Suc i) xs) = []"
    using assms(3) by (auto simp: filter_empty_conv in_set_conv_nth)
  moreover have "filter P xs = filter P (take i xs @ xs ! i # drop (Suc i) xs)"
    using assms(1) by (simp add: id_take_nth_drop [symmetric])
  ultimately show ?thesis using assms(1,2,4) by (simp add: upd_conv_take_nth_drop)
qed

lemma filter_update_same:
  assumes "i < length xs" "P y = P (xs ! i)" "f y = f (xs ! i)"
  shows "map f (filter P (xs[i := y])) = map f (filter P xs)"
proof -
  have "xs = take i xs @ xs ! i # drop (Suc i) xs" using assms(1) by (rule id_take_nth_drop)
  then have "map f (filter P xs) = map f (filter P (take i xs @ xs ! i # drop (Suc i) xs))" by simp
  then show ?thesis using assms by (simp add: upd_conv_take_nth_drop)
qed

lemma mark_deleted_frame:
  assumes "fmlookup (txs s) u = Some t" "fmlookup (rows s) k = Some vs"
  shows "fmdom (txs (mark_deleted u k t vs i s)) = fmdom (txs s)"
    "tx \<noteq> u \<Longrightarrow> fmlookup (txs (mark_deleted u k t vs i s)) tx = fmlookup (txs s) tx"
    "versions (mark_deleted u k t vs i s) key =
      (if key = k then vs[i := (vs ! i)\<lparr>rv_end := Some (TxID (tx_id t))\<rparr>] else versions s key)"
  using assms by (auto simp: mark_deleted_def versions_def fmlookup_dom_iff)

lemma mark_deleted_view:
  assumes inv: "mv_inv s" and u: "fmlookup (txs s) u = Some t" and vs: "fmlookup (rows s) k = Some vs"
    and i: "i < length vs" "is_visible_to (txs s) t (vs ! i)" "rv_end (vs ! i) = None" and "tx \<noteq> u"
  shows "view (mark_deleted u k t vs i s) tx b key = view s tx b key"
proof -
  have t: "tx_id t = u" using mv_invD(1) [OF inv u] by (simp add: tx_ok_def)
  have "u |\<in>| fmdom (txs s)" using u by (auto simp: fmlookup_dom_iff)
  then have "sees (fmdom (txs s)) tx b ((vs ! i)\<lparr>rv_end := Some (TxID u)\<rparr>) = sees (fmdom (txs s)) tx b (vs ! i)"
    using i(3) \<open>tx \<noteq> u\<close> visible_begin_own [OF inv u i(2)]
    by (auto simp: sees_def split: tx_ts_or_id.splits)
  moreover have "versions s k = vs" using vs by (simp add: versions_def)
  ultimately show ?thesis
    using i(1) by (auto simp: view_def mark_deleted_frame [OF u vs] t intro!: filter_update_same)
qed

lemma mv_delete_cases [consumes 2, case_names absent conflict marked]:
  assumes inv: "mv_inv s" and u: "fmlookup (txs s) u = Some t"
  obtains "mv_delete u k s = (s, Inr False)" "filter (is_visible_to (txs s) t) (versions s k) = []"
  | "mv_delete u k s = (fst (rollback_tx u s), Inl WriteWriteConflict)"
  | vs i where "mv_delete u k s = (mark_deleted u k t vs i s, Inr True)" "fmlookup (rows s) k = Some vs"
    "rposition (is_visible_to (txs s) t) vs = Some i" "rv_end (vs ! i) = None"
proof (cases "fmlookup (rows s) k")
  case None
  then show ?thesis using that(1) by (simp add: mv_delete_eq [OF inv u] versions_def)
next
  case (Some vs)
  show ?thesis
  proof (cases "rposition (is_visible_to (txs s) t) vs")
    case None
    then have "\<forall>rv\<in>set vs. \<not> is_visible_to (txs s) t rv" by (simp add: rposition_None_iff)
    with None Some show ?thesis by (intro that(1)) (simp_all add: mv_delete_eq [OF inv u] versions_def)
  next
    case (Some i)
    then show ?thesis
      using \<open>fmlookup (rows s) k = Some vs\<close> that(2) that(3) [of vs i]
      by (cases "rv_end (vs ! i)") (simp_all add: mv_delete_eq [OF inv u])
  qed
qed

text \<open>An operation aborts a transaction when it ends it without committing.\<close>

definition aborted :: "u64 \<Rightarrow> mv_store \<Rightarrow> mv_store \<Rightarrow> bool" where
  "aborted u s s' = (u |\<in>| fmdom (txs s) \<and> u |\<notin>| fmdom (txs s'))"

lemma mv_delete_other:
  assumes inv: "mv_inv s" and "tx \<noteq> u"
  shows "fmlookup (txs (fst (mv_delete u k s))) tx = fmlookup (txs s) tx"
    "(aborted u s (fst (mv_delete u k s)) \<Longrightarrow> \<not> ended_by u (versions s key)) \<Longrightarrow>
      view (fst (mv_delete u k s)) tx b key = view s tx b key"
proof -
  have "fmlookup (txs (fst (mv_delete u k s))) tx = fmlookup (txs s) tx \<and>
    ((aborted u s (fst (mv_delete u k s)) \<longrightarrow> \<not> ended_by u (versions s key)) \<longrightarrow>
      view (fst (mv_delete u k s)) tx b key = view s tx b key)"
  proof (cases "fmlookup (txs s) u")
    case None
    then show ?thesis by (simp add: mv_delete_untracked [OF inv])
  next
    case (Some t)
    show ?thesis
      using inv Some
    proof (cases rule: mv_delete_cases [where k = k])
      case conflict
      then show ?thesis
        using rollback_tx_frame [OF inv Some] rollback_tx_view [OF inv \<open>tx \<noteq> u\<close>] Some \<open>tx \<noteq> u\<close>
        by (auto simp: aborted_def fmlookup_dom_iff)
    next
      case (marked vs i)
      then show ?thesis
        using mark_deleted_frame(2) [OF Some marked(2) \<open>tx \<noteq> u\<close>]
          mark_deleted_view [OF inv Some marked(2) _ _ marked(4) \<open>tx \<noteq> u\<close>]
        by (auto dest!: rposition_SomeD)
    qed simp
  qed
  then show "fmlookup (txs (fst (mv_delete u k s))) tx = fmlookup (txs s) tx"
    "(aborted u s (fst (mv_delete u k s)) \<Longrightarrow> \<not> ended_by u (versions s key)) \<Longrightarrow>
      view (fst (mv_delete u k s)) tx b key = view s tx b key"
    by auto
qed

lemma mv_delete_ok_domain:
  assumes "mv_inv s" "snd (mv_delete u k s) = Inr r"
  shows "fmdom (txs (fst (mv_delete u k s))) = fmdom (txs s)"
proof (cases "fmlookup (txs s) u")
  case (Some t)
  show ?thesis
    using assms(1) Some
    by (cases rule: mv_delete_cases [where k = k]) (use assms(2) Some in \<open>auto simp: mark_deleted_frame\<close>)
qed (simp add: mv_delete_untracked [OF assms(1)])

lemma mv_update_eq:
  "fst (mv_update u r s) = (case snd (mv_delete u (rid r) s) of
     Inr True \<Rightarrow> fst (mv_insert u r (fst (mv_delete u (rid r) s))) | _ \<Rightarrow> fst (mv_delete u (rid r) s))"
  "fst (mv_upsert u r s) = (case snd (mv_delete u (rid r) s) of
     Inr _ \<Rightarrow> fst (mv_insert u r (fst (mv_delete u (rid r) s))) | _ \<Rightarrow> fst (mv_delete u (rid r) s))"
  by (auto simp: mv_update_def mv_upsert_def split: prod.splits sum.splits bool.splits)

lemma aborted_insert: "aborted u s (fst (mv_insert u r s')) = aborted u s s'"
  by (simp add: aborted_def mv_insert_frame)

lemma mv_update_other:
  assumes inv: "mv_inv s" and "tx \<noteq> u"
  shows "fmlookup (txs (fst (mv_update u r s))) tx = fmlookup (txs s) tx"
    "(aborted u s (fst (mv_update u r s)) \<Longrightarrow> \<not> ended_by u (versions s key)) \<Longrightarrow>
      view (fst (mv_update u r s)) tx b key = view s tx b key"
    "fmlookup (txs (fst (mv_upsert u r s))) tx = fmlookup (txs s) tx"
    "(aborted u s (fst (mv_upsert u r s)) \<Longrightarrow> \<not> ended_by u (versions s key)) \<Longrightarrow>
      view (fst (mv_upsert u r s)) tx b key = view s tx b key"
  using mv_delete_other [OF assms, where k = "rid r"] mv_insert_view [OF mv_delete_inv [OF inv] \<open>tx \<noteq> u\<close>]
  by (auto simp: mv_update_eq mv_insert_frame(2) [OF \<open>tx \<noteq> u\<close>] aborted_insert split: sum.splits bool.splits)

lemma commit_tx_cases [consumes 2, case_names untracked failed committed]:
  assumes inv: "mv_inv s" and room: "has_room s"
  obtains "fmlookup (txs s) u = None" "commit_tx u s = (s\<lparr>clock := clock s + 1\<rparr>, Inl TxTerminated)"
  | t where "fmlookup (txs s) u = Some t" "log_fails s u t"
    "commit_tx u s = (s\<lparr>clock := clock s + 1\<rparr>, Inl (Io ''injected log_tx failure''))"
  | t where "fmlookup (txs s) u = Some t" "\<not> log_fails s u t" "snd (commit_tx u s) = Inr ()"
    "txs (fst (commit_tx u s)) = fmdrop u (txs s)" "clock (fst (commit_tx u s)) = clock s + 1"
    "\<And>key. versions (fst (commit_tx u s)) key = commit_versions u (clock s) (versions s key)"
proof (cases "fmlookup (txs s) u")
  case None
  then show ?thesis by (intro that(1)) (simp_all add: commit_tx_def get_timestamp_def)
next
  case (Some t)
  have act: "state t = Active" using mv_invD(1) [OF inv Some] by (simp add: tx_ok_def)
  have c: "clock s < 0x8000000000000000" using room by (simp add: has_room_def)
  show ?thesis
  proof (cases "log_fails s u t")
    case True
    show ?thesis by (rule that(2) [OF Some True commit_tx_fail [OF Some act True]])
  next
    case False
    show ?thesis
      by (rule that(3) [OF Some False commit_tx_ok(1-3) [OF Some act False c] commit_tx_versions [OF inv Some False c]])
  qed
qed

text \<open>A commit gives its versions a timestamp that is newer than every running snapshot.\<close>

lemma commit_versions_map:
  "commit_versions u c vs = map (\<lambda>rv. rv\<lparr>rv_begin := (if rv_begin rv = TxID u then Timestamp c else rv_begin rv),
     rv_end := (if rv_end rv = Some (TxID u) then Some (Timestamp c) else rv_end rv)\<rparr>) vs"
  by (auto simp: commit_versions_def rewritten_for_commit_def Let_def)

lemma commit_versions_sees:
  assumes "tx \<noteq> u" "b < c" "u |\<in>| D" "\<forall>rv\<in>set vs. \<forall>k. rv_begin rv = TxID k \<longrightarrow> rv_end rv = None \<or> rv_end rv = Some (TxID k)"
  shows "map rv_row (filter (sees (D |-| {|u|}) tx b) (commit_versions u c vs)) = map rv_row (filter (sees D tx b) vs)"
  using assms(4)
proof (induction vs)
  case (Cons rv vs)
  then show ?case
    using assms(1-3) by (auto simp: commit_versions_map sees_def split: tx_ts_or_id.splits option.splits)
qed (simp add: commit_versions_def)

lemma commit_tx_other:
  assumes inv: "mv_inv s" and "has_room s" "tx \<noteq> u" and "b < clock s"
  shows "fmlookup (txs (fst (commit_tx u s))) tx = fmlookup (txs s) tx"
    "view (fst (commit_tx u s)) tx b key = view s tx b key"
  using assms(1,2)
proof (atomize (full), cases rule: commit_tx_cases [where u = u])
  case (committed t)
  have "u |\<in>| fmdom (txs s)" using committed(1) by (auto simp: fmlookup_dom_iff)
  moreover have "\<forall>rv\<in>set (versions s key). \<forall>k. rv_begin rv = TxID k \<longrightarrow> rv_end rv = None \<or> rv_end rv = Some (TxID k)"
    using versions_ok [OF inv] by (auto simp: version_ok_def)
  ultimately show "fmlookup (txs (fst (commit_tx u s))) tx = fmlookup (txs s) tx \<and>
      view (fst (commit_tx u s)) tx b key = view s tx b key"
    using commit_versions_sees [OF assms(3,4)] committed assms(3) by (simp add: view_def)
qed (simp_all add: view_def versions_def)

text \<open>Garbage collection only drops versions no running transaction sees.\<close>

lemma drop_unused_row_versions_frame:
  "txs (fst (drop_unused_row_versions s)) = txs s"
  "versions (fst (drop_unused_row_versions s)) key = filter (should_stay (txs s)) (versions s key)"
proof -
  show "txs (fst (drop_unused_row_versions s)) = txs s"
    by (subst drop_unused_row_versions_eq(1)) simp
  show "versions (fst (drop_unused_row_versions s)) key = filter (should_stay (txs s)) (versions s key)"
    unfolding versions_def drop_unused_row_versions_eq(2)
    by (simp add: gc_rows_def Let_def split: option.split)
qed

lemma sees_should_stay:
  assumes inv: "mv_inv s" and tx: "fmlookup (txs s) tx = Some t" and "sees (fmdom (txs s)) tx (begin_ts t) rv"
  shows "should_stay (txs s) rv"
proof -
  have "tx \<in> set (sorted_list_of_fset (fmdom (txs s)))" "state t = Active"
    using tx mv_invD(1) [OF inv tx] by (auto simp: tx_ok_def fmlookup_dom_iff)
  then show ?thesis
    using assms(3) tx
    by (auto simp: should_stay_def sees_def list_ex_iff split: tx_ts_or_id.splits option.splits intro!: bexI [of _ tx])
qed

lemma drop_unused_row_versions_view:
  assumes "mv_inv s" "fmlookup (txs s) tx = Some t"
  shows "view (fst (drop_unused_row_versions s)) tx (begin_ts t) key = view s tx (begin_ts t) key"
proof -
  have "filter (\<lambda>rv. should_stay (txs s) rv \<and> sees (fmdom (txs s)) tx (begin_ts t) rv) (versions s key) =
      filter (sees (fmdom (txs s)) tx (begin_ts t)) (versions s key)"
    using sees_should_stay [OF assms] by (intro filter_cong) auto
  then show ?thesis
    by (simp add: view_def drop_unused_row_versions_frame conj_commute)
qed

section \<open>Runs\<close>

fun op_tx :: "mv_op \<Rightarrow> u64 option" where
  "op_tx OpBegin = None"
| "op_tx (OpInsert u _) = Some u"
| "op_tx (OpUpdate u _) = Some u"
| "op_tx (OpUpsert u _) = Some u"
| "op_tx (OpDelete u _) = Some u"
| "op_tx (OpRead u _) = Some u"
| "op_tx (OpCommit u) = Some u"
| "op_tx (OpRollback u) = Some u"
| "op_tx OpGc = None"

text \<open>
  An operation that does not concern the transaction: another one's, and if it aborts that other
  one, then the other one had not deleted a version of the row.
\<close>

definition undisturbing :: "u64 \<Rightarrow> rowid \<Rightarrow> mv_op \<Rightarrow> mv_store \<Rightarrow> bool" where
  "undisturbing tx key op s =
     (has_room s \<and> op_tx op \<noteq> Some tx \<and>
      (case op_tx op of
         None \<Rightarrow> True
       | Some u \<Rightarrow> op = OpCommit u \<or> \<not> aborted u s (fst (mv_exec op s)) \<or> \<not> ended_by u (versions s key)))"

lemma mv_exec_other:
  assumes inv: "mv_inv s" and tx: "fmlookup (txs s) tx = Some t" and op: "undisturbing tx key op s"
  shows "fmlookup (txs (fst (mv_exec op s))) tx = Some t"
    "view (fst (mv_exec op s)) tx (begin_ts t) key = view s tx (begin_ts t) key"
proof -
  have b: "begin_ts t < clock s" "tx \<noteq> tx_ids s" using mv_invD(1) [OF inv tx] by (auto simp: tx_ok_def)
  have room: "has_room s" and ne: "op_tx op \<noteq> Some tx" using op by (simp_all add: undisturbing_def)
  have "fmlookup (txs (fst (mv_exec op s))) tx = Some t \<and>
      view (fst (mv_exec op s)) tx (begin_ts t) key = view s tx (begin_ts t) key"
  proof (cases op)
    case OpBegin
    then show ?thesis using b tx begin_tx_view [OF inv] by (simp add: begin_tx_eq)
  next
    case (OpInsert u r)
    then show ?thesis using ne tx mv_insert_view [OF inv] by (simp add: mv_insert_frame)
  next
    case (OpUpdate u r)
    then show ?thesis using ne tx op mv_update_other(1,2) [OF inv, of tx u r]
      by (auto simp: undisturbing_def)
  next
    case (OpUpsert u r)
    then show ?thesis using ne tx op mv_update_other(3,4) [OF inv, of tx u r]
      by (auto simp: undisturbing_def)
  next
    case (OpDelete u k)
    then show ?thesis using ne tx op mv_delete_other [OF inv, of tx u k]
      by (auto simp: undisturbing_def)
  next
    case (OpRead u k)
    then show ?thesis using ne tx by (simp add: mv_read_frame view_def)
  next
    case (OpCommit u)
    then show ?thesis using ne tx commit_tx_other [OF inv room _ b(1)] by simp
  next
    case (OpRollback u)
    have "fmlookup (txs (fst (rollback_tx u s))) tx = Some t"
      using OpRollback ne tx rollback_tx_frame [OF inv, of u] by (cases "fmlookup (txs s) u") (auto simp: rollback_tx_def)
    moreover have "aborted u s (fst (rollback_tx u s))" if "fmlookup (txs s) u \<noteq> None"
      using that rollback_tx_frame [OF inv, of u] by (auto simp: aborted_def fmlookup_dom_iff)
    ultimately show ?thesis
      using OpRollback ne op rollback_tx_view [OF inv, of tx u key] by (auto simp: undisturbing_def)
  next
    case OpGc
    then show ?thesis
      using tx drop_unused_row_versions_view [OF inv tx] by (simp add: drop_unused_row_versions_frame)
  qed
  then show "fmlookup (txs (fst (mv_exec op s))) tx = Some t"
    "view (fst (mv_exec op s)) tx (begin_ts t) key = view s tx (begin_ts t) key" by simp_all
qed

text \<open>
  The interface between a store and its readers: an operation satisfying the guard keeps the
  invariant and what is observed. Observations are then stable along every guarded run.
\<close>

locale isolated_store =
  fixes exec :: "'op \<Rightarrow> 's \<Rightarrow> 's" and good :: "'s \<Rightarrow> bool" and guard :: "'op \<Rightarrow> 's \<Rightarrow> bool" and observe :: "'s \<Rightarrow> 'v"
  assumes good_step: "good s \<Longrightarrow> guard op s \<Longrightarrow> good (exec op s)"
    and observe_step: "good s \<Longrightarrow> guard op s \<Longrightarrow> observe (exec op s) = observe s"
begin

lemma observe_run:
  assumes "good s" "\<And>n. n < length ops \<Longrightarrow> guard (ops ! n) (fold exec (take n ops) s)"
  shows "good (fold exec ops s) \<and> observe (fold exec ops s) = observe s"
  using assms
proof (induction ops arbitrary: s)
  case (Cons op ops)
  have "guard op s" using Cons.prems(2) [of 0] by simp
  then have *: "good (exec op s)" "observe (exec op s) = observe s"
    using Cons.prems(1) by (simp_all add: good_step observe_step)
  have "guard (ops ! n) (fold exec (take n ops) (exec op s))" if "n < length ops" for n
    using Cons.prems(2) [of "Suc n"] that by simp
  then show ?case using Cons.IH [OF *(1)] *(2) by simp
qed simp

end

definition mv_run :: "mv_op list \<Rightarrow> mv_store \<Rightarrow> mv_store" where
  "mv_run = fold (\<lambda>op s. fst (mv_exec op s))"

definition undisturbed :: "u64 \<Rightarrow> rowid \<Rightarrow> mv_op list \<Rightarrow> mv_store \<Rightarrow> bool" where
  "undisturbed tx key ops s =
     list_all (\<lambda>n. undisturbing tx key (ops ! n) (mv_run (take n ops) s)) [0..<length ops]"

text \<open>Instance: the store observed by a running transaction through \<open>read\<close>.\<close>

definition tracked :: "u64 \<Rightarrow> mv_store \<Rightarrow> bool" where
  "tracked tx s = (mv_inv s \<and> fmlookup (txs s) tx \<noteq> None)"

interpretation mv: isolated_store "\<lambda>op s. fst (mv_exec op s)" "tracked tx" "undisturbing tx key"
    "\<lambda>s. (fmlookup (txs s) tx, snd (mv_read tx key s))" for tx key
proof
  fix s op assume "tracked tx s" and g: "undisturbing tx key op s"
  then obtain t where s: "mv_inv s" "fmlookup (txs s) tx = Some t" by (auto simp: tracked_def)
  note o = mv_exec_other [OF s g]
  have i: "mv_inv (fst (mv_exec op s))" using s(1) g by (simp add: undisturbing_def mv_exec_inv)
  show "tracked tx (fst (mv_exec op s))" using o(1) i by (simp add: tracked_def)
  show "(fmlookup (txs (fst (mv_exec op s))) tx, snd (mv_read tx key (fst (mv_exec op s)))) =
      (fmlookup (txs s) tx, snd (mv_read tx key s))"
    using o s by (simp add: mv_read_view [OF i o(1)] mv_read_view [OF s])
qed

end
