(* ===== verification/MvccProps.thy ===== *)
theory MvccProps
  imports MvccIso
begin

text \<open>
  The properties of the versioned store: reachable stores never make an operation panic, what a
  running transaction reads is stable, the outcome of \<open>delete\<close>, \<open>commit_tx\<close>, \<open>rollback_tx\<close> and of
  garbage collection, the 64-bit encoding of transaction states, and the scans.
\<close>

section \<open>Helper facts\<close>

lemma not_panic_simps [simp]: "err_of (Inr x) = None" "err_of (Inl e) = Some e"
  by (simp_all add: err_of_def)

lemma mv_insert_no_panic: "mv_inv s \<Longrightarrow> snd (mv_insert tx r s) \<noteq> Inl DbPanic"
  using mv_invD(1) [of s tx] by (auto simp: mv_insert_def tx_ok_def Let_def split: option.splits)

lemma mv_delete_no_panic:
  assumes "mv_inv s"
  shows "snd (mv_delete tx key s) \<noteq> Inl DbPanic"
proof (cases "fmlookup (txs s) tx")
  case (Some t)
  show ?thesis using assms Some by (cases rule: mv_delete_cases [where k = key]) simp_all
qed (simp add: mv_delete_untracked [OF assms])

lemma mv_update_no_panic:
  assumes "mv_inv s"
  shows "snd (mv_update tx r s) \<noteq> Inl DbPanic" "snd (mv_upsert tx r s) \<noteq> Inl DbPanic"
  using mv_delete_no_panic [OF assms, of tx "rid r"]
    mv_insert_no_panic [OF mv_delete_inv [OF assms], of tx r tx "rid r"]
  by (auto simp: mv_update_def mv_upsert_def split: prod.splits sum.splits bool.splits)

lemma mv_read_no_panic:
  assumes "mv_inv s"
  shows "snd (mv_read tx key s) \<noteq> Inl DbPanic"
  using mv_read_view [OF assms] by (cases "fmlookup (txs s) tx") (auto simp: mv_read_untracked)

lemma rollback_tx_no_panic:
  assumes "mv_inv s"
  shows "snd (rollback_tx tx s) \<noteq> Inl DbPanic"
  using rollback_tx_frame(2) [OF assms] by (cases "fmlookup (txs s) tx") (auto simp: rollback_tx_def)

lemma commit_tx_no_panic:
  assumes "mv_inv s" "has_room s"
  shows "snd (commit_tx tx s) \<noteq> Inl DbPanic"
  using assms by (cases rule: commit_tx_cases [where u = tx]) auto

lemmas no_panic = mv_insert_no_panic mv_delete_no_panic mv_update_no_panic mv_read_no_panic
  rollback_tx_no_panic commit_tx_no_panic

lemma err_of_Some: "err_of r = Some e \<longleftrightarrow> r = Inl e"
  by (auto simp: err_of_def split: sum.splits)

text \<open>Concrete runs: the stores after a list of operations that had room at every step.\<close>

fun roomy :: "mv_op list \<Rightarrow> mv_store \<Rightarrow> bool" where
  "roomy [] s = True"
| "roomy (op # ops) s = (has_room s \<and> roomy ops (fst (mv_exec op s)))"

lemma mv_reach_run: "mv_reach s0 s \<Longrightarrow> roomy ops s \<Longrightarrow> mv_reach s0 (mv_run ops s)"
  by (induction ops arbitrary: s) (auto simp: mv_run_def intro: mv_reach.step)

lemma mv_run_simps [simp]: "mv_run [] s = s" "mv_run (op # ops) s = mv_run ops (fst (mv_exec op s))"
  by (simp_all add: mv_run_def)

lemma sorted_list_of_fset_finsert:
  "sorted_list_of_fset (finsert x S) = insort x (sorted_list_of_fset (S |-| {|x|}))"
  "sorted_list_of_fset {||} = []"
  by (simp_all add: sorted_list_of_fset.rep_eq sorted_list_of_set_insert_remove)

lemmas run_defs = sorted_list_of_fset_finsert fmdrop_fmupd new_store_def begin_tx_eq new_transaction_def mv_insert_def insert_version_def
  insert_version_raw_def get_begin_timestamp_def insert_to_write_set_def insert_to_read_set_def
  mv_delete_def is_visible_to_def is_begin_visible_def is_end_visible_def is_write_write_conflict_def
  mv_update_def mv_upsert_def mv_read_def newest_visible_def rollback_tx_def rollback_row_def
  commit_tx_def get_timestamp_def build_log_record_def log_versions_def log_tx_def store_state_def
  encode_def commit_row_def commit_versions_def rewritten_for_commit_def has_room_def Let_def
  undisturbing_def undisturbed_def aborted_def ended_by_def versions_def

text \<open>A store with one committed row and two transactions that run concurrently.\<close>

abbreviation (input) key1 :: rowid where "key1 \<equiv> RowID 1 1"
abbreviation (input) row_a :: row where "row_a \<equiv> \<lparr>rid = key1, rdata = [1]\<rparr>"
abbreviation (input) row_b :: row where "row_b \<equiv> \<lparr>rid = key1, rdata = [2]\<rparr>"

definition demo :: mv_store where
  "demo = mv_run [OpBegin, OpInsert 1 row_a, OpCommit 1, OpBegin, OpBegin] (new_store 0 Noop)"

lemma demo_eq:
  "demo = \<lparr>rows = fmupd key1 [\<lparr>rv_begin = Timestamp 1, rv_end = None, rv_row = row_a\<rparr>] fmempty,
     txs = fmupd 3 (new_transaction 3 3) (fmupd 2 (new_transaction 2 2) fmempty),
     tx_ids = 4, clock = 4, log_storage = Noop\<rparr>"
  by (simp add: demo_def run_defs)

lemma demo_reach: "mv_reach (new_store 0 Noop) demo"
  unfolding demo_def
  by (intro mv_reach_run mv_reach.start) (simp add: run_defs)

section \<open>Safety and isolation\<close>

text \<open>
  C11. In every store reachable from an empty one by any interleaving of operations, the store
  invariant holds and no public operation panics: no assertion on transaction states or on the
  range of a timestamp fails, whatever transaction identifiers the operations are called with.
\<close>
theorem mv_store_safe:
  assumes "mv_reach (new_store clk st) s" and "has_room s"
  shows "mv_inv s \<and> snd (mv_exec op s) \<noteq> Some DbPanic"
  using mv_reach_inv [OF assms(1) new_store_inv] assms(2)
  by (cases op) (auto simp: err_of_Some no_panic)

theorem mv_store_safe_witness:
  "mv_inv demo \<and> snd (mv_exec (OpCommit 2) demo) \<noteq> Some DbPanic"
  by (rule mv_store_safe [OF demo_reach]) (simp add: demo_eq has_room_def)

text \<open>
  C1. Repeatable reads: while other transactions begin, read, write, commit and abort and garbage
  is collected, a running transaction stays tracked and every \<open>read\<close> of a row returns what it
  returned before. The run may not abort a transaction that has deleted a version of that row.
\<close>
theorem snapshot_stable:
  assumes "mv_reach (new_store clk st) s" and "fmlookup (txs s) tx = Some t"
    and "undisturbed tx key ops s"
  shows "fmlookup (txs (mv_run ops s)) tx = Some t \<and>
    snd (mv_read tx key (mv_run ops s)) = snd (mv_read tx key s)"
proof -
  have "tracked tx s" using mv_reach_inv [OF assms(1) new_store_inv] assms(2) by (simp add: tracked_def)
  moreover have "undisturbing tx key (ops ! n) (fold (\<lambda>op s. fst (mv_exec op s)) (take n ops) s)"
    if "n < length ops" for n
    using assms(3) that by (simp add: undisturbed_def list_all_iff mv_run_def)
  ultimately show ?thesis using mv.observe_run [of tx s ops key] assms(2) by (simp add: mv_run_def)
qed

theorem snapshot_stable_witness:
  "fmlookup (txs (mv_run [OpUpdate 3 row_b, OpCommit 3, OpBegin, OpGc] demo)) 2 = Some (new_transaction 2 2) \<and>
   snd (mv_read 2 key1 (mv_run [OpUpdate 3 row_b, OpCommit 3, OpBegin, OpGc] demo)) = snd (mv_read 2 key1 demo)"
  by (rule snapshot_stable [OF demo_reach]) (simp_all add: demo_eq run_defs)



section \<open>Writes\<close>

lemma rposition_cong: "(\<And>x. x \<in> set xs \<Longrightarrow> P x = Q x) \<Longrightarrow> rposition P xs = rposition Q xs"
  by (induction xs) auto

lemma rposition_sees:
  assumes "mv_inv s" "fmlookup (txs s) tx = Some t"
  shows "rposition (is_visible_to (txs s) t) (versions s key) =
    rposition (sees (fmdom (txs s)) tx (begin_ts t)) (versions s key)"
  using is_visible_to_sees [OF assms versions_ok [OF assms(1)]] by (rule rposition_cong)

lemma rposition_update:
  assumes "i < length xs" "P y = P (xs ! i)"
  shows "rposition P (xs[i := y]) = rposition P xs"
proof -
  have m: "rposition P zs = rposition (\<lambda>b. b) (map P zs)" for zs by (induction zs) auto
  have "map P (xs[i := y]) = map P xs" using assms by (simp add: map_update list_update_same_conv)
  then show ?thesis by (simp only: m)
qed

lemma versions_Some: "fmlookup (rows s) key = Some vs \<Longrightarrow> versions s key = vs"
  by (simp add: versions_def)

lemma mv_delete_sees:
  assumes inv: "mv_inv s" and t: "fmlookup (txs s) tx = Some t"
  shows "mv_delete tx key s = (case rposition (sees (fmdom (txs s)) tx (begin_ts t)) (versions s key) of
      None \<Rightarrow> (s, Inr False)
    | Some i \<Rightarrow> if rv_end (versions s key ! i) \<noteq> None then (fst (rollback_tx tx s), Inl WriteWriteConflict)
        else (mark_deleted tx key t (versions s key) i s, Inr True))"
  unfolding rposition_sees [OF assms, symmetric]
  by (cases "fmlookup (rows s) key") (auto simp: mv_delete_eq [OF assms] versions_Some versions_def split: option.split)

lemma mark_deleted_own_view:
  assumes inv: "mv_inv s" and t: "fmlookup (txs s) tx = Some t"
    and i: "rposition (sees (fmdom (txs s)) tx (begin_ts t)) (versions s key) = Some i"
  shows "view (mark_deleted tx key t (versions s key) i s) tx (begin_ts t) key = butlast (view s tx (begin_ts t) key)"
proof -
  note r = rposition_SomeD [OF i]
  then have "versions s key \<noteq> []" by auto
  then have vs: "fmlookup (rows s) key = Some (versions s key)"
    by (cases "fmlookup (rows s) key") (simp_all add: versions_def)
  have "tx_id t = tx" using mv_invD(1) [OF inv t] by (simp add: tx_ok_def)
  moreover have "\<not> sees (fmdom (txs s)) tx (begin_ts t) ((versions s key ! i)\<lparr>rv_end := Some (TxID tx)\<rparr>)"
    by (simp add: sees_def)
  ultimately show ?thesis
    using r by (simp add: view_def mark_deleted_frame [OF t vs] filter_update_last map_butlast)
qed

text \<open>
  \<open>delete\<close> by a running transaction, on every branch: without a visible version it reports
  that nothing was deleted and changes nothing; if the newest visible version has been ended by
  another transaction it reports a conflict and the transaction is gone with all the versions it
  wrote; otherwise it succeeds and the transaction no longer sees exactly that version.
\<close>
theorem mv_delete_spec:
  assumes "mv_reach (new_store clk st) s" and "fmlookup (txs s) tx = Some t"
  shows "case rposition (sees (fmdom (txs s)) tx (begin_ts t)) (versions s key) of
      None \<Rightarrow> mv_delete tx key s = (s, Inr False)
    | Some i \<Rightarrow>
        let s' = fst (mv_delete tx key s) in
        if rv_end (versions s key ! i) \<noteq> None
        then snd (mv_delete tx key s) = Inl WriteWriteConflict \<and> fmlookup (txs s') tx = None \<and>
          (\<forall>k. versions s' k = filter (\<lambda>rv. rv_begin rv \<noteq> TxID tx) (versions s k))
        else snd (mv_delete tx key s) = Inr True \<and>
          view s' tx (begin_ts t) key = butlast (view s tx (begin_ts t) key)"
proof -
  note inv = mv_reach_inv [OF assms(1) new_store_inv]
  show ?thesis
    using rollback_tx_frame [OF inv assms(2)] rollback_tx_versions [OF inv assms(2)]
      mark_deleted_own_view [OF inv assms(2)]
    by (auto simp: mv_delete_sees [OF inv assms(2)] Let_def split: option.splits)
qed

lemma demo_sees:
  "rposition (sees (fmdom (txs demo)) 2 (begin_ts (new_transaction 2 2))) (versions demo key1) = Some 0"
  "rposition (sees (fmdom (txs demo)) 3 (begin_ts (new_transaction 3 3))) (versions demo key1) = Some 0"
  "rv_end (versions demo key1 ! 0) = None"
  "fmlookup (txs demo) 2 = Some (new_transaction 2 2)" "fmlookup (txs demo) 3 = Some (new_transaction 3 3)"
  by (simp_all add: demo_eq versions_def sees_def new_transaction_def)

theorem mv_delete_spec_witness:
  "snd (mv_delete 2 key1 demo) = Inr True \<and>
   view (fst (mv_delete 2 key1 demo)) 2 (begin_ts (new_transaction 2 2)) key1 =
     butlast (view demo 2 (begin_ts (new_transaction 2 2)) key1)"
  using mv_delete_spec [OF demo_reach demo_sees(4), of key1] by (simp add: demo_sees Let_def)

text \<open>
  C22. First writer wins: when two running transactions have the same newest version of a row and
  the first deletes it, then the attempt of the second is a write-write conflict that
  ends the second transaction.
\<close>
theorem first_writer_wins:
  assumes "mv_reach (new_store clk st) s" "t1 \<noteq> t2"
    and "fmlookup (txs s) t1 = Some u1" "fmlookup (txs s) t2 = Some u2"
    and "rposition (sees (fmdom (txs s)) t1 (begin_ts u1)) (versions s key) = Some i"
    and "rposition (sees (fmdom (txs s)) t2 (begin_ts u2)) (versions s key) = Some i"
    and "rv_end (versions s key ! i) = None"
    and "s' = fst (mv_delete t1 key s)"
  shows "snd (mv_delete t1 key s) = Inr True \<and> snd (mv_delete t2 key s') = Inl WriteWriteConflict \<and>
    fmlookup (txs (fst (mv_delete t2 key s'))) t2 = None"
proof -
  note inv = mv_reach_inv [OF assms(1) new_store_inv]
  note r = rposition_SomeD [OF assms(5)]
  then have "versions s key \<noteq> []" by auto
  then have vs: "fmlookup (rows s) key = Some (versions s key)"
    by (cases "fmlookup (rows s) key") (simp_all add: versions_def)
  have d: "mv_delete t1 key s = (mark_deleted t1 key u1 (versions s key) i s, Inr True)"
    using assms(5,7) by (simp add: mv_delete_sees [OF inv assms(3)])
  have inv': "mv_inv s'" unfolding assms(8) by (rule mv_delete_inv [OF inv])
  have tid: "tx_id u1 = t1" using mv_invD(1) [OF inv assms(3)] by (simp add: tx_ok_def)
  have in1: "t1 |\<in>| fmdom (txs s)" using assms(3) by (auto simp: fmlookup_dom_iff)
  have s': "fmdom (txs s') = fmdom (txs s)" "fmlookup (txs s') t2 = Some u2"
    "versions s' key = (versions s key)[i := (versions s key ! i)\<lparr>rv_end := Some (TxID t1)\<rparr>]"
    using assms(2,4) by (simp_all add: assms(8) d mark_deleted_frame [OF assms(3) vs] tid)
  have seen: "sees (fmdom (txs s)) t1 (begin_ts u1) (versions s key ! i)"
    "sees (fmdom (txs s)) t2 (begin_ts u2) (versions s key ! i)"
    using r rposition_SomeD [OF assms(6)] by simp_all
  then have "sees (fmdom (txs s)) t2 (begin_ts u2) ((versions s key ! i)\<lparr>rv_end := Some (TxID t1)\<rparr>)"
    using assms(2) in1 by (auto simp: sees_def split: tx_ts_or_id.splits)
  then have "rposition (sees (fmdom (txs s')) t2 (begin_ts u2)) (versions s' key) = Some i"
    using r seen(2) assms(6) by (simp add: s' rposition_update)
  then have "mv_delete t2 key s' = (fst (rollback_tx t2 s'), Inl WriteWriteConflict)"
    using r by (simp add: mv_delete_sees [OF inv' s'(2)] s'(3))
  then show ?thesis using d rollback_tx_frame(1) [OF inv' s'(2)] by simp
qed

theorem first_writer_wins_witness:
  "snd (mv_delete 2 key1 demo) = Inr True \<and>
   snd (mv_delete 3 key1 (fst (mv_delete 2 key1 demo))) = Inl WriteWriteConflict \<and>
   fmlookup (txs (fst (mv_delete 3 key1 (fst (mv_delete 2 key1 demo))))) 3 = None"
  by (rule first_writer_wins [OF demo_reach _ demo_sees(4,5,1,2,3) refl]) simp

lemma new_reader:
  assumes "mv_inv s" "has_room s"
  shows "fmlookup (txs (fst (begin_tx s))) (tx_ids s) = Some (new_transaction (tx_ids s) (clock s))"
    "snd (mv_read (tx_ids s) key (fst (begin_tx s))) = Inr (last_row (view s (tx_ids s) (clock s) key))"
proof -
  show *: "fmlookup (txs (fst (begin_tx s))) (tx_ids s) = Some (new_transaction (tx_ids s) (clock s))"
    by (simp add: begin_tx_eq)
  show "snd (mv_read (tx_ids s) key (fst (begin_tx s))) = Inr (last_row (view s (tx_ids s) (clock s) key))"
    using mv_read_view [OF begin_tx_inv [OF assms] *] begin_tx_view [OF assms(1)]
    by (simp add: new_transaction_def)
qed

text \<open>
  C18. Durability of the view: when no other transaction has committed a change to the row since
  the transaction began, and its commit succeeds, then the next transaction reads exactly what
  the transaction read just before it committed.
\<close>
theorem commit_then_read:
  assumes "mv_reach (new_store clk st) s" "has_room s" "fmlookup (txs s) tx = Some t"
    and "list_all (\<lambda>rv. (case rv_begin rv of Timestamp b \<Rightarrow> b \<le> begin_ts t | TxID _ \<Rightarrow> True) \<and>
           (case rv_end rv of Some (Timestamp e) \<Rightarrow> e \<le> begin_ts t | _ \<Rightarrow> True)) (versions s key)"
    and "commit_tx tx s = (s', Inr ())" and "has_room s'" and "begin_tx s' = (s'', n)"
  shows "snd (mv_read n key s'') = snd (mv_read tx key s)"
proof -
  note inv = mv_reach_inv [OF assms(1) new_store_inv]
  have inv': "mv_inv s'" using commit_tx_inv [OF inv assms(2), of tx] assms(5) by simp
  have b: "begin_ts t < clock s" using mv_invD(1) [OF inv assms(3)] by (simp add: tx_ok_def)
  have c: "txs s' = fmdrop tx (txs s)" "clock s' = clock s + 1" "versions s' key = commit_versions tx (clock s) (versions s key)"
    using inv assms(2) by (cases rule: commit_tx_cases [where u = tx]; use assms(3,5) in auto)+
  have n: "n = tx_ids s'" "s'' = fst (begin_tx s')" using assms(7) by (auto simp: begin_tx_eq)
  have lt: "clock s < clock s'" using has_room_succ(1) [OF assms(2)] by (simp add: c)
  have "sees (fmdom (txs s')) (tx_ids s') (clock s') rv' = sees (fmdom (txs s)) tx (begin_ts t) rv"
    if rv: "rv \<in> set (versions s key)" and
      rv': "rv' = rv\<lparr>rv_begin := (if rv_begin rv = TxID tx then Timestamp (clock s) else rv_begin rv),
        rv_end := (if rv_end rv = Some (TxID tx) then Some (Timestamp (clock s)) else rv_end rv)\<rparr>" for rv rv'
  proof -
    have "(case rv_begin rv of Timestamp b \<Rightarrow> b \<le> begin_ts t | TxID _ \<Rightarrow> True)"
      "(case rv_end rv of Some (Timestamp e) \<Rightarrow> e \<le> begin_ts t | _ \<Rightarrow> True)"
      using assms(4) rv by (auto simp: list_all_iff)
    moreover have "fmlookup (txs s') (tx_ids s') = None" by (rule tx_ids_fresh [OF inv'])
    moreover have "begin_ts t < clock s'" using b lt by (rule less_trans)
    ultimately show ?thesis
      using versions_ok [OF inv rv] b lt c(1) unfolding rv'
      by (auto simp: sees_def ok_defs fmlookup_dom_iff split: tx_ts_or_id.splits option.splits if_splits)
  qed
  then have "map rv_row (filter (sees (fmdom (txs s')) (tx_ids s') (clock s')) (versions s' key)) =
      map rv_row (filter (sees (fmdom (txs s)) tx (begin_ts t)) (versions s key))"
    unfolding c(3) commit_versions_map filter_map by (simp add: comp_def cong: filter_cong)
  then show ?thesis
    unfolding n new_reader(2) [OF inv' assms(6)] mv_read_view [OF inv assms(3)] by (simp add: view_def)
qed

definition demo_upd :: mv_store where
  "demo_upd = mv_run [OpUpdate 2 row_b] demo"

lemma demo_upd_reach: "mv_reach (new_store 0 Noop) demo_upd"
  unfolding demo_upd_def
  by (rule mv_reach_run [OF demo_reach]) (simp add: demo_eq run_defs)

lemma demo_upd_eq:
  "demo_upd = \<lparr>rows = fmupd key1 [\<lparr>rv_begin = Timestamp 1, rv_end = Some (TxID 2), rv_row = row_a\<rparr>,
       \<lparr>rv_begin = TxID 2, rv_end = None, rv_row = row_b\<rparr>] fmempty,
     txs = fmupd 2 (insert_to_write_set key1 (new_transaction 2 2)) (fmupd 3 (new_transaction 3 3) fmempty),
     tx_ids = 4, clock = 4, log_storage = Noop\<rparr>"
  unfolding demo_upd_def demo_eq
  by (auto simp: run_defs fmupd_reorder_neq intro: fmap_ext)

theorem commit_then_read_witness:
  "snd (mv_read 4 key1 (fst (begin_tx (fst (commit_tx 2 demo_upd))))) = snd (mv_read 2 key1 demo_upd)"
  by (rule commit_then_read [OF demo_upd_reach, where t = "insert_to_write_set key1 (new_transaction 2 2)"
        and s' = "fst (commit_tx 2 demo_upd)"])
    (simp_all add: demo_upd_eq run_defs prod_eq_iff)

lemma filter_insert_version_raw_only:
  assumes "filter P vs = []" "P rv"
  shows "filter P (insert_version_raw T vs rv) = [rv]"
proof -
  have "filter P (take p vs) = []" "filter P (drop p vs) = []" for p
    using assms(1) by (auto simp: filter_empty_conv dest: in_set_takeD in_set_dropD)
  then show ?thesis using assms(2) by (simp add: insert_version_raw_def Let_def)
qed

lemma mv_insert_lookup:
  assumes "mv_inv s" "fmlookup (txs s) u = Some t"
  shows "fmlookup (txs (fst (mv_insert u r s))) u = Some (insert_to_write_set (rid r) t)"
  using assms mv_invD(1) [OF assms] by (simp add: mv_insert_def tx_ok_def insert_version_def Let_def)

lemma mv_delete_clears:
  assumes inv: "mv_inv s" and t: "fmlookup (txs s) tx = Some t"
    and "length (view s tx (begin_ts t) key) \<le> 1" and "mv_delete tx key s = (s1, Inr d)"
  shows "view s1 tx (begin_ts t) key = [] \<and> (\<exists>t'. fmlookup (txs s1) tx = Some t' \<and> begin_ts t' = begin_ts t)"
proof (cases "rposition (sees (fmdom (txs s)) tx (begin_ts t)) (versions s key)")
  case None
  then have "s1 = s" using assms(4) by (simp add: mv_delete_sees [OF inv t])
  moreover have "view s tx (begin_ts t) key = []"
    using None by (auto simp: view_def rposition_None_iff filter_empty_conv)
  ultimately show ?thesis using t by simp
next
  case (Some i)
  then have s1: "s1 = mark_deleted tx key t (versions s key) i s"
    using assms(4) by (auto simp: mv_delete_sees [OF inv t] split: if_splits)
  have "butlast (view s tx (begin_ts t) key) = []"
    using assms(3) by (cases "view s tx (begin_ts t) key") auto
  then show ?thesis
    using mark_deleted_own_view [OF inv t Some] by (simp add: s1 mark_deleted_def insert_to_write_set_def)
qed

text \<open>
  A transaction reads its own writes: if it saw at most one version of the row, then after
  its \<open>upsert\<close> succeeds it reads the new row, and sees no other.
\<close>
theorem upsert_then_read:
  assumes "mv_reach (new_store clk st) s" "fmlookup (txs s) tx = Some t"
    and "length (view s tx (begin_ts t) (rid r)) \<le> 1"
    and "mv_upsert tx r s = (s', Inr ())"
  shows "view s' tx (begin_ts t) (rid r) = [r] \<and> snd (mv_read tx (rid r) s') = Inr (Some r)"
proof -
  note inv = mv_reach_inv [OF assms(1) new_store_inv]
  obtain s1 d where d: "mv_delete tx (rid r) s = (s1, Inr d)" and i: "mv_insert tx r s1 = (s', Inr ())"
    using assms(4) by (auto simp: mv_upsert_def split: prod.splits sum.splits)
  have inv1: "mv_inv s1" using mv_delete_inv [OF inv, of tx "rid r"] d by simp
  obtain t' where v: "view s1 tx (begin_ts t) (rid r) = []" and t': "fmlookup (txs s1) tx = Some t'" "begin_ts t' = begin_ts t"
    using mv_delete_clears [OF inv assms(2,3) d] by blast
  have inv': "mv_inv s'" using mv_insert_inv [OF inv1, of tx r] i by simp
  have look: "fmlookup (txs s') tx = Some (insert_to_write_set (rid r) t')"
    using mv_insert_lookup [OF inv1 t'(1), of r] i by simp
  obtain T where "versions s' (rid r) = insert_version_raw T (versions s1 (rid r)) \<lparr>rv_begin = TxID tx, rv_end = None, rv_row = r\<rparr>"
    using mv_insert_versions(2) [OF inv1 t'(1), of r "rid r"] i by auto
  moreover have "fmdom (txs s') = fmdom (txs s1)" using mv_insert_frame(1) [of tx r s1] i by simp
  ultimately have "view s' tx (begin_ts t) (rid r) = [r]"
    using v by (simp add: view_def filter_insert_version_raw_only sees_def)
  then show ?thesis
    using mv_read_view [OF inv' look] t'(2) by (simp add: insert_to_write_set_def last_row_def)
qed

theorem upsert_then_read_witness:
  "view (fst (mv_upsert 2 row_b demo)) 2 2 key1 = [row_b] \<and>
   snd (mv_read 2 key1 (fst (mv_upsert 2 row_b demo))) = Inr (Some row_b)"
proof -
  have "mv_upsert 2 row_b demo = (fst (mv_upsert 2 row_b demo), Inr ())"
    by (simp add: demo_eq run_defs prod_eq_iff)
  moreover have "length (view demo 2 2 key1) \<le> 1"
    by (simp add: demo_eq view_def versions_def)
  ultimately show ?thesis
    using upsert_then_read [OF demo_reach demo_sees(4), of row_b] by (simp add: new_transaction_def)
qed

lemma sees_future_should_stay:
  assumes "version_ok s key rv" "sees (fmdom (txs s)) tx (clock s) rv"
  shows "should_stay (txs s) rv"
  using assms by (auto simp: should_stay_def sees_def ok_defs split: tx_ts_or_id.splits option.splits)

lemma gc_future_view:
  assumes "mv_inv s"
  shows "view (fst (drop_unused_row_versions s)) tx (clock s) key = view s tx (clock s) key"
proof -
  have "filter (\<lambda>rv. should_stay (txs s) rv \<and> sees (fmdom (txs s)) tx (clock s) rv) (versions s key) =
      filter (sees (fmdom (txs s)) tx (clock s)) (versions s key)"
    using sees_future_should_stay [OF versions_ok [OF assms]] by (intro filter_cong) auto
  then show ?thesis by (simp add: view_def drop_unused_row_versions_frame conj_commute)
qed

lemma gc_total:
  "(\<Sum>k\<leftarrow>ks. length (versions s k)) =
   (\<Sum>k\<leftarrow>ks. length (filter (should_stay (txs s)) (versions s k))) + (\<Sum>k\<leftarrow>ks. gc_count (txs s) (fmlookup (rows s) k))"
proof (induction ks)
  case (Cons k ks)
  have "length (versions s k) = length (filter (should_stay (txs s)) (versions s k)) + gc_count (txs s) (fmlookup (rows s) k)"
    using sum_length_filter_compl [of "should_stay (txs s)" "versions s k"]
    by (auto simp: versions_def gc_count_def gc_row_def split: option.split)
  then show ?case using Cons by simp
qed simp

text \<open>
  C23. Garbage collection is invisible: it changes neither what a running transaction reads nor
  what a transaction that begins afterwards reads, and it returns the number of versions it
  removed.
\<close>
theorem gc_invisible:
  assumes "mv_reach (new_store clk st) s" "has_room s" "drop_unused_row_versions s = (s', n)"
  shows "(fmlookup (txs s) tx \<noteq> None \<longrightarrow> snd (mv_read tx key s') = snd (mv_read tx key s)) \<and>
    snd (mv_read (snd (begin_tx s')) key (fst (begin_tx s'))) = snd (mv_read (snd (begin_tx s)) key (fst (begin_tx s))) \<and>
    (\<Sum>k\<leftarrow>scan_row_ids s. length (versions s k)) = (\<Sum>k\<leftarrow>scan_row_ids s. length (versions s' k)) + n"
proof -
  note inv = mv_reach_inv [OF assms(1) new_store_inv]
  have s': "s' = fst (drop_unused_row_versions s)" and n: "n = snd (drop_unused_row_versions s)"
    using assms(3) by simp_all
  have f: "clock s' = clock s" "tx_ids s' = tx_ids s" "txs s' = txs s"
    unfolding s' by (subst drop_unused_row_versions_eq(1), simp)+
  have inv': "mv_inv s'" unfolding s' by (rule drop_unused_row_versions_inv [OF inv])
  have room': "has_room s'" using assms(2) f by (simp add: has_room_def)
  have "snd (mv_read tx key s') = snd (mv_read tx key s)" if "fmlookup (txs s) tx = Some t" for t
    using mv_read_view [OF inv that] mv_read_view [OF inv', of tx t] that
    by (simp add: f drop_unused_row_versions_view [OF inv that, folded s'])
  moreover have "snd (begin_tx s') = tx_ids s" "snd (begin_tx s) = tx_ids s" by (simp_all add: begin_tx_eq f)
  moreover have "snd (mv_read (tx_ids s) key (fst (begin_tx s'))) = snd (mv_read (tx_ids s) key (fst (begin_tx s)))"
    using new_reader(2) [OF inv' room', of key] new_reader(2) [OF inv assms(2), of key] gc_future_view [OF inv, folded s']
    by (simp add: f)
  ultimately show ?thesis
    using gc_total [of s "scan_row_ids s"]
    by (auto simp: n s' drop_unused_row_versions_eq(3) drop_unused_row_versions_frame(2) scan_row_ids_def)
qed

theorem gc_invisible_witness:
  "snd (mv_read 3 key1 (fst (drop_unused_row_versions demo_upd))) = snd (mv_read 3 key1 demo_upd)"
proof -
  have "has_room demo_upd" "fmlookup (txs demo_upd) 3 \<noteq> None" by (simp_all add: demo_upd_eq has_room_def)
  then show ?thesis
    using gc_invisible [OF demo_upd_reach _ surjective_pairing, where tx = 3 and key = key1] by blast
qed

lemma set_log_versions:
  "set (log_versions T tx c vs acc) = set acc \<union> {u. \<exists>rv\<in>set vs. rewritten_for_commit rv tx c = Some u}"
  unfolding log_versions_def
  by (induction vs arbitrary: acc) (auto simp: insert_version_raw_set split: option.splits)

lemma set_build_log_record:
  "set (row_versions (build_log_record s tx c ids)) =
    {u. \<exists>key\<in>set ids. \<exists>rv\<in>set (versions s key). rewritten_for_commit rv tx c = Some u}"
proof -
  have "set (fold (\<lambda>key acc. case fmlookup (rows s) key of None \<Rightarrow> acc | Some vs \<Rightarrow> log_versions (txs s) tx c vs acc) ids acc) =
      set acc \<union> {u. \<exists>key\<in>set ids. \<exists>rv\<in>set (versions s key). rewritten_for_commit rv tx c = Some u}" for acc
  proof (induction ids arbitrary: acc)
    case (Cons key ids)
    then show ?case by (cases "fmlookup (rows s) key") (auto simp: versions_def set_log_versions)
  qed simp
  then show ?thesis by (simp add: build_log_record_def)
qed

lemma rewritten_iff_stamped:
  assumes "version_ok s key rv" "u = (case rewritten_for_commit rv tx (clock s) of Some u \<Rightarrow> u | None \<Rightarrow> rv)"
  shows "rv_begin u = Timestamp (clock s) \<or> rv_end u = Some (Timestamp (clock s)) \<longleftrightarrow>
    rewritten_for_commit rv tx (clock s) = Some u"
  using assms by (auto simp: rewritten_for_commit_def Let_def ok_defs split: if_splits)

lemma rewritten_in_write_set:
  assumes "version_ok s key rv" "fmlookup (txs s) tx = Some t" "rewritten_for_commit rv tx c = Some u"
  shows "key |\<in>| write_set t"
  using assms by (auto simp: rewritten_for_commit_def Let_def ok_defs split: if_splits)

text \<open>
  A commit writes to the log exactly the versions it stamps: when it succeeds, the record
  handed to the log storage holds the versions of the new store that carry the commit timestamp,
  and when the log write fails, the store is unchanged except for the clock and the transaction
  is still running.
\<close>
theorem commit_logs_stamped_versions:
  assumes "mv_reach (new_store clk st) s" "has_room s" "fmlookup (txs s) tx = Some t"
  shows "if log_fails s tx t
    then commit_tx tx s = (s\<lparr>clock := clock s + 1\<rparr>, Inl (Io ''injected log_tx failure''))
    else snd (commit_tx tx s) = Inr () \<and>
      set (row_versions (commit_log s tx t)) =
        {rv. \<exists>key. rv \<in> set (versions (fst (commit_tx tx s)) key) \<and>
           (rv_begin rv = Timestamp (clock s) \<or> rv_end rv = Some (Timestamp (clock s)))}"
proof -
  note inv = mv_reach_inv [OF assms(1) new_store_inv]
  have log: "set (row_versions (commit_log s tx t)) =
      {u. \<exists>key. \<exists>rv\<in>set (versions s key). rewritten_for_commit rv tx (clock s) = Some u}"
    using rewritten_in_write_set [OF versions_ok [OF inv] assms(3)]
    by (fastforce simp: commit_log_def set_build_log_record versions_def sorted_list_of_fset_simps)
  have st: "{rv. \<exists>key. rv \<in> set (commit_versions tx (clock s) (versions s key)) \<and>
      (rv_begin rv = Timestamp (clock s) \<or> rv_end rv = Some (Timestamp (clock s)))} =
      {u. \<exists>key. \<exists>rv\<in>set (versions s key). rewritten_for_commit rv tx (clock s) = Some u}"
  proof -
    define f where "f rv = (case rewritten_for_commit rv tx (clock s) of Some u \<Rightarrow> u | None \<Rightarrow> rv)" for rv
    have 1: "rv_begin (f rv) = Timestamp (clock s) \<or> rv_end (f rv) = Some (Timestamp (clock s)) \<longleftrightarrow>
        rewritten_for_commit rv tx (clock s) = Some (f rv)" if "rv \<in> set (versions s key)" for key rv
      using rewritten_iff_stamped [OF versions_ok [OF inv that]] by (simp add: f_def)
    have 2: "f rv = u" if "rewritten_for_commit rv tx (clock s) = Some u" for rv u
      using that by (simp add: f_def)
    have 3: "set (commit_versions tx (clock s) vs) = f ` set vs" for vs
      by (simp add: commit_versions_def f_def)
    show ?thesis unfolding 3 using 1 2 by blast
  qed
  show ?thesis
    using inv assms(2)
  proof (cases rule: commit_tx_cases [where u = tx])
    case (committed t')
    then show ?thesis unfolding committed(6) log st using assms(3) by simp
  qed (use assms(3) in simp_all)
qed

theorem commit_logs_stamped_versions_witness:
  "snd (commit_tx 2 demo_upd) = Inr () \<and>
   set (row_versions (commit_log demo_upd 2 (insert_to_write_set key1 (new_transaction 2 2)))) =
     {rv. \<exists>key. rv \<in> set (versions (fst (commit_tx 2 demo_upd)) key) \<and>
        (rv_begin rv = Timestamp (clock demo_upd) \<or> rv_end rv = Some (Timestamp (clock demo_upd)))}"
  using commit_logs_stamped_versions [OF demo_upd_reach, of 2 "insert_to_write_set key1 (new_transaction 2 2)"]
  by (simp add: demo_upd_eq has_room_def log_fails_def)

lemma bit_top_masks:
  "bit (0x8000000000000000 :: u64) n \<longleftrightarrow> n = 63" "bit (0x7fffffffffffffff :: u64) n \<longleftrightarrow> n < 63"
proof -
  have m: "(0x8000000000000000 :: u64) = 2 ^ 63" "(0x7fffffffffffffff :: u64) = mask 63" by (simp_all add: mask_eq_exp_minus_1)
  show "bit (0x8000000000000000 :: u64) n \<longleftrightarrow> n = 63" unfolding m by (simp only: bit_exp_iff) auto
  show "bit (0x7fffffffffffffff :: u64) n \<longleftrightarrow> n < 63" unfolding m by (simp only: bit_mask_iff) auto
qed

lemma and_top_bit: "v AND 0x8000000000000000 = 0 \<longleftrightarrow> \<not> bit v 63" for v :: u64
  using and_exp_eq_0_iff_not_bit [of v 63] by simp

lemma top_bit_or:
  fixes ts :: u64
  assumes "ts AND 0x8000000000000000 = 0"
  shows "(0x8000000000000000 OR ts) AND 0x7fffffffffffffff = ts" "(0x8000000000000000 OR ts) AND 0x8000000000000000 \<noteq> 0"
proof -
  show "(0x8000000000000000 OR ts) AND 0x7fffffffffffffff = ts"
  proof (rule bit_word_eqI)
    fix n assume "n < LENGTH(64)"
    then show "bit ((0x8000000000000000 OR ts) AND 0x7fffffffffffffff) n = bit ts n"
      using assms unfolding bit_and_iff bit_or_iff bit_top_masks and_top_bit by (cases "n = 63") auto
  qed
  show "(0x8000000000000000 OR ts) AND 0x8000000000000000 \<noteq> 0"
    by (simp only: and_top_bit bit_or_iff bit_top_masks simp_thms)
qed

lemma top_bit_split:
  fixes v :: u64
  assumes "v AND 0x8000000000000000 \<noteq> 0"
  shows "0x8000000000000000 OR (v AND 0x7fffffffffffffff) = v" "(v AND 0x7fffffffffffffff) AND 0x8000000000000000 = 0"
proof -
  show "0x8000000000000000 OR (v AND 0x7fffffffffffffff) = v"
  proof (rule bit_word_eqI)
    fix n assume "n < LENGTH(64)"
    then show "bit (0x8000000000000000 OR (v AND 0x7fffffffffffffff)) n = bit v n"
      using assms unfolding bit_and_iff bit_or_iff bit_top_masks and_top_bit by (cases "n = 63") auto
  qed
  show "(v AND 0x7fffffffffffffff) AND 0x8000000000000000 = 0"
    by (simp only: and_top_bit bit_and_iff bit_top_masks less_irrefl simp_thms)
qed

text \<open>
  The 64-bit encoding of transaction states is a bijection between the states whose
  timestamp has 63 bits and the values \<open>decode\<close> accepts.
\<close>
theorem state_encoding_roundtrip: "encode st = Inr v \<longleftrightarrow> decode v = Inr st"
proof
  assume e: "encode st = Inr v"
  show "decode v = Inr st"
  proof (cases st)
    case (Committed ts)
    then have ts: "ts AND 0x8000000000000000 = 0" "v = 0x8000000000000000 OR ts"
      using e by (simp_all add: encode_def split: if_splits)
    have v: "v AND 0x8000000000000000 \<noteq> 0" "v AND 0x7fffffffffffffff = ts"
      unfolding ts(2) by (fact top_bit_or [OF ts(1)])+
    have "v \<noteq> 0" "v \<noteq> 1" "v \<noteq> 2" "v \<noteq> 3" using v(1) by auto
    then show ?thesis unfolding decode_def v(2) Committed using v(1) by (simp only: if_False if_True not_False_eq_True)
  qed (use e in \<open>auto simp: encode_def decode_def\<close>)
next
  assume "decode v = Inr st"
  then consider "v = 0" "st = Active" | "v = 1" "st = Preparing" | "v = 2" "st = Aborted" | "v = 3" "st = Terminated"
    | "v AND 0x8000000000000000 \<noteq> 0" "st = Committed (v AND 0x7fffffffffffffff)"
    unfolding decode_def by (simp only: sum.inject sum.distinct split: if_splits) auto
  then show "encode st = Inr v"
  proof cases
    case 5
    then show ?thesis
      by (simp only: encode_def transaction_state.case top_bit_split [OF 5(1)] simp_thms if_True)
  qed (simp_all add: encode_def)
qed



end
