(* ===== verification/MvccCursor.thy ===== *)
theory MvccCursor
  imports MvccProps
begin

text \<open>
  The three cursors of \<open>mvcc/cursor.rs\<close> over the rows of a table: one that takes the list of row
  identifiers up front, one that looks up the next identifier at every step, and one that fetches
  identifiers in buckets. The interface \<open>table_cursor\<close> is what a client of a cursor relies on; all
  three satisfy it, and enumerate the same rows.
\<close>

section \<open>Cursors\<close>

record scan_cursor =
  sc_row_ids :: "rowid list"
  sc_index :: nat
  sc_tx_id :: u64

definition sc_new :: "mv_store \<Rightarrow> u64 \<Rightarrow> u64 \<Rightarrow> scan_cursor" where
  "sc_new db tx tbl = \<lparr>sc_row_ids = scan_row_ids_for_table tbl db, sc_index = 0, sc_tx_id = tx\<rparr>"

definition sc_insert :: "row \<Rightarrow> scan_cursor \<Rightarrow> mv_store \<Rightarrow> mv_store \<times> (db_error + unit)" where
  "sc_insert r c db = mv_insert (sc_tx_id c) r db"

definition sc_current_row_id :: "scan_cursor \<Rightarrow> rowid option" where
  "sc_current_row_id c =
     (if sc_index c \<ge> length (sc_row_ids c) then None else Some (sc_row_ids c ! sc_index c))"

definition sc_current_row :: "scan_cursor \<Rightarrow> mv_store \<Rightarrow> mv_store \<times> (db_error + row option)" where
  "sc_current_row c db =
     (if sc_index c \<ge> length (sc_row_ids c) then (db, Inr None)
      else mv_read (sc_tx_id c) (sc_row_ids c ! sc_index c) db)"

definition sc_forward :: "scan_cursor \<Rightarrow> scan_cursor \<times> bool" where
  "sc_forward c =
     (let c = c\<lparr>sc_index := sc_index c + 1\<rparr> in (c, sc_index c < length (sc_row_ids c)))"

definition sc_is_empty :: "scan_cursor \<Rightarrow> bool" where
  "sc_is_empty c = (sc_index c \<ge> length (sc_row_ids c))"

record lazy_cursor =
  lc_current_pos :: "rowid option"
  lc_prev_pos :: "rowid option"
  lc_table_id :: u64
  lc_tx_id :: u64

definition lc_new :: "mv_store \<Rightarrow> u64 \<Rightarrow> u64 \<Rightarrow> lazy_cursor" where
  "lc_new db tx tbl =
     \<lparr>lc_current_pos = get_next_row_id_for_table tbl 0 db, lc_prev_pos = None, lc_table_id = tbl, lc_tx_id = tx\<rparr>"

definition lc_insert :: "row \<Rightarrow> lazy_cursor \<Rightarrow> mv_store \<Rightarrow> mv_store \<times> (db_error + unit)" where
  "lc_insert r c db = mv_insert (lc_tx_id c) r db"

definition lc_current_row_id :: "lazy_cursor \<Rightarrow> rowid option" where
  "lc_current_row_id c = lc_current_pos c"

definition lc_current_row :: "lazy_cursor \<Rightarrow> mv_store \<Rightarrow> mv_store \<times> (db_error + row option)" where
  "lc_current_row c db = (case lc_current_pos c of
     Some key \<Rightarrow> mv_read (lc_tx_id c) key db
   | None \<Rightarrow> (db, Inr None))"

definition lc_forward :: "mv_store \<Rightarrow> lazy_cursor \<Rightarrow> lazy_cursor \<times> bool" where
  "lc_forward db c =
     (let c = c\<lparr>lc_prev_pos := lc_current_pos c\<rparr>
      in case lc_prev_pos c of
           Some key \<Rightarrow>
             let next_id = row_id key + 1;
                 c = c\<lparr>lc_current_pos := get_next_row_id_for_table (lc_table_id c) next_id db\<rparr>
             in (c, lc_current_pos c \<noteq> None)
         | None \<Rightarrow> (c, False))"

definition lc_is_empty :: "lazy_cursor \<Rightarrow> bool" where
  "lc_is_empty c = (lc_current_pos c = None)"

record bucket_cursor =
  bc_bucket :: "rowid list"
  bc_bucket_size :: u64
  bc_table_id :: u64
  bc_tx_id :: u64
  bc_index :: nat

definition bc_new :: "mv_store \<Rightarrow> u64 \<Rightarrow> u64 \<Rightarrow> u64 \<Rightarrow> bucket_cursor" where
  "bc_new db tx tbl sz =
     \<lparr>bc_bucket = get_row_id_range tbl 0 [] (unat sz) db, bc_bucket_size = sz,
      bc_table_id = tbl, bc_tx_id = tx, bc_index = 0\<rparr>"

definition bc_insert :: "row \<Rightarrow> bucket_cursor \<Rightarrow> mv_store \<Rightarrow> mv_store \<times> (db_error + unit)" where
  "bc_insert r c db = mv_insert (bc_tx_id c) r db"

definition bc_current_row_id :: "bucket_cursor \<Rightarrow> rowid option" where
  "bc_current_row_id c =
     (if bc_index c \<ge> length (bc_bucket c) then None else Some (bc_bucket c ! bc_index c))"

definition bc_current_row :: "bucket_cursor \<Rightarrow> mv_store \<Rightarrow> mv_store \<times> (db_error + row option)" where
  "bc_current_row c db =
     (if bc_index c \<ge> length (bc_bucket c) then (db, Inr None)
      else mv_read (bc_tx_id c) (bc_bucket c ! bc_index c) db)"

definition bc_next_bucket :: "mv_store \<Rightarrow> bucket_cursor \<Rightarrow> bucket_cursor \<times> bool" where
  "bc_next_bucket db c =
     (let last_id = (if bc_bucket c \<noteq> [] then Some (row_id (bc_bucket c ! (length (bc_bucket c) - 1)) + 1) else None);
          c = c\<lparr>bc_bucket := []\<rparr>
      in case last_id of
           Some next_id \<Rightarrow>
             let c = c\<lparr>bc_bucket := get_row_id_range (bc_table_id c) next_id (bc_bucket c) (unat (bc_bucket_size c)) db,
                       bc_index := 0\<rparr>
             in (c, bc_bucket c \<noteq> [])
         | None \<Rightarrow> (c, False))"

definition bc_forward :: "mv_store \<Rightarrow> bucket_cursor \<Rightarrow> bucket_cursor \<times> bool" where
  "bc_forward db c =
     (let c = c\<lparr>bc_index := bc_index c + 1\<rparr>
      in if bc_index c < length (bc_bucket c) then (c, True) else bc_next_bucket db c)"

definition bc_is_empty :: "bucket_cursor \<Rightarrow> bool" where
  "bc_is_empty c = (bc_index c \<ge> length (bc_bucket c))"

section \<open>The interface of a cursor\<close>

text \<open>
  \<open>remaining\<close> is the list of row identifiers the cursor has yet to deliver. \<open>collect\<close> is the loop
  a client runs: take the current identifier, move forward, until the cursor is empty.
\<close>

fun collect :: "('c \<Rightarrow> rowid option) \<Rightarrow> ('c \<Rightarrow> 'c \<times> bool) \<Rightarrow> nat \<Rightarrow> 'c \<Rightarrow> rowid list option" where
  "collect cur fwd 0 c = None"
| "collect cur fwd (Suc n) c = (case cur c of
     None \<Rightarrow> Some []
   | Some key \<Rightarrow> map_option ((#) key) (collect cur fwd n (fst (fwd c))))"

locale table_cursor =
  fixes cur :: "'c \<Rightarrow> rowid option" and fwd :: "'c \<Rightarrow> 'c \<times> bool"
    and ok :: "'c \<Rightarrow> bool" and remaining :: "'c \<Rightarrow> rowid list"
  assumes cur_eq: "ok c \<Longrightarrow> cur c = (case remaining c of [] \<Rightarrow> None | key # _ \<Rightarrow> Some key)"
    and fwd_ok: "ok c \<Longrightarrow> remaining c \<noteq> [] \<Longrightarrow> ok (fst (fwd c))"
    and fwd_remaining: "ok c \<Longrightarrow> remaining c \<noteq> [] \<Longrightarrow> remaining (fst (fwd c)) = tl (remaining c)"
    and fwd_result: "ok c \<Longrightarrow> remaining c \<noteq> [] \<Longrightarrow> snd (fwd c) = (tl (remaining c) \<noteq> [])"
begin

lemma collect_remaining:
  "ok c \<Longrightarrow> length (remaining c) < n \<Longrightarrow> collect cur fwd n c = Some (remaining c)"
proof (induction n arbitrary: c)
  case (Suc n)
  show ?case
  proof (cases "remaining c")
    case (Cons key ks)
    then show ?thesis using Suc fwd_ok [of c] fwd_remaining [of c] by (simp add: cur_eq)
  qed (use Suc in \<open>simp add: cur_eq\<close>)
qed simp

end

section \<open>Ranges of row identifiers\<close>

lemma filter_above_take:
  fixes xs :: "'a::linorder list"
  assumes "sorted_wrt (<) xs" "take n xs \<noteq> []"
  shows "filter ((<) (last (take n xs))) xs = drop n xs"
proof -
  have s: "sorted_wrt (<) (take n xs @ drop n xs)" using assms(1) by simp
  obtain ys y where y: "take n xs = ys @ [y]" using assms(2) by (metis rev_exhaust)
  have "filter ((<) y) (take n xs) = []"
    using s unfolding y by (auto simp: sorted_wrt_append filter_empty_conv)
  moreover have "filter ((<) y) (drop n xs) = drop n xs"
    using s unfolding y by (auto simp: sorted_wrt_append intro!: filter_True)
  moreover have "filter ((<) y) xs = filter ((<) y) (take n xs) @ filter ((<) y) (drop n xs)"
    by (simp flip: filter_append)
  ultimately show ?thesis by (simp add: y)
qed

lemma filter_from_member:
  fixes xs :: "'a::linorder list"
  assumes "sorted_wrt (<) xs" "k \<in> set xs"
  shows "filter ((\<le>) k) xs = k # filter ((<) k) xs"
  using assms
proof (induction xs)
  case (Cons x xs)
  show ?case
  proof (cases "x = k")
    case True
    then have "filter ((\<le>) k) xs = xs" "filter ((<) k) xs = xs"
      using Cons.prems(1) by (auto intro!: filter_True)
    then show ?thesis using True by simp
  next
    case False
    then show ?thesis using Cons by (auto simp: not_le)
  qed
qed simp

lemma filter_above_head:
  fixes xs :: "'a::linorder list"
  assumes "sorted_wrt (<) xs" "filter ((<) k) xs = k' # ks"
  shows "filter ((<) k') xs = ks"
proof -
  have "k' \<in> set (filter ((<) k) xs)" by (simp add: assms(2))
  then have "k < k'" by simp
  then have "filter ((<) k') xs = filter ((<) k') (filter ((<) k) xs)"
    by (auto intro!: filter_cong)
  moreover have "sorted_wrt (<) (k' # ks)" using assms by (metis sorted_wrt_filter)
  ultimately show ?thesis by (auto simp: assms(2) intro!: filter_True)
qed

lemma row_range_sorted: "sorted_wrt (<) (row_range a b s)"
  unfolding row_range_def by (intro sorted_wrt_filter) (simp add: sorted_list_of_fset.rep_eq strict_sorted_iff)

lemma set_row_range: "set (row_range a b s) = {k. k |\<in>| fmdom (rows s) \<and> a \<le> k \<and> k < b}"
  by (auto simp: row_range_def sorted_list_of_fset_simps)

lemma in_table_range:
  "RowID tbl a \<le> k \<Longrightarrow> k < RowID tbl b \<Longrightarrow> table_id k = tbl \<and> sint a \<le> sint (row_id k) \<and> sint (row_id k) < sint b"
  by (cases k) (auto simp: less_eq_rowid_def less_rowid_def)

lemma sint_succ:
  fixes r :: i64
  assumes "sint r < sint (i64_max :: i64)"
  shows "sint (r + 1) = sint r + 1"
proof -
  have "sint (i64_max :: i64) = 2 ^ 63 - 1" by simp
  then have "sint r + 1 < 2 ^ 63" using assms by linarith
  moreover have "- (2 ^ 63) \<le> sint r + 1" using sint_ge [of r] by simp
  ultimately show ?thesis
    by (simp add: sint_word_ariths(1) signed_take_bit_int_eq_self)
qed

lemma row_range_next:
  assumes "k \<in> set (scan_row_ids_for_table tbl s)"
  shows "row_range (RowID tbl (row_id k + 1)) (RowID tbl i64_max) s = filter ((<) k) (scan_row_ids_for_table tbl s)"
proof -
  have k: "table_id k = tbl" "0 \<le> sint (row_id k)" "sint (row_id k) < sint i64_max"
    using assms in_table_range [of tbl 0 k i64_max] by (auto simp: scan_row_ids_for_table_def set_row_range)
  then have "RowID tbl (row_id k + 1) \<le> j \<longleftrightarrow> RowID tbl 0 \<le> j \<and> k < j" for j
    using sint_succ [OF k(3)] by (cases k; cases j) (auto simp: less_eq_rowid_def less_rowid_def)
  then show ?thesis by (auto simp: scan_row_ids_for_table_def row_range_def intro!: filter_cong)
qed

section \<open>The cursors satisfy the interface\<close>

text \<open>The rows a cursor on a table delivers, and the states of the cursors between two calls.\<close>

definition lc_remaining :: "mv_store \<Rightarrow> u64 \<Rightarrow> lazy_cursor \<Rightarrow> rowid list" where
  "lc_remaining db tbl c = (case lc_current_pos c of
     None \<Rightarrow> [] | Some k \<Rightarrow> filter ((\<le>) k) (scan_row_ids_for_table tbl db))"

definition lc_ok :: "mv_store \<Rightarrow> u64 \<Rightarrow> lazy_cursor \<Rightarrow> bool" where
  "lc_ok db tbl c = (lc_table_id c = tbl \<and>
     (\<forall>k. lc_current_pos c = Some k \<longrightarrow> k \<in> set (scan_row_ids_for_table tbl db)))"

definition bc_remaining :: "mv_store \<Rightarrow> u64 \<Rightarrow> bucket_cursor \<Rightarrow> rowid list" where
  "bc_remaining db tbl c = drop (bc_index c) (bc_bucket c) @
     (if bc_bucket c = [] then [] else filter ((<) (last (bc_bucket c))) (scan_row_ids_for_table tbl db))"

definition bc_ok :: "mv_store \<Rightarrow> u64 \<Rightarrow> bucket_cursor \<Rightarrow> bool" where
  "bc_ok db tbl c = (bc_table_id c = tbl \<and> 0 < unat (bc_bucket_size c) \<and>
     (bc_bucket c = [] \<or> bc_index c < length (bc_bucket c)) \<and>
     set (bc_bucket c) \<subseteq> set (scan_row_ids_for_table tbl db))"

lemma scan_sorted: "sorted_wrt (<) (scan_row_ids_for_table tbl db)"
  unfolding scan_row_ids_for_table_def by (rule row_range_sorted)

interpretation sc: table_cursor sc_current_row_id sc_forward "\<lambda>_. True" "\<lambda>c. drop (sc_index c) (sc_row_ids c)"
  by unfold_locales
    (auto simp: sc_current_row_id_def sc_forward_def Let_def drop_Suc tl_drop Cons_nth_drop_Suc [symmetric])

lemma get_next_after:
  assumes "k \<in> set (scan_row_ids_for_table tbl db)"
  shows "get_next_row_id_for_table tbl (row_id k + 1) db =
    (case filter ((<) k) (scan_row_ids_for_table tbl db) of [] \<Rightarrow> None | k' # _ \<Rightarrow> Some k')"
  by (simp add: get_next_row_id_for_table_def row_range_next [OF assms])

interpretation lc: table_cursor lc_current_row_id "lc_forward db" "lc_ok db tbl" "lc_remaining db tbl" for db tbl
proof -
  let ?xs = "scan_row_ids_for_table tbl db"
  have head: "lc_remaining db tbl c = k # filter ((<) k) ?xs" if "lc_ok db tbl c" "lc_current_pos c = Some k" for c k
    using that filter_from_member [OF scan_sorted, of k tbl db] by (simp add: lc_ok_def lc_remaining_def)
  have fwd: "lc_ok db tbl (fst (lc_forward db c)) \<and> lc_remaining db tbl (fst (lc_forward db c)) = filter ((<) k) ?xs \<and>
      snd (lc_forward db c) = (filter ((<) k) ?xs \<noteq> [])" if c: "lc_ok db tbl c" "lc_current_pos c = Some k" for c k
  proof (cases "filter ((<) k) ?xs")
    case Nil
    then show ?thesis using c by (simp add: lc_ok_def lc_remaining_def lc_forward_def get_next_after)
  next
    case (Cons k' ks)
    have "k' \<in> set (filter ((<) k) ?xs)" by (simp add: Cons)
    then have "k' \<in> set ?xs" by simp
    then show ?thesis
      using c Cons filter_from_member [OF scan_sorted, of k' tbl db] filter_above_head [OF scan_sorted Cons]
      by (simp add: lc_ok_def lc_remaining_def lc_forward_def get_next_after)
  qed
  show "table_cursor lc_current_row_id (lc_forward db) (lc_ok db tbl) (lc_remaining db tbl)"
  proof
    fix c assume c: "lc_ok db tbl c"
    show "lc_current_row_id c = (case lc_remaining db tbl c of [] \<Rightarrow> None | k # _ \<Rightarrow> Some k)"
      using head [OF c] by (cases "lc_current_pos c") (simp_all add: lc_current_row_id_def lc_remaining_def)
    assume "lc_remaining db tbl c \<noteq> []"
    then obtain k where k: "lc_current_pos c = Some k"
      by (cases "lc_current_pos c") (auto simp: lc_remaining_def)
    show "lc_ok db tbl (fst (lc_forward db c))" using fwd [OF c k] by simp
    show "lc_remaining db tbl (fst (lc_forward db c)) = tl (lc_remaining db tbl c)"
      using fwd [OF c k] head [OF c k] by simp
    show "snd (lc_forward db c) = (tl (lc_remaining db tbl c) \<noteq> [])"
      using fwd [OF c k] head [OF c k] by simp
  qed
qed

lemma filter_above_later:
  fixes xs :: "'a::linorder list"
  assumes "sorted_wrt (<) xs" "take n (filter ((<) k) xs) \<noteq> []"
  shows "filter ((<) (last (take n (filter ((<) k) xs)))) xs = drop n (filter ((<) k) xs)"
proof -
  let ?F = "filter ((<) k) xs"
  have "last (take n ?F) \<in> set ?F" using assms(2) by (meson in_set_takeD last_in_set)
  then have "k < last (take n ?F)" by simp
  then have "filter ((<) (last (take n ?F))) xs = filter ((<) (last (take n ?F))) ?F"
    by (auto intro!: filter_cong)
  then show ?thesis using filter_above_take [OF sorted_wrt_filter [OF assms(1)] assms(2)] by simp
qed

lemma bc_next_bucket_remaining:
  assumes ok: "bc_table_id c = tbl" "0 < unat (bc_bucket_size c)" "set (bc_bucket c) \<subseteq> set (scan_row_ids_for_table tbl db)"
    and ne: "bc_bucket c \<noteq> []"
  defines "F \<equiv> filter ((<) (last (bc_bucket c))) (scan_row_ids_for_table tbl db)"
  shows "bc_ok db tbl (fst (bc_next_bucket db c))" "bc_remaining db tbl (fst (bc_next_bucket db c)) = F"
    "snd (bc_next_bucket db c) = (F \<noteq> [])"
proof -
  let ?n = "unat (bc_bucket_size c)"
  have "last (bc_bucket c) \<in> set (scan_row_ids_for_table tbl db)" using ok(3) ne last_in_set by blast
  note nxt = row_range_next [OF this]
  have c': "fst (bc_next_bucket db c) = c\<lparr>bc_bucket := take ?n F, bc_index := 0\<rparr>"
    "snd (bc_next_bucket db c) = (take ?n F \<noteq> [])"
    using ne nxt by (simp_all add: bc_next_bucket_def get_row_id_range_def F_def ok(1) last_conv_nth)
  have "set (take ?n F) \<subseteq> set (scan_row_ids_for_table tbl db)"
    by (auto simp: F_def dest: in_set_takeD)
  then show "bc_ok db tbl (fst (bc_next_bucket db c))" using ok by (auto simp: bc_ok_def c')
  show "bc_remaining db tbl (fst (bc_next_bucket db c)) = F"
  proof (cases "take ?n F = []")
    case True
    then show ?thesis using ok(2) by (simp add: bc_remaining_def c')
  next
    case False
    then show ?thesis
      using filter_above_later [OF scan_sorted False [unfolded F_def]] by (simp add: bc_remaining_def c' F_def)
  qed
  show "snd (bc_next_bucket db c) = (F \<noteq> [])" using ok(2) by (auto simp: c')
qed

lemma bc_forward_remaining:
  assumes c: "bc_ok db tbl c" and ne: "bc_bucket c \<noteq> []"
  shows "bc_ok db tbl (fst (bc_forward db c))"
    "bc_remaining db tbl (fst (bc_forward db c)) = tl (bc_remaining db tbl c)"
    "snd (bc_forward db c) = (tl (bc_remaining db tbl c) \<noteq> [])"
proof -
  have i: "bc_index c < length (bc_bucket c)" using c ne by (simp add: bc_ok_def)
  have tl: "tl (bc_remaining db tbl c) = drop (Suc (bc_index c)) (bc_bucket c) @
      filter ((<) (last (bc_bucket c))) (scan_row_ids_for_table tbl db)"
    using i ne by (simp add: bc_remaining_def Cons_nth_drop_Suc [symmetric])
  let ?c = "c\<lparr>bc_index := bc_index c + 1\<rparr>"
  have "bc_table_id ?c = tbl" "0 < unat (bc_bucket_size ?c)" "set (bc_bucket ?c) \<subseteq> set (scan_row_ids_for_table tbl db)" "bc_bucket ?c \<noteq> []"
    using c ne by (simp_all add: bc_ok_def)
  note n = bc_next_bucket_remaining [OF this]
  show "bc_ok db tbl (fst (bc_forward db c))"
    "bc_remaining db tbl (fst (bc_forward db c)) = tl (bc_remaining db tbl c)"
    "snd (bc_forward db c) = (tl (bc_remaining db tbl c) \<noteq> [])"
    using n i c ne unfolding tl by (auto simp: bc_forward_def Let_def bc_ok_def bc_remaining_def)
qed

interpretation bc: table_cursor bc_current_row_id "bc_forward db" "bc_ok db tbl" "bc_remaining db tbl" for db tbl
proof
  fix c assume c: "bc_ok db tbl c"
  show "bc_current_row_id c = (case bc_remaining db tbl c of [] \<Rightarrow> None | k # _ \<Rightarrow> Some k)"
    using c by (auto simp: bc_current_row_id_def bc_remaining_def bc_ok_def Cons_nth_drop_Suc [symmetric])
  assume "bc_remaining db tbl c \<noteq> []"
  then have "bc_bucket c \<noteq> []" by (auto simp: bc_remaining_def)
  note f = bc_forward_remaining [OF c this]
  show "bc_ok db tbl (fst (bc_forward db c))" "bc_remaining db tbl (fst (bc_forward db c)) = tl (bc_remaining db tbl c)"
    "snd (bc_forward db c) = (tl (bc_remaining db tbl c) \<noteq> [])" by (fact f)+
qed

text \<open>
  A table scan lists, in increasing order and once each, exactly the stored rows of the
  table whose row number is at least 0 and below the largest signed 64-bit number.
\<close>
theorem scan_row_ids_for_table_spec:
  "sorted_wrt (<) (scan_row_ids_for_table tbl s) \<and>
   set (scan_row_ids_for_table tbl s) =
     {k. k |\<in>| fmdom (rows s) \<and> table_id k = tbl \<and> 0 \<le> sint (row_id k) \<and> sint (row_id k) < 2 ^ 63 - 1}"
proof -
  have m: "sint (i64_max :: i64) = 2 ^ 63 - 1" by simp
  have "RowID tbl 0 \<le> k \<and> k < RowID tbl i64_max \<longleftrightarrow>
      table_id k = tbl \<and> 0 \<le> sint (row_id k) \<and> sint (row_id k) < sint (i64_max :: i64)" for k
    by (cases k) (auto simp: less_eq_rowid_def less_rowid_def)
  then show ?thesis
    unfolding m [symmetric] using scan_sorted [of tbl s]
    by (simp add: scan_row_ids_for_table_def set_row_range conj_assoc)
qed

text \<open>
  C28. The three cursors deliver the same rows: draining a list cursor, a lazy cursor or a bucket
  cursor of any positive bucket size ends within one step per row plus one, and yields the row
  identifiers of the table scan.
\<close>
theorem cursors_agree:
  assumes "0 < sz" and "length (scan_row_ids_for_table tbl db) < n"
  shows "collect sc_current_row_id sc_forward n (sc_new db tx tbl) = Some (scan_row_ids_for_table tbl db) \<and>
    collect lc_current_row_id (lc_forward db) n (lc_new db tx tbl) = Some (scan_row_ids_for_table tbl db) \<and>
    collect bc_current_row_id (bc_forward db) n (bc_new db tx tbl sz) = Some (scan_row_ids_for_table tbl db)"
proof -
  let ?xs = "scan_row_ids_for_table tbl db"
  have "collect sc_current_row_id sc_forward n (sc_new db tx tbl) = Some ?xs"
    using sc.collect_remaining [of "sc_new db tx tbl" n] assms(2) by (simp add: sc_new_def)
  moreover have pos: "lc_current_pos (lc_new db tx tbl) = (case ?xs of [] \<Rightarrow> None | k # _ \<Rightarrow> Some k)"
    by (simp add: lc_new_def get_next_row_id_for_table_def scan_row_ids_for_table_def)
  have "lc_ok db tbl (lc_new db tx tbl) \<and> lc_remaining db tbl (lc_new db tx tbl) = ?xs"
  proof (cases ?xs)
    case (Cons k ks)
    moreover have "filter ((\<le>) k) (k # ks) = k # ks"
      using scan_sorted [of tbl db] unfolding Cons by (auto intro!: filter_True)
    ultimately show ?thesis using pos by (simp add: lc_ok_def lc_remaining_def lc_new_def)
  qed (use pos in \<open>simp add: lc_ok_def lc_remaining_def lc_new_def\<close>)
  then have "collect lc_current_row_id (lc_forward db) n (lc_new db tx tbl) = Some ?xs"
    using lc.collect_remaining [of db tbl "lc_new db tx tbl" n] assms(2) by simp
  moreover have b: "bc_bucket (bc_new db tx tbl sz) = take (unat sz) ?xs" "bc_index (bc_new db tx tbl sz) = 0"
    "bc_table_id (bc_new db tx tbl sz) = tbl" "bc_bucket_size (bc_new db tx tbl sz) = sz"
    by (simp_all add: bc_new_def get_row_id_range_def scan_row_ids_for_table_def)
  have sz: "0 < unat sz" using assms(1) by (simp add: word_less_nat_alt)
  then have "bc_ok db tbl (bc_new db tx tbl sz)" by (auto simp: bc_ok_def b dest: in_set_takeD)
  moreover have "bc_remaining db tbl (bc_new db tx tbl sz) = ?xs"
    using sz filter_above_take [OF scan_sorted, of "unat sz" tbl db] by (auto simp: bc_remaining_def b)
  ultimately show ?thesis
    using bc.collect_remaining [of db tbl "bc_new db tx tbl sz" n] assms(2) by simp
qed

theorem cursors_agree_witness:
  "collect sc_current_row_id sc_forward 2 (sc_new demo 2 1) = Some (scan_row_ids_for_table 1 demo) \<and>
   collect lc_current_row_id (lc_forward demo) 2 (lc_new demo 2 1) = Some (scan_row_ids_for_table 1 demo) \<and>
   collect bc_current_row_id (bc_forward demo) 2 (bc_new demo 2 1 1) = Some (scan_row_ids_for_table 1 demo)"
  by (rule cursors_agree)
    (simp_all add: scan_row_ids_for_table_def row_range_def demo_eq sorted_list_of_fset_finsert)

end
