(* ===== verification/PageCache.thy ===== *)
theory PageCache
  imports Prelude "HOL-Library.Finite_Map" "HOL-Library.Monad_Syntax"
begin

text \<open>
  The page cache (\<open>storage/page_cache.rs\<close>): \<open>PageHashMap\<close>, a hash map from page numbers to entries
  with one vector per bucket, and \<open>DumbLruPageCache\<close>, whose entries are heap nodes in an intrusive
  doubly-linked list ordered from the most to the least recently used. The heap is explicit: a
  pointer is an address, an entry is allocated, dereferenced and freed. A function of type
  \<open>_ option\<close> returns \<open>None\<close> when the code panics, dereferences a dangling pointer, frees twice, or
  does not return; an error the code reports is a value of \<open>cache_error + _\<close>.
\<close>

section \<open>Data\<close>

type_synonym page_cache_key = nat
type_synonym ptr = nat
type_synonym page_ref = nat

record pc_entry =
  pe_key :: page_cache_key
  pe_page :: page_ref
  pe_prev :: "ptr option"
  pe_next :: "ptr option"

record hash_map_node =
  hn_key :: page_cache_key
  hn_value :: ptr

record page_hash_map =
  buckets :: "hash_map_node list list"
  hm_capacity :: nat
  hm_size :: nat

text \<open>The flags of a page the cache reads or writes, and whether its contents are present.\<close>

record page_state =
  pg_locked :: bool
  pg_dirty :: bool
  pg_loaded :: bool
  pg_contents :: bool

record page_cache =
  pc_capacity :: nat
  pc_map :: page_hash_map
  pc_head :: "ptr option"
  pc_tail :: "ptr option"
  pc_heap :: "(ptr, pc_entry) fmap"
  pc_fresh :: ptr
  pc_pages :: "page_ref \<Rightarrow> page_state"

datatype cache_error =
  InternalError | Locked | Dirty | ActiveRefs | Full | KeyExists | KeyExistsContentMismatch

datatype cache_resize_result = ResizeDone | PendingEvictions

section \<open>The hash map\<close>

definition hm_new :: "nat \<Rightarrow> page_hash_map" where
  "hm_new capacity = \<lparr>buckets = replicate capacity [], hm_capacity = capacity, hm_size = 0\<rparr>"

text \<open>The remainder panics for capacity 0, and so does indexing out of range.\<close>

definition hm_hash :: "page_cache_key \<Rightarrow> page_hash_map \<Rightarrow> nat option" where
  "hm_hash key h = (if hm_capacity h = 0 then None else Some (key mod hm_capacity h))"

definition hm_bucket :: "page_cache_key \<Rightarrow> page_hash_map \<Rightarrow> (nat \<times> hash_map_node list) option" where
  "hm_bucket key h = do { i \<leftarrow> hm_hash key h; b \<leftarrow> slice_get (buckets h) i; Some (i, b) }"

fun bucket_insert :: "page_cache_key \<Rightarrow> ptr \<Rightarrow> hash_map_node list \<Rightarrow> hash_map_node list \<times> ptr option" where
  "bucket_insert key v [] = ([\<lparr>hn_key = key, hn_value = v\<rparr>], None)"
| "bucket_insert key v (n # ns) =
     (if hn_key n = key then (n\<lparr>hn_value := v\<rparr> # ns, Some (hn_value n))
      else let (ns', r) = bucket_insert key v ns in (n # ns', r))"

definition hm_insert :: "page_cache_key \<Rightarrow> ptr \<Rightarrow> page_hash_map \<Rightarrow> (page_hash_map \<times> ptr option) option" where
  "hm_insert key v h = do {
     (i, b) \<leftarrow> hm_bucket key h;
     let (b, r) = bucket_insert key v b;
     Some (h\<lparr>buckets := (buckets h)[i := b], hm_size := (if r = None then hm_size h + 1 else hm_size h)\<rparr>, r) }"

definition hm_contains_key :: "page_cache_key \<Rightarrow> page_hash_map \<Rightarrow> bool option" where
  "hm_contains_key key h = do { (i, b) \<leftarrow> hm_bucket key h; Some (list_ex (\<lambda>n. hn_key n = key) b) }"

fun bucket_get :: "page_cache_key \<Rightarrow> hash_map_node list \<Rightarrow> ptr option" where
  "bucket_get key [] = None"
| "bucket_get key (n # ns) = (if hn_key n = key then Some (hn_value n) else bucket_get key ns)"

definition hm_get :: "page_cache_key \<Rightarrow> page_hash_map \<Rightarrow> ptr option option" where
  "hm_get key h = do { (i, b) \<leftarrow> hm_bucket key h; Some (bucket_get key b) }"

fun bucket_remove :: "page_cache_key \<Rightarrow> hash_map_node list \<Rightarrow> hash_map_node list \<times> ptr option" where
  "bucket_remove key [] = ([], None)"
| "bucket_remove key (n # ns) =
     (if hn_key n = key then (ns, Some (hn_value n))
      else let (ns', r) = bucket_remove key ns in (n # ns', r))"

text \<open>The decrement of \<open>size\<close> panics at 0.\<close>

definition hm_remove :: "page_cache_key \<Rightarrow> page_hash_map \<Rightarrow> (page_hash_map \<times> ptr option) option" where
  "hm_remove key h = do {
     (i, b) \<leftarrow> hm_bucket key h;
     let (b, r) = bucket_remove key b;
     if r = None then Some (h, None)
     else if hm_size h = 0 then None
     else Some (h\<lparr>buckets := (buckets h)[i := b], hm_size := hm_size h - 1\<rparr>, r) }"

definition hm_is_empty :: "page_hash_map \<Rightarrow> bool" where
  "hm_is_empty h = (hm_size h = 0)"

definition hm_len :: "page_hash_map \<Rightarrow> nat" where
  "hm_len h = hm_size h"

definition hm_iter :: "page_hash_map \<Rightarrow> hash_map_node list" where
  "hm_iter h = concat (buckets h)"

fun rehash_loop :: "hash_map_node list \<Rightarrow> page_hash_map \<Rightarrow> page_hash_map option" where
  "rehash_loop [] h = Some h"
| "rehash_loop (n # ns) h = do { (h, _) \<leftarrow> hm_insert (hn_key n) (hn_value n) h; rehash_loop ns h }"

definition hm_rehash :: "nat \<Rightarrow> page_hash_map \<Rightarrow> page_hash_map option" where
  "hm_rehash new_capacity h = rehash_loop (hm_iter h) (hm_new new_capacity)"

section \<open>The list of entries\<close>

definition cache_new :: "nat \<Rightarrow> (page_ref \<Rightarrow> page_state) \<Rightarrow> page_cache option" where
  "cache_new capacity pages =
     (if capacity > 0
      then Some \<lparr>pc_capacity = capacity, pc_map = hm_new capacity, pc_head = None, pc_tail = None,
                 pc_heap = fmempty, pc_fresh = 0, pc_pages = pages\<rparr>
      else None)"

definition deref :: "ptr \<Rightarrow> page_cache \<Rightarrow> pc_entry option" where
  "deref q c = fmlookup (pc_heap c) q"

definition modify :: "ptr \<Rightarrow> (pc_entry \<Rightarrow> pc_entry) \<Rightarrow> page_cache \<Rightarrow> page_cache option" where
  "modify q f c = do { e \<leftarrow> deref q c; Some (c\<lparr>pc_heap := fmupd q (f e) (pc_heap c)\<rparr>) }"

definition free_entry :: "ptr \<Rightarrow> page_cache \<Rightarrow> page_cache option" where
  "free_entry q c = do { e \<leftarrow> deref q c; Some (c\<lparr>pc_heap := fmdrop q (pc_heap c)\<rparr>) }"

definition unlink :: "ptr \<Rightarrow> page_cache \<Rightarrow> page_cache option" where
  "unlink entry c = do {
     e \<leftarrow> deref entry c;
     let next = pe_next e;
     let prev = pe_prev e;
     c \<leftarrow> modify entry (\<lambda>e. e\<lparr>pe_prev := None, pe_next := None\<rparr>) c;
     (case (prev, next) of
        (None, None) \<Rightarrow> Some (c\<lparr>pc_head := None, pc_tail := None\<rparr>)
      | (None, Some n) \<Rightarrow> do {
          c \<leftarrow> modify n (\<lambda>e. e\<lparr>pe_prev := None\<rparr>) c;
          Some (c\<lparr>pc_head := Some n\<rparr>) }
      | (Some q, None) \<Rightarrow> do {
          c \<leftarrow> modify q (\<lambda>e. e\<lparr>pe_next := None\<rparr>) c;
          Some (c\<lparr>pc_tail := Some q\<rparr>) }
      | (Some q, Some n) \<Rightarrow> do {
          c \<leftarrow> modify q (\<lambda>e. e\<lparr>pe_next := Some n\<rparr>) c;
          modify n (\<lambda>e. e\<lparr>pe_prev := Some q\<rparr>) c }) }"

definition touch :: "ptr \<Rightarrow> page_cache \<Rightarrow> page_cache option" where
  "touch entry c = do {
     c \<leftarrow> (case pc_head c of
        Some head \<Rightarrow> do {
          c \<leftarrow> modify entry (\<lambda>e. e\<lparr>pe_next := Some head\<rparr>) c;
          modify head (\<lambda>e. e\<lparr>pe_prev := Some entry\<rparr>) c }
      | None \<Rightarrow> Some c);
     let c = (if pc_tail c = None then c\<lparr>pc_tail := Some entry\<rparr> else c);
     Some (c\<lparr>pc_head := Some entry\<rparr>) }"

definition clean :: "page_ref \<Rightarrow> (page_ref \<Rightarrow> page_state) \<Rightarrow> (page_ref \<Rightarrow> page_state)" where
  "clean pg pages = pages(pg := (pages pg)\<lparr>pg_loaded := False, pg_contents := False\<rparr>)"

definition detach :: "ptr \<Rightarrow> bool \<Rightarrow> page_cache \<Rightarrow> ((cache_error + unit) \<times> page_cache) option" where
  "detach entry clean_page c = do {
     e \<leftarrow> deref entry c;
     (if pg_locked (pc_pages c (pe_page e)) then Some (Inl Locked, c)
      else if pg_dirty (pc_pages c (pe_page e)) then Some (Inl Dirty, c)
      else do {
        let c = (if clean_page then c\<lparr>pc_pages := clean (pe_page e) (pc_pages c)\<rparr> else c);
        c \<leftarrow> unlink entry c;
        Some (Inr (), c) }) }"

section \<open>Operations of the cache\<close>

definition contains_key :: "page_cache_key \<Rightarrow> page_cache \<Rightarrow> bool option" where
  "contains_key key c = hm_contains_key key (pc_map c)"

definition get_ptr :: "page_cache_key \<Rightarrow> page_cache \<Rightarrow> ptr option option" where
  "get_ptr key c = hm_get key (pc_map c)"

definition peek :: "page_cache_key \<Rightarrow> bool \<Rightarrow> page_cache \<Rightarrow> (page_ref option \<times> page_cache) option" where
  "peek key touch_it c = do {
     r \<leftarrow> get_ptr key c;
     (case r of
        None \<Rightarrow> Some (None, c)
      | Some q \<Rightarrow> do {
          e \<leftarrow> deref q c;
          c \<leftarrow> (if touch_it then do { c \<leftarrow> unlink q c; touch q c } else Some c);
          Some (Some (pe_page e), c) }) }"

definition cache_get :: "page_cache_key \<Rightarrow> page_cache \<Rightarrow> (page_ref option \<times> page_cache) option" where
  "cache_get key c = peek key True c"

definition cache_len :: "page_cache \<Rightarrow> nat" where
  "cache_len c = hm_len (pc_map c)"

text \<open>\<open>_delete\<close>; a key that is not cached is no error.\<close>

definition delete_page :: "page_cache_key \<Rightarrow> bool \<Rightarrow> page_cache \<Rightarrow> ((cache_error + unit) \<times> page_cache) option" where
  "delete_page key clean_page c = do {
     present \<leftarrow> contains_key key c;
     (if \<not> present then Some (Inr (), c)
      else do {
        r \<leftarrow> hm_get key (pc_map c);
        q \<leftarrow> r;
        (d, c) \<leftarrow> detach q clean_page c;
        (case d of
           Inl e \<Rightarrow> Some (Inl e, c)
         | Inr _ \<Rightarrow> do {
             (h, r) \<leftarrow> hm_remove key (pc_map c);
             let c = c\<lparr>pc_map := h\<rparr>;
             c \<leftarrow> (case r of Some q \<Rightarrow> free_entry q c | None \<Rightarrow> Some c);
             Some (Inr (), c) }) }) }"

definition cache_delete :: "page_cache_key \<Rightarrow> page_cache \<Rightarrow> ((cache_error + unit) \<times> page_cache) option" where
  "cache_delete key c = delete_page key True c"

text \<open>The \<open>while\<close> loop of \<open>make_room_for\<close>, from the tail towards the head.\<close>

partial_function (option) evict_loop :: "nat \<Rightarrow> ptr option \<Rightarrow> page_cache \<Rightarrow> (nat \<times> page_cache) option" where
  "evict_loop need cur c = (case cur of
     None \<Rightarrow> Some (need, c)
   | Some q \<Rightarrow>
       if need = 0 then Some (need, c)
       else Option.bind (deref q c) (\<lambda>e.
            Option.bind (cache_delete (pe_key e) c) (\<lambda>(r, c).
              evict_loop (case r of Inl _ \<Rightarrow> need | Inr _ \<Rightarrow> need - 1) (pe_prev e) c)))"

definition make_room_for :: "nat \<Rightarrow> page_cache \<Rightarrow> ((cache_error + unit) \<times> page_cache) option" where
  "make_room_for n c =
     (if n > pc_capacity c then Some (Inl Full, c)
      else
        let len = cache_len c;
            available = pc_capacity c - len
        in if n \<le> available \<and> len \<le> pc_capacity c then Some (Inr (), c)
           else (case pc_tail c of
               None \<Rightarrow> Some (Inl InternalError, c)
             | Some tail \<Rightarrow>
                 let need_to_evict = (n - available) + (len - pc_capacity c)
                 in do {
                      (need, c) \<leftarrow> evict_loop need_to_evict (Some tail) c;
                      Some (if need > 0 then Inl Full else Inr (), c) }))"

text \<open>\<open>_insert\<close>; \<open>Box::new\<close> allocates an address that was never used before.\<close>

definition insert_page ::
  "page_cache_key \<Rightarrow> page_ref \<Rightarrow> bool \<Rightarrow> page_cache \<Rightarrow> ((cache_error + unit) \<times> page_cache) option" where
  "insert_page key value ignore_exists c = do {
     (existing, c) \<leftarrow> (if ignore_exists then Some (None, c) else cache_get key c);
     (case existing of
        Some pg \<Rightarrow> Some (Inl (if value \<noteq> pg then KeyExistsContentMismatch else KeyExists), c)
      | None \<Rightarrow> do {
          (r, c) \<leftarrow> make_room_for 1 c;
          (case r of
             Inl e \<Rightarrow> Some (Inl e, c)
           | Inr _ \<Rightarrow> do {
               let q = pc_fresh c;
               let c = c\<lparr>pc_heap := fmupd q \<lparr>pe_key = key, pe_page = value, pe_prev = None, pe_next = None\<rparr> (pc_heap c),
                         pc_fresh := q + 1\<rparr>;
               c \<leftarrow> touch q c;
               (h, _) \<leftarrow> hm_insert key q (pc_map c);
               Some (Inr (), c\<lparr>pc_map := h\<rparr>) }) }) }"

definition cache_insert :: "page_cache_key \<Rightarrow> page_ref \<Rightarrow> page_cache \<Rightarrow> ((cache_error + unit) \<times> page_cache) option" where
  "cache_insert key value c = insert_page key value False c"

definition insert_ignore_existing ::
  "page_cache_key \<Rightarrow> page_ref \<Rightarrow> page_cache \<Rightarrow> ((cache_error + unit) \<times> page_cache) option" where
  "insert_ignore_existing key value c = insert_page key value True c"

definition cache_resize :: "nat \<Rightarrow> page_cache \<Rightarrow> (cache_resize_result \<times> page_cache) option" where
  "cache_resize capacity c = do {
     h \<leftarrow> hm_rehash capacity (pc_map c);
     let c = c\<lparr>pc_map := h, pc_capacity := capacity\<rparr>;
     (r, c) \<leftarrow> make_room_for 0 c;
     Some (case r of Inr _ \<Rightarrow> ResizeDone | Inl _ \<Rightarrow> PendingEvictions, c) }"

partial_function (option) clear_loop :: "ptr option \<Rightarrow> page_cache \<Rightarrow> ((cache_error + unit) \<times> page_cache) option" where
  "clear_loop cur c = (case cur of
     None \<Rightarrow> Some (Inr (), c)
   | Some q \<Rightarrow>
       Option.bind (deref q c) (\<lambda>e.
       Option.bind (hm_remove (pe_key e) (pc_map c)) (\<lambda>(h, _).
       Option.bind (detach q True (c\<lparr>pc_map := h\<rparr>)) (\<lambda>(r, c).
         case r of
           Inl err \<Rightarrow> Some (Inl err, c)
         | Inr _ \<Rightarrow>
             if pg_dirty (pc_pages c (pe_page e)) then None
             else Option.bind (free_entry q c) (\<lambda>c. clear_loop (pe_next e) c)))))"

definition cache_clear :: "page_cache \<Rightarrow> ((cache_error + unit) \<times> page_cache) option" where
  "cache_clear c = do {
     (r, c) \<leftarrow> clear_loop (pc_head c) c;
     (case r of
        Inl e \<Rightarrow> Some (Inl e, c)
      | Inr _ \<Rightarrow>
          let c = c\<lparr>pc_head := None, pc_tail := None\<rparr>
          in if hm_is_empty (pc_map c) then Some (Inr (), c) else None) }"

fun unset_dirty_loop :: "hash_map_node list \<Rightarrow> page_cache \<Rightarrow> page_cache option" where
  "unset_dirty_loop [] c = Some c"
| "unset_dirty_loop (n # ns) c = do {
     e \<leftarrow> deref (hn_value n) c;
     unset_dirty_loop ns (c\<lparr>pc_pages := (pc_pages c)(pe_page e := (pc_pages c (pe_page e))\<lparr>pg_dirty := False\<rparr>)\<rparr>) }"

definition unset_dirty_all_pages :: "page_cache \<Rightarrow> page_cache option" where
  "unset_dirty_all_pages c = unset_dirty_loop (hm_iter (pc_map c)) c"

partial_function (option) drop_loop :: "ptr option \<Rightarrow> page_cache \<Rightarrow> page_cache option" where
  "drop_loop cur c = (case cur of
     None \<Rightarrow> Some c
   | Some q \<Rightarrow> Option.bind (deref q c) (\<lambda>e. Option.bind (free_entry q c) (\<lambda>c. drop_loop (pe_next e) c)))"

definition cache_drop :: "page_cache \<Rightarrow> page_cache option" where
  "cache_drop c = drop_loop (pc_head c) c"

end
