(* ===== verification/PageCacheInv.thy ===== *)
theory PageCacheInv
  imports PageCache
begin

text \<open>
  The hash map refines a finite map (interface \<open>page_index\<close>, interpreted on \<open>PageHashMap\<close>), and the
  linked list of the cache refines the list of its entries; every operation of the cache keeps
  the two in agreement.
\<close>

section \<open>The interface of the key index\<close>

text \<open>
  What the cache relies on: lookup, insertion and removal never panic and act as on a finite map,
  and the length is the number of keys.
\<close>

locale page_index =
  fixes ok :: "'m \<Rightarrow> bool" and lookup :: "'m \<Rightarrow> 'k \<Rightarrow> 'v option"
    and get :: "'k \<Rightarrow> 'm \<Rightarrow> 'v option option" and contains :: "'k \<Rightarrow> 'm \<Rightarrow> bool option"
    and ins :: "'k \<Rightarrow> 'v \<Rightarrow> 'm \<Rightarrow> ('m \<times> 'v option) option" and rem :: "'k \<Rightarrow> 'm \<Rightarrow> ('m \<times> 'v option) option"
    and len :: "'m \<Rightarrow> nat" and iter :: "'m \<Rightarrow> ('k \<times> 'v) list"
  assumes get_eq: "ok m \<Longrightarrow> get k m = Some (lookup m k)"
    and contains_eq: "ok m \<Longrightarrow> contains k m = Some (lookup m k \<noteq> None)"
    and ins_ex: "ok m \<Longrightarrow> \<exists>m'. ins k v m = Some (m', lookup m k) \<and> ok m' \<and> lookup m' = (lookup m)(k \<mapsto> v)"
    and rem_ex: "ok m \<Longrightarrow> \<exists>m'. rem k m = Some (m', lookup m k) \<and> ok m' \<and> lookup m' = (lookup m)(k := None)"
    and len_eq: "ok m \<Longrightarrow> finite (dom (lookup m)) \<and> len m = card (dom (lookup m))"
    and iter_eq: "ok m \<Longrightarrow> distinct (map fst (iter m)) \<and> map_of (iter m) = lookup m"
begin

text \<open>The index lists the elements of \<open>ps\<close> under their keys.\<close>

definition indexes :: "'m \<Rightarrow> ('v \<Rightarrow> 'k) \<Rightarrow> 'v list \<Rightarrow> bool" where
  "indexes m key ps \<longleftrightarrow> ok m \<and> (\<forall>k p. lookup m k = Some p \<longleftrightarrow> p \<in> set ps \<and> key p = k)"

lemma indexes_inj: "indexes m key ps \<Longrightarrow> p \<in> set ps \<Longrightarrow> q \<in> set ps \<Longrightarrow> key p = key q \<Longrightarrow> p = q"
  unfolding indexes_def by (metis option.inject)

lemma indexes_len:
  assumes "indexes m key ps" "distinct ps"
  shows "len m = length ps"
proof -
  have "dom (lookup m) = key ` set ps" using assms(1) by (auto simp: indexes_def)
  moreover have "inj_on key (set ps)" using indexes_inj [OF assms(1)] by (auto intro: inj_onI)
  moreover have "ok m" using assms(1) by (simp add: indexes_def)
  ultimately show ?thesis using assms(2) len_eq [of m] by (simp add: card_image distinct_card)
qed

lemma indexes_None: "indexes m key ps \<Longrightarrow> lookup m k = None \<longleftrightarrow> k \<notin> key ` set ps"
proof -
  assume i: "indexes m key ps"
  have "lookup m k \<noteq> None \<longleftrightarrow> k \<in> key ` set ps" using i by (auto simp: indexes_def)
  then show ?thesis by blast
qed

lemma indexes_ins:
  assumes "indexes m key ps" "k \<notin> key ` set ps" "key p = k"
  shows "\<exists>m'. ins k p m = Some (m', None) \<and> indexes m' key (p # ps)"
proof -
  obtain m' where m': "ins k p m = Some (m', lookup m k)" "ok m'" "lookup m' = (lookup m)(k \<mapsto> p)"
    using ins_ex [of m k p] assms(1) by (auto simp: indexes_def)
  have "lookup m k = None" using indexes_None [OF assms(1)] assms(2) by simp
  moreover have "indexes m' key (p # ps)"
    using assms m' unfolding indexes_def by (auto simp: image_iff)
  ultimately show ?thesis using m' by simp
qed

lemma indexes_rem:
  assumes "indexes m key (xs @ p # ys)" "distinct (xs @ p # ys)"
  shows "\<exists>m'. rem (key p) m = Some (m', Some p) \<and> indexes m' key (xs @ ys)"
proof -
  obtain m' where m': "rem (key p) m = Some (m', lookup m (key p))" "ok m'" "lookup m' = (lookup m)(key p := None)"
    using rem_ex [of m "key p"] assms(1) by (auto simp: indexes_def)
  have "lookup m (key p) = Some p" using assms(1) by (simp add: indexes_def)
  moreover have "key q \<noteq> key p" if "q \<in> set (xs @ ys)" for q
    using indexes_inj [OF assms(1), of p q] that assms(2) by auto
  then have "indexes m' key (xs @ ys)"
    using assms(1) m' by (auto simp: indexes_def)
  ultimately show ?thesis using m' by simp
qed

lemma indexes_cong:
  "indexes m key ps \<Longrightarrow> set qs = set ps \<Longrightarrow> (\<And>p. p \<in> set ps \<Longrightarrow> key' p = key p) \<Longrightarrow> indexes m key' qs"
  unfolding indexes_def by (metis)

end

section \<open>The hash map satisfies the interface\<close>

definition hm_ok :: "page_hash_map \<Rightarrow> bool" where
  "hm_ok h \<longleftrightarrow> hm_capacity h > 0 \<and> length (buckets h) = hm_capacity h \<and>
     (\<forall>i<hm_capacity h. distinct (map hn_key (buckets h ! i)) \<and> (\<forall>n\<in>set (buckets h ! i). hn_key n mod hm_capacity h = i)) \<and>
     hm_size h = length (concat (buckets h))"

definition hm_lookup :: "page_hash_map \<Rightarrow> page_cache_key \<Rightarrow> ptr option" where
  "hm_lookup h key = bucket_get key (buckets h ! (key mod hm_capacity h))"

definition hm_pairs :: "page_hash_map \<Rightarrow> (page_cache_key \<times> ptr) list" where
  "hm_pairs h = map (\<lambda>n. (hn_key n, hn_value n)) (hm_iter h)"

lemma bucket_get_map_of: "bucket_get k b = map_of (map (\<lambda>n. (hn_key n, hn_value n)) b) k"
  by (induction b) auto

lemma bucket_get_None: "bucket_get k b = None \<longleftrightarrow> k \<notin> hn_key ` set b"
  by (induction b) auto

lemma bucket_insert_props:
  "bucket_insert k v b = (b', r) \<Longrightarrow>
   r = bucket_get k b \<and> (\<forall>j. bucket_get j b' = (if j = k then Some v else bucket_get j b)) \<and>
   hn_key ` set b' = insert k (hn_key ` set b) \<and> (distinct (map hn_key b) \<longrightarrow> distinct (map hn_key b')) \<and>
   length b' = (if r = None then length b + 1 else length b)"
proof (induction b arbitrary: b' r)
  case (Cons n b)
  show ?case
  proof (cases "hn_key n = k")
    case True
    then show ?thesis using Cons.prems by auto
  next
    case False
    obtain c r' where c: "bucket_insert k v b = (c, r')" by (cases "bucket_insert k v b")
    then have "b' = n # c" "r = r'" using Cons.prems False by auto
    moreover have "hn_key n \<in> hn_key ` set c \<longleftrightarrow> hn_key n \<in> hn_key ` set b"
      using Cons.IH [OF c] False by auto
    ultimately show ?thesis using Cons.IH [OF c] False by (simp add: insert_commute)
  qed
qed auto

lemma bucket_remove_props:
  "bucket_remove k b = (b', r) \<Longrightarrow> distinct (map hn_key b) \<Longrightarrow>
   r = bucket_get k b \<and> (\<forall>j. bucket_get j b' = (if j = k then None else bucket_get j b)) \<and>
   set b' \<subseteq> set b \<and> distinct (map hn_key b') \<and>
   (if r = None then b' = b else length b = length b' + 1)"
proof (induction b arbitrary: b' r)
  case (Cons n b)
  show ?case
  proof (cases "hn_key n = k")
    case True
    then have "bucket_get k b = None" using Cons.prems by (simp add: bucket_get_None)
    then show ?thesis using True Cons.prems by auto
  next
    case False
    obtain c r' where c: "bucket_remove k b = (c, r')" by (cases "bucket_remove k b")
    then have "b' = n # c" "r = r'" using Cons.prems False by auto
    moreover have "hn_key n \<notin> hn_key ` set c"
      using Cons.IH [OF c] Cons.prems by auto
    ultimately show ?thesis using Cons.IH [OF c] Cons.prems False by (simp add: subset_insertI2)
  qed
qed simp

lemma concat_update_length:
  "i < length bs \<Longrightarrow> length (concat (bs[i := b])) + length (bs ! i) = length (concat bs) + length b"
  by (induction bs arbitrary: i) (auto simp: nth_Cons' split: nat.splits)

lemma concat_buckets:
  assumes "\<forall>i<length bs. distinct (map hn_key (bs ! i)) \<and> (\<forall>n\<in>set (bs ! i). f (hn_key n) = i)"
  shows "distinct (map hn_key (concat bs))"
    and "f k < length bs \<Longrightarrow> bucket_get k (concat bs) = bucket_get k (bs ! f k)"
proof -
  have "distinct (map hn_key (concat bs)) \<and> (\<forall>n\<in>set (concat bs). f (hn_key n) < length bs) \<and>
      bucket_get k (concat bs) = (if f k < length bs then bucket_get k (bs ! f k) else None)"
    using assms
  proof (induction bs rule: rev_induct)
    case (snoc b bs)
    have pre: "\<forall>i<length bs. distinct (map hn_key (bs ! i)) \<and> (\<forall>n\<in>set (bs ! i). f (hn_key n) = i)"
      using snoc.prems by (auto simp: nth_append dest: spec [where x = "_::nat"] intro: less_SucI)
    have b: "distinct (map hn_key b)" "\<forall>n\<in>set b. f (hn_key n) = length bs"
      using snoc.prems [rule_format, of "length bs"] by simp_all
    note IH = snoc.IH [OF pre]
    have g: "bucket_get k (xs @ ys) = (case bucket_get k xs of None \<Rightarrow> bucket_get k ys | Some v \<Rightarrow> Some v)" for xs ys
      by (induction xs) auto
    have kb: "bucket_get k b = None" if "f k \<noteq> length bs" using that b(2) by (auto simp: bucket_get_None)
    have "hn_key ` set (concat bs) \<inter> hn_key ` set b = {}" using IH b(2) by fastforce
    then have "distinct (map hn_key (concat (bs @ [b])))" using IH b(1) by simp
    moreover have "\<forall>n\<in>set (concat (bs @ [b])). f (hn_key n) < length (bs @ [b])"
      using IH b(2) by (auto simp: less_Suc_eq)
    moreover have "bucket_get k (concat (bs @ [b])) =
        (if f k < length (bs @ [b]) then bucket_get k ((bs @ [b]) ! f k) else None)"
      using IH kb by (auto simp: g nth_append less_Suc_eq split: option.splits)
    ultimately show ?case by blast
  qed simp
  then show "distinct (map hn_key (concat bs))"
    "f k < length bs \<Longrightarrow> bucket_get k (concat bs) = bucket_get k (bs ! f k)" by simp_all
qed

lemma hm_ok_bucket:
  assumes "hm_ok h"
  shows "hm_bucket k h = Some (k mod hm_capacity h, buckets h ! (k mod hm_capacity h))"
    "k mod hm_capacity h < length (buckets h)"
  using assms by (auto simp: hm_bucket_def hm_hash_def hm_ok_def slice_get_in)

lemma hm_ok_update:
  assumes "hm_ok h" "distinct (map hn_key b)" "\<forall>n\<in>set b. hn_key n mod hm_capacity h = k mod hm_capacity h"
    and "sz + length (buckets h ! (k mod hm_capacity h)) = hm_size h + length b"
  shows "hm_ok (h\<lparr>buckets := (buckets h)[k mod hm_capacity h := b], hm_size := sz\<rparr>)"
  using assms hm_ok_bucket(2) [OF assms(1), of k] concat_update_length [of "k mod hm_capacity h" "buckets h" b]
  by (auto simp: hm_ok_def nth_list_update)

lemma hm_lookup_update:
  assumes "hm_ok h" "\<forall>j. bucket_get j b = (if j = k then x else bucket_get j (buckets h ! (k mod hm_capacity h)))"
  shows "hm_lookup (h\<lparr>buckets := (buckets h)[k mod hm_capacity h := b], hm_size := sz\<rparr>) = (hm_lookup h)(k := x)"
proof
  fix j
  show "hm_lookup (h\<lparr>buckets := (buckets h)[k mod hm_capacity h := b], hm_size := sz\<rparr>) j = ((hm_lookup h)(k := x)) j"
    using assms hm_ok_bucket(2) [OF assms(1)] by (auto simp: hm_lookup_def nth_list_update)
qed

lemma hm_insert_ok:
  assumes ok: "hm_ok h"
  shows "\<exists>h'. hm_insert k v h = Some (h', hm_lookup h k) \<and> hm_ok h' \<and> hm_lookup h' = (hm_lookup h)(k \<mapsto> v)"
proof -
  let ?i = "k mod hm_capacity h"
  let ?b = "buckets h ! ?i"
  obtain b' r where b: "bucket_insert k v ?b = (b', r)" by (cases "bucket_insert k v ?b")
  note i = hm_ok_bucket [OF ok, of k]
  note pr = bucket_insert_props [OF b]
  have old: "distinct (map hn_key ?b)" "\<forall>n\<in>set ?b. hn_key n mod hm_capacity h = ?i"
    using ok i(2) by (auto simp: hm_ok_def)
  have "hn_key n \<in> insert k (hn_key ` set ?b)" if "n \<in> set b'" for n
    using pr that by blast
  then have new: "\<forall>n\<in>set b'. hn_key n mod hm_capacity h = ?i" using old(2) by fastforce
  have "hm_ok (h\<lparr>buckets := (buckets h)[?i := b'], hm_size := (if r = None then hm_size h + 1 else hm_size h)\<rparr>)"
    using pr old(1) new by (intro hm_ok_update [OF ok]) auto
  moreover have "hm_lookup (h\<lparr>buckets := (buckets h)[?i := b'], hm_size := (if r = None then hm_size h + 1 else hm_size h)\<rparr>) =
      (hm_lookup h)(k \<mapsto> v)"
    using pr by (intro hm_lookup_update [OF ok]) simp
  ultimately show ?thesis using b i(1) pr by (simp add: hm_insert_def hm_lookup_def)
qed

lemma hm_remove_ok:
  assumes ok: "hm_ok h"
  shows "\<exists>h'. hm_remove k h = Some (h', hm_lookup h k) \<and> hm_ok h' \<and> hm_lookup h' = (hm_lookup h)(k := None)"
proof -
  let ?i = "k mod hm_capacity h"
  let ?b = "buckets h ! ?i"
  obtain b' r where b: "bucket_remove k ?b = (b', r)" by (cases "bucket_remove k ?b")
  note i = hm_ok_bucket [OF ok, of k]
  have old: "distinct (map hn_key ?b)" "\<forall>n\<in>set ?b. hn_key n mod hm_capacity h = ?i"
    using ok i(2) by (auto simp: hm_ok_def)
  note pr = bucket_remove_props [OF b old(1)]
  show ?thesis
  proof (cases r)
    case None
    then have "hm_lookup h k = None" using pr by (simp add: hm_lookup_def)
    then have "(hm_lookup h)(k := None) = hm_lookup h" by (metis fun_upd_triv)
    then show ?thesis using None b i(1) ok \<open>hm_lookup h k = None\<close> by (simp add: hm_remove_def)
  next
    case (Some v)
    then have len: "length ?b = length b' + 1" using pr by simp
    moreover have "length ?b \<le> hm_size h"
      using ok i(2) by (auto simp: hm_ok_def length_concat intro: member_le_sum_list)
    ultimately have sz: "hm_size h \<noteq> 0" "hm_size h - 1 + length ?b = hm_size h + length b'" by simp_all
    have "\<forall>n\<in>set b'. hn_key n mod hm_capacity h = ?i" using pr old(2) by blast
    then have "hm_ok (h\<lparr>buckets := (buckets h)[?i := b'], hm_size := hm_size h - 1\<rparr>)"
      using pr sz(2) by (intro hm_ok_update [OF ok]) auto
    moreover have "hm_lookup (h\<lparr>buckets := (buckets h)[?i := b'], hm_size := hm_size h - 1\<rparr>) = (hm_lookup h)(k := None)"
      using pr by (intro hm_lookup_update [OF ok]) simp
    ultimately show ?thesis using Some b i(1) pr sz(1) by (simp add: hm_remove_def hm_lookup_def)
  qed
qed

lemma hm_pairs_props:
  assumes ok: "hm_ok h"
  shows "distinct (map fst (hm_pairs h))" "map_of (hm_pairs h) = hm_lookup h" "length (hm_pairs h) = hm_size h"
proof -
  have bs: "\<forall>i<length (buckets h). distinct (map hn_key (buckets h ! i)) \<and>
      (\<forall>n\<in>set (buckets h ! i). (\<lambda>k. k mod hm_capacity h) (hn_key n) = i)"
    using ok by (simp add: hm_ok_def)
  show "distinct (map fst (hm_pairs h))"
    using concat_buckets(1) [OF bs] by (simp add: hm_pairs_def hm_iter_def comp_def)
  show "map_of (hm_pairs h) = hm_lookup h"
    using concat_buckets(2) [OF bs] hm_ok_bucket(2) [OF ok]
    by (auto simp: fun_eq_iff hm_pairs_def hm_iter_def hm_lookup_def bucket_get_map_of)
  show "length (hm_pairs h) = hm_size h" using ok by (simp add: hm_pairs_def hm_iter_def hm_ok_def)
qed

interpretation hm: page_index hm_ok hm_lookup hm_get hm_contains_key hm_insert hm_remove hm_len hm_pairs
proof
  fix h k assume ok: "hm_ok h"
  show "hm_get k h = Some (hm_lookup h k)" using hm_ok_bucket(1) [OF ok] by (simp add: hm_get_def hm_lookup_def)
  show "hm_contains_key k h = Some (hm_lookup h k \<noteq> None)"
    using hm_ok_bucket(1) [OF ok] by (auto simp: hm_contains_key_def hm_lookup_def bucket_get_None list_ex_iff)
  show "\<exists>h'. hm_insert k v h = Some (h', hm_lookup h k) \<and> hm_ok h' \<and> hm_lookup h' = (hm_lookup h)(k \<mapsto> v)" for v
    by (rule hm_insert_ok [OF ok])
  show "\<exists>h'. hm_remove k h = Some (h', hm_lookup h k) \<and> hm_ok h' \<and> hm_lookup h' = (hm_lookup h)(k := None)"
    by (rule hm_remove_ok [OF ok])
  note pr = hm_pairs_props [OF ok]
  show "distinct (map fst (hm_pairs h)) \<and> map_of (hm_pairs h) = hm_lookup h" using pr by simp
  have "dom (hm_lookup h) = set (map fst (hm_pairs h))" using pr(2) dom_map_of_conv_image_fst [of "hm_pairs h"] by simp
  then show "finite (dom (hm_lookup h)) \<and> hm_len h = card (dom (hm_lookup h))"
    using pr distinct_card [OF pr(1)] by (simp add: hm_len_def)
qed

end
