(* ===== verification/PageCacheLru.thy ===== *)
theory PageCacheLru
  imports PageCacheInv
begin

text \<open>
  The linked list of the cache. \<open>dlist\<close> is the shape of a doubly-linked segment on the heap;
  \<open>unlink\<close> and \<open>touch\<close> are the removal and the insertion at the front of a list of pointers, and
  keep the keys and pages of all entries. An abstract LRU cache, a list of keys and pages with
  the most recently used first, is the specification the operations refine.
\<close>

section \<open>Doubly-linked lists on the heap\<close>

definition first_of :: "ptr list \<Rightarrow> ptr option \<Rightarrow> ptr option" where
  "first_of ps d = (case ps of [] \<Rightarrow> d | q # _ \<Rightarrow> Some q)"

definition last_of :: "ptr list \<Rightarrow> ptr option \<Rightarrow> ptr option" where
  "last_of ps d = (if ps = [] then d else Some (last ps))"

lemma first_of_simps [simp]: "first_of [] d = d" "first_of (q # ps) d = Some q"
  by (simp_all add: first_of_def)

lemma last_of_simps [simp]: "last_of [] d = d" "last_of (ps @ [q]) d = Some q" "last_of (q # ps) d = last_of ps (Some q)"
  by (auto simp: last_of_def)

fun dlist :: "(ptr, pc_entry) fmap \<Rightarrow> ptr option \<Rightarrow> ptr list \<Rightarrow> ptr option \<Rightarrow> bool" where
  "dlist H prv [] nxt = True"
| "dlist H prv (q # ps) nxt =
     ((\<exists>e. fmlookup H q = Some e \<and> pe_prev e = prv \<and> pe_next e = first_of ps nxt) \<and> dlist H (Some q) ps nxt)"

lemma first_of_append [simp]: "first_of (xs @ ys) d = first_of xs (first_of ys d)"
  by (simp add: first_of_def split: list.split)

lemma dlist_append:
  "dlist H prv (xs @ ys) nxt \<longleftrightarrow> dlist H prv xs (first_of ys nxt) \<and> dlist H (last_of xs prv) ys nxt"
  by (induction xs arbitrary: prv) auto

lemma dlist_frame: "q \<notin> set ps \<Longrightarrow> dlist (fmupd q e H) prv ps nxt = dlist H prv ps nxt"
  by (induction ps arbitrary: prv) auto

lemma dlist_frame_drop: "q \<notin> set ps \<Longrightarrow> dlist (fmdrop q H) prv ps nxt = dlist H prv ps nxt"
  by (induction ps arbitrary: prv) auto

lemma dlist_set_prev:
  assumes "dlist H prv (q # ps) nxt" "distinct (q # ps)" "fmlookup H q = Some e"
  shows "dlist (fmupd q (e\<lparr>pe_prev := prv'\<rparr>) H) prv' (q # ps) nxt"
  using assms by (auto simp: dlist_frame)

lemma dlist_set_next:
  assumes "dlist H prv (ps @ [q]) nxt" "distinct (ps @ [q])" "fmlookup H q = Some e"
  shows "dlist (fmupd q (e\<lparr>pe_next := nxt'\<rparr>) H) prv (ps @ [q]) nxt'"
  using assms by (auto simp: dlist_append dlist_frame)

text \<open>The pointers of the list, from \<open>head\<close> to \<open>tail\<close>.\<close>

definition linked :: "page_cache \<Rightarrow> ptr list \<Rightarrow> bool" where
  "linked c ps \<longleftrightarrow> distinct ps \<and> dlist (pc_heap c) None ps None \<and>
     pc_head c = first_of ps None \<and> pc_tail c = last_of ps None"

text \<open>The part of an entry that the list operations do not change.\<close>

definition content :: "page_cache \<Rightarrow> ptr \<Rightarrow> (page_cache_key \<times> page_ref) option" where
  "content c q = map_option (\<lambda>e. (pe_key e, pe_page e)) (fmlookup (pc_heap c) q)"

definition same_frame :: "page_cache \<Rightarrow> page_cache \<Rightarrow> bool" where
  "same_frame c c' \<longleftrightarrow> content c' = content c \<and> pc_map c' = pc_map c \<and> pc_capacity c' = pc_capacity c \<and>
     pc_fresh c' = pc_fresh c \<and> pc_pages c' = pc_pages c"

lemma dom_content: "q |\<in>| fmdom (pc_heap c) \<longleftrightarrow> content c q \<noteq> None"
  by (auto simp: content_def fmlookup_dom_iff)

lemma same_frame_refl [simp]: "same_frame c c"
  by (simp add: same_frame_def)

lemma same_frame_trans: "same_frame a b \<Longrightarrow> same_frame b c \<Longrightarrow> same_frame a c"
  by (simp add: same_frame_def)

lemma modify_eq: "fmlookup (pc_heap c) q = Some e \<Longrightarrow> modify q f c = Some (c\<lparr>pc_heap := fmupd q (f e) (pc_heap c)\<rparr>)"
  by (simp add: modify_def deref_def)

lemma dlist_nth: "dlist H prv ps nxt \<Longrightarrow> q \<in> set ps \<Longrightarrow> \<exists>e. fmlookup H q = Some e"
  by (induction ps arbitrary: prv) auto

lemma unlink_linked:
  assumes "linked c (xs @ q # ys)"
  shows "\<exists>c' e. unlink q c = Some c' \<and> linked c' (xs @ ys) \<and> same_frame c c' \<and>
    fmlookup (pc_heap c') q = Some e \<and> pe_prev e = None \<and> pe_next e = None"
proof -
  let ?H = "pc_heap c"
  have d: "distinct (xs @ q # ys)" and l: "dlist ?H None (xs @ q # ys) None"
    and ends: "pc_head c = first_of (xs @ q # ys) None" "pc_tail c = last_of (xs @ q # ys) None"
    using assms by (auto simp: linked_def)
  obtain e where e: "fmlookup ?H q = Some e" "pe_prev e = last_of xs None" "pe_next e = first_of ys None"
    using l by (auto simp: dlist_append)
  define H1 where "H1 = fmupd q (e\<lparr>pe_prev := None, pe_next := None\<rparr>) ?H"
  have s1: "dlist H1 None xs (Some q)" "dlist H1 (Some q) ys None"
    using l d by (auto simp: H1_def dlist_append dlist_frame)
  show ?thesis
  proof (cases xs rule: rev_cases)
    case Nil
    show ?thesis
    proof (cases ys)
      case Nil
      then show ?thesis using \<open>xs = []\<close> e d
        by (auto simp: unlink_def deref_def modify_eq linked_def same_frame_def content_def fun_eq_iff)
    next
      case (Cons n ys')
      obtain en where en: "fmlookup H1 n = Some en" using dlist_nth [OF s1(2), of n] Cons by auto
      then have en0: "fmlookup ?H n = Some en" using d Cons by (auto simp: H1_def)
      have "dlist (fmupd n (en\<lparr>pe_prev := None\<rparr>) H1) None (n # ys') None"
        using s1(2) d Cons en by (intro dlist_set_prev) auto
      then show ?thesis using Nil Cons e d en0 ends
        by (auto simp: unlink_def deref_def modify_eq linked_def same_frame_def content_def fun_eq_iff H1_def last_of_def)
    qed
  next
    case (snoc xs' p)
    obtain ep where ep: "fmlookup H1 p = Some ep" using dlist_nth [OF s1(1), of p] snoc by auto
    then have ep0: "fmlookup ?H p = Some ep" using d snoc by (auto simp: H1_def)
    show ?thesis
    proof (cases ys)
      case Nil
      have "dlist (fmupd p (ep\<lparr>pe_next := None\<rparr>) H1) None (xs' @ [p]) None"
        using s1(1) d snoc ep by (intro dlist_set_next) auto
      then show ?thesis using Nil snoc e d ep0 ends
        by (auto simp: unlink_def deref_def modify_eq linked_def same_frame_def content_def fun_eq_iff H1_def)
    next
      case (Cons n ys')
      obtain en where en: "fmlookup H1 n = Some en" using dlist_nth [OF s1(2), of n] Cons by auto
      then have en0: "fmlookup ?H n = Some en" using d Cons by (auto simp: H1_def)
      have x: "dlist (fmupd p (ep\<lparr>pe_next := Some n\<rparr>) H1) None (xs' @ [p]) (Some n)"
        using s1(1) d snoc ep by (intro dlist_set_next) auto
      have "dlist (fmupd p (ep\<lparr>pe_next := Some n\<rparr>) H1) (Some q) (n # ys') None"
        using s1(2) d snoc Cons by (subst dlist_frame) auto
      then have y: "dlist (fmupd n (en\<lparr>pe_prev := Some p\<rparr>) (fmupd p (ep\<lparr>pe_next := Some n\<rparr>) H1)) (Some p) (n # ys') None"
        using d snoc Cons en by (intro dlist_set_prev) auto
      have x': "dlist (fmupd n (en\<lparr>pe_prev := Some p\<rparr>) (fmupd p (ep\<lparr>pe_next := Some n\<rparr>) H1)) None (xs' @ [p]) (Some n)"
        using x d snoc Cons by (subst dlist_frame) auto
      have "dlist (fmupd n (en\<lparr>pe_prev := Some p\<rparr>) (fmupd p (ep\<lparr>pe_next := Some n\<rparr>) H1)) None ((xs' @ [p]) @ n # ys') None"
        using x' y by (intro dlist_append [THEN iffD2]) (simp only: first_of_simps last_of_simps simp_thms)
      then show ?thesis using snoc Cons e d ep0 en0 ends
        by (auto simp: unlink_def deref_def modify_eq linked_def same_frame_def content_def fun_eq_iff H1_def last_of_def)
    qed
  qed
qed

lemma touch_linked:
  assumes "linked c ps" "q \<notin> set ps" "fmlookup (pc_heap c) q = Some e" "pe_prev e = None" "pe_next e = None"
  shows "\<exists>c'. touch q c = Some c' \<and> linked c' (q # ps) \<and> same_frame c c'"
proof (cases ps)
  case Nil
  then show ?thesis using assms
    by (auto simp: touch_def linked_def same_frame_def content_def)
next
  case (Cons n ps')
  obtain en where en: "fmlookup (pc_heap c) n = Some en" using assms(1) Cons by (auto simp: linked_def)
  define H1 where "H1 = fmupd q (e\<lparr>pe_next := Some n\<rparr>) (pc_heap c)"
  have "dlist H1 None (n # ps') None" using assms(1,2) Cons by (auto simp: linked_def H1_def dlist_frame)
  then have "dlist (fmupd n (en\<lparr>pe_prev := Some q\<rparr>) H1) (Some q) (n # ps') None"
    using assms(1,2) Cons en by (intro dlist_set_prev) (auto simp: linked_def H1_def)
  then show ?thesis using assms Cons en
    by (auto simp: touch_def modify_eq linked_def same_frame_def content_def fun_eq_iff H1_def last_of_def)
qed

section \<open>The abstract cache\<close>

text \<open>
  Keys and pages, most recently used first. The operations follow the contract of the code:
  pages that are locked or dirty are never removed.
\<close>

record lru =
  lru_capacity :: nat
  lru_items :: "(page_cache_key \<times> page_ref) list"
  lru_pages :: "page_ref \<Rightarrow> page_state"

definition without :: "page_cache_key \<Rightarrow> (page_cache_key \<times> page_ref) list \<Rightarrow> (page_cache_key \<times> page_ref) list" where
  "without k xs = filter (\<lambda>x. fst x \<noteq> k) xs"

definition lru_peek :: "page_cache_key \<Rightarrow> bool \<Rightarrow> lru \<Rightarrow> page_ref option \<times> lru" where
  "lru_peek k touch_it l = (case map_of (lru_items l) k of
     None \<Rightarrow> (None, l)
   | Some pg \<Rightarrow> (Some pg, if touch_it then l\<lparr>lru_items := (k, pg) # without k (lru_items l)\<rparr> else l))"

definition lru_delete :: "page_cache_key \<Rightarrow> lru \<Rightarrow> (cache_error + unit) \<times> lru" where
  "lru_delete k l = (case map_of (lru_items l) k of
     None \<Rightarrow> (Inr (), l)
   | Some pg \<Rightarrow>
       if pg_locked (lru_pages l pg) then (Inl Locked, l)
       else if pg_dirty (lru_pages l pg) then (Inl Dirty, l)
       else (Inr (), l\<lparr>lru_items := without k (lru_items l), lru_pages := clean pg (lru_pages l)\<rparr>))"

fun lru_evict :: "nat \<Rightarrow> page_cache_key list \<Rightarrow> lru \<Rightarrow> nat \<times> lru" where
  "lru_evict need [] l = (need, l)"
| "lru_evict need (k # ks) l =
     (if need = 0 then (need, l)
      else let (r, l) = lru_delete k l in lru_evict (case r of Inl _ \<Rightarrow> need | Inr _ \<Rightarrow> need - 1) ks l)"

definition lru_make_room :: "nat \<Rightarrow> lru \<Rightarrow> (cache_error + unit) \<times> lru" where
  "lru_make_room n l =
     (if n > lru_capacity l then (Inl Full, l)
      else
        let need = n + length (lru_items l) - lru_capacity l;
            (need, l) = lru_evict need (rev (map fst (lru_items l))) l
        in (if need > 0 then Inl Full else Inr (), l))"

definition lru_insert :: "page_cache_key \<Rightarrow> page_ref \<Rightarrow> lru \<Rightarrow> (cache_error + unit) \<times> lru" where
  "lru_insert k pg l = (case lru_peek k True l of
     (Some pg', l) \<Rightarrow> (Inl (if pg \<noteq> pg' then KeyExistsContentMismatch else KeyExists), l)
   | (None, l) \<Rightarrow> (case lru_make_room 1 l of
        (Inl e, l) \<Rightarrow> (Inl e, l)
      | (Inr _, l) \<Rightarrow> (Inr (), l\<lparr>lru_items := (k, pg) # lru_items l\<rparr>)))"

definition lru_resize :: "nat \<Rightarrow> lru \<Rightarrow> cache_resize_result \<times> lru" where
  "lru_resize capacity l = (case lru_make_room 0 (l\<lparr>lru_capacity := capacity\<rparr>) of
     (Inr _, l) \<Rightarrow> (ResizeDone, l) | (Inl _, l) \<Rightarrow> (PendingEvictions, l))"

definition lru_unset_dirty :: "lru \<Rightarrow> lru" where
  "lru_unset_dirty l = l\<lparr>lru_pages := (\<lambda>pg. if pg \<in> snd ` set (lru_items l)
     then (lru_pages l pg)\<lparr>pg_dirty := False\<rparr> else lru_pages l pg)\<rparr>"

section \<open>Representation\<close>

definition key_of :: "page_cache \<Rightarrow> ptr \<Rightarrow> page_cache_key" where
  "key_of c q = fst (the (content c q))"

definition items_of :: "page_cache \<Rightarrow> ptr list \<Rightarrow> (page_cache_key \<times> page_ref) list" where
  "items_of c ps = map (\<lambda>q. the (content c q)) ps"

text \<open>
  The heap holds exactly the entries of the list, and the hash map maps their keys to them.
\<close>

definition pc_rep :: "page_cache \<Rightarrow> ptr list \<Rightarrow> bool" where
  "pc_rep c ps \<longleftrightarrow> linked c ps \<and> fset (fmdom (pc_heap c)) = set ps \<and> (\<forall>q\<in>set ps. q < pc_fresh c) \<and>
     hm.indexes (pc_map c) (key_of c) ps"

definition lru_of :: "page_cache \<Rightarrow> ptr list \<Rightarrow> lru" where
  "lru_of c ps = \<lparr>lru_capacity = pc_capacity c, lru_items = items_of c ps, lru_pages = pc_pages c\<rparr>"

definition refines :: "page_cache \<Rightarrow> lru \<Rightarrow> bool" where
  "refines c l \<longleftrightarrow> (\<exists>ps. pc_rep c ps \<and> l = lru_of c ps)"

lemma rep_content: "pc_rep c ps \<Longrightarrow> q \<in> set ps \<Longrightarrow> \<exists>e. fmlookup (pc_heap c) q = Some e \<and> content c q = Some (pe_key e, pe_page e)"
  using dlist_nth [of "pc_heap c" None ps None q] by (auto simp: pc_rep_def linked_def content_def)

lemma rep_distinct: "pc_rep c ps \<Longrightarrow> distinct ps"
  by (simp add: pc_rep_def linked_def)

lemma rep_keys: "pc_rep c ps \<Longrightarrow> distinct (map (key_of c) ps)"
  using hm.indexes_inj [of "pc_map c" "key_of c" ps]
  by (auto simp: distinct_map pc_rep_def linked_def inj_on_def)

lemma fst_items_of [simp]: "map fst (items_of c ps) = map (key_of c) ps"
  by (simp add: items_of_def key_of_def)

lemma length_items_of [simp]: "length (items_of c ps) = length ps"
  by (simp add: items_of_def)

lemma map_of_items_None: "map_of (items_of c ps) k = None \<longleftrightarrow> k \<notin> key_of c ` set ps"
  by (auto simp: map_of_eq_None_iff items_of_def key_of_def image_iff)

lemma rep_lookup [consumes 1, case_names absent present]:
  assumes rep: "pc_rep c ps"
  obtains "hm_lookup (pc_map c) k = None" "map_of (items_of c ps) k = None" "k \<notin> key_of c ` set ps"
  | xs q ys e where "hm_lookup (pc_map c) k = Some q" "ps = xs @ q # ys" "fmlookup (pc_heap c) q = Some e"
    "pe_key e = k" "key_of c q = k" "map_of (items_of c ps) k = Some (pe_page e)"
    "without k (items_of c ps) = items_of c (xs @ ys)" "the (content c q) = (k, pe_page e)"
proof (cases "hm_lookup (pc_map c) k")
  case None
  then have "k \<notin> key_of c ` set ps" using hm.indexes_None [of "pc_map c" "key_of c" ps k] rep by (simp add: pc_rep_def)
  then show ?thesis using None that(1) by (simp add: map_of_items_None)
next
  case (Some q)
  then have q: "q \<in> set ps" "key_of c q = k" using rep unfolding pc_rep_def hm.indexes_def by auto
  obtain e where e: "fmlookup (pc_heap c) q = Some e" "content c q = Some (pe_key e, pe_page e)"
    using rep_content [OF rep q(1)] by blast
  obtain xs ys where ps: "ps = xs @ q # ys" using q(1) by (meson split_list)
  have k: "pe_key e = k" using q(2) e by (simp add: key_of_def)
  have keys: "distinct (map (key_of c) ps)" using rep by (rule rep_keys)
  then have nk: "key_of c p \<noteq> k" if "p \<in> set (xs @ ys)" for p
    using that q(2) by (auto simp: ps image_iff)
  have "(k, pe_page e) \<in> set (items_of c ps)"
    using e k q(1) unfolding items_of_def by (auto simp: image_iff intro!: bexI [of _ q])
  then have "map_of (items_of c ps) k = Some (pe_page e)" using keys by (intro map_of_is_SomeI) simp_all
  moreover have "without k (items_of c zs) = items_of c zs" if "set zs \<subseteq> set (xs @ ys)" for zs
    using nk that unfolding without_def items_of_def filter_id_conv by (simp add: key_of_def subset_iff)
  then have "without k (items_of c ps) = items_of c (xs @ ys)"
    using e k by (simp add: ps items_of_def without_def)
  ultimately show ?thesis using that(2) [OF Some ps e(1) k q(2)] e k by simp
qed

section \<open>Simulation\<close>

lemma rep_same_frame:
  assumes "pc_rep c ps" "same_frame c c'" "linked c' qs" "set qs = set ps"
  shows "pc_rep c' qs"
proof -
  have "key_of c' = key_of c" using assms(2) by (simp add: fun_eq_iff key_of_def same_frame_def)
  moreover have "q |\<in>| fmdom (pc_heap c') \<longleftrightarrow> q |\<in>| fmdom (pc_heap c)" for q
    using assms(2) by (simp add: same_frame_def dom_content)
  ultimately show ?thesis
    using assms hm.indexes_cong [of "pc_map c" "key_of c" ps qs "key_of c"] by (auto simp: pc_rep_def same_frame_def)
qed

lemma lru_of_same_frame: "same_frame c c' \<Longrightarrow> lru_of c' ps = lru_of c ps"
  by (simp add: lru_of_def same_frame_def items_of_def)

lemma hm_ok_rep: "pc_rep c ps \<Longrightarrow> hm_ok (pc_map c)"
  by (simp add: pc_rep_def hm.indexes_def)

lemma len_rep: "pc_rep c ps \<Longrightarrow> cache_len c = length ps"
  using hm.indexes_len [of "pc_map c" "key_of c" ps] by (simp add: cache_len_def pc_rep_def linked_def)

lemma peek_refines:
  assumes rep: "pc_rep c ps"
  shows "\<exists>c' qs. peek k tch c = Some (fst (lru_peek k tch (lru_of c ps)), c') \<and> pc_rep c' qs \<and>
    lru_of c' qs = snd (lru_peek k tch (lru_of c ps))"
proof -
  note g = hm.get_eq [OF hm_ok_rep [OF rep]]
  show ?thesis
    using rep
  proof (cases rule: rep_lookup [where k = k])
    case absent
    then show ?thesis using rep by (auto simp: peek_def get_ptr_def g lru_peek_def lru_of_def)
  next
    case (present xs q ys e)
    show ?thesis
    proof (cases tch)
      case False
      then show ?thesis using rep present by (auto simp: peek_def get_ptr_def g lru_peek_def lru_of_def deref_def)
    next
      case True
      have lk: "linked c (xs @ q # ys)" using rep present(2) by (simp add: pc_rep_def)
      obtain c1 e1 where c1: "unlink q c = Some c1" "linked c1 (xs @ ys)" "same_frame c c1"
        "fmlookup (pc_heap c1) q = Some e1" "pe_prev e1 = None" "pe_next e1 = None"
        using unlink_linked [OF lk] by blast
      have "q \<notin> set (xs @ ys)" using lk by (simp add: linked_def)
      then obtain c2 where c2: "touch q c1 = Some c2" "linked c2 (q # xs @ ys)" "same_frame c1 c2"
        using touch_linked [OF c1(2) _ c1(4-6)] by blast
      have fr: "same_frame c c2" using same_frame_trans [OF c1(3) c2(3)] .
      have "pc_rep c2 (q # xs @ ys)" using rep_same_frame [OF rep fr c2(2)] present(2) by auto
      moreover have "lru_of c2 (q # xs @ ys) = (lru_of c ps)\<lparr>lru_items := (k, pe_page e) # without k (items_of c ps)\<rparr>"
        using present(7,8) by (simp add: lru_of_same_frame [OF fr]) (simp add: lru_of_def items_of_def)
      ultimately show ?thesis
        using True present c1(1) c2(1) by (auto simp: peek_def get_ptr_def g lru_peek_def lru_of_def deref_def)
    qed
  qed
qed

lemma delete_present:
  assumes rep: "pc_rep c (xs @ q # ys)" and e: "fmlookup (pc_heap c) q = Some e"
    and free: "\<not> pg_locked (pc_pages c (pe_page e))" "\<not> pg_dirty (pc_pages c (pe_page e))"
  shows "\<exists>c'. cache_delete (pe_key e) c = Some (Inr (), c') \<and> pc_rep c' (xs @ ys) \<and>
    pc_capacity c' = pc_capacity c \<and> pc_pages c' = clean (pe_page e) (pc_pages c) \<and>
    (\<forall>p\<in>set (xs @ ys). content c' p = content c p)"
proof -
  let ?c = "c\<lparr>pc_pages := clean (pe_page e) (pc_pages c)\<rparr>"
  have key: "key_of c q = pe_key e" using e by (simp add: key_of_def content_def)
  have d: "distinct (xs @ q # ys)" using rep by (rule rep_distinct)
  have idx: "hm.indexes (pc_map c) (key_of c) (xs @ q # ys)" using rep by (simp add: pc_rep_def)
  have look: "hm_lookup (pc_map c) (pe_key e) = Some q" using idx key by (auto simp: hm.indexes_def)
  have "linked ?c (xs @ q # ys)" using rep by (simp add: pc_rep_def linked_def)
  then obtain c1 e1 where c1: "unlink q ?c = Some c1" "linked c1 (xs @ ys)" "same_frame ?c c1" "fmlookup (pc_heap c1) q = Some e1"
    using unlink_linked by blast
  obtain h where h: "hm_remove (pe_key e) (pc_map c) = Some (h, Some q)" "hm.indexes h (key_of c) (xs @ ys)"
    using hm.indexes_rem [OF idx d] key by auto
  define c' where "c' = c1\<lparr>pc_map := h, pc_heap := fmdrop q (pc_heap c1)\<rparr>"
  have cont1: "content c1 = content c" "pc_fresh c1 = pc_fresh c" "pc_map c1 = pc_map c"
    using c1(3) by (simp_all add: same_frame_def content_def fun_eq_iff)
  then have cont: "content c' p = content c p" if "p \<noteq> q" for p
    using that by (auto simp: c'_def content_def fun_eq_iff)
  have cont': "content c' p = content c p" if "p \<in> set (xs @ ys)" for p
    using that d by (intro cont) auto
  have "cache_delete (pe_key e) c = Some (Inr (), c')"
    using look e free h c1 cont1
    by (simp add: cache_delete_def delete_page_def contains_key_def hm.contains_eq [OF hm_ok_rep [OF rep]]
        hm.get_eq [OF hm_ok_rep [OF rep]] detach_def deref_def free_entry_def c'_def)
  moreover have "linked c' (xs @ ys)" using c1(2) d by (simp add: linked_def c'_def dlist_frame_drop)
  moreover have "p |\<in>| fmdom (pc_heap c') \<longleftrightarrow> p \<in> set (xs @ ys)" for p
  proof -
    have "p |\<in>| fmdom (pc_heap c1) \<longleftrightarrow> p |\<in>| fmdom (pc_heap c)"
      using cont1(1) by (simp add: dom_content)
    then show ?thesis using rep d by (auto simp: c'_def pc_rep_def)
  qed
  moreover have "hm.indexes h (key_of c') (xs @ ys)"
    by (rule hm.indexes_cong [OF h(2)]) (simp_all add: key_of_def cont')
  ultimately have "pc_rep c' (xs @ ys)"
    using rep cont1(2) by (auto simp: pc_rep_def c'_def)
  then show ?thesis
    using \<open>cache_delete (pe_key e) c = Some (Inr (), c')\<close> c1(3) cont' by (auto simp: c'_def same_frame_def)
qed

lemma delete_refused:
  assumes rep: "pc_rep c ps" "q \<in> set ps" and e: "fmlookup (pc_heap c) q = Some e"
    and "pg_locked (pc_pages c (pe_page e)) \<or> pg_dirty (pc_pages c (pe_page e))"
  shows "cache_delete (pe_key e) c = Some (Inl (if pg_locked (pc_pages c (pe_page e)) then Locked else Dirty), c)"
proof -
  have "hm_lookup (pc_map c) (pe_key e) = Some q"
    using rep e by (auto simp: pc_rep_def hm.indexes_def key_of_def content_def)
  then show ?thesis
    using e assms(4)
    by (auto simp: cache_delete_def delete_page_def contains_key_def hm.contains_eq [OF hm_ok_rep [OF rep(1)]]
        hm.get_eq [OF hm_ok_rep [OF rep(1)]] detach_def deref_def)
qed

lemma lru_of_frame:
  "pc_capacity c' = pc_capacity c \<Longrightarrow> \<forall>p\<in>set zs. content c' p = content c p \<Longrightarrow>
   lru_of c' zs = (lru_of c ps)\<lparr>lru_items := items_of c zs, lru_pages := pc_pages c'\<rparr>"
  by (simp add: lru_of_def items_of_def)

text \<open>Deleting the key of an entry of the list.\<close>

lemma delete_entry:
  assumes rep: "pc_rep c (xs @ q # ys)" and e: "fmlookup (pc_heap c) q = Some e"
  shows "\<exists>c' zs. cache_delete (pe_key e) c = Some (fst (lru_delete (pe_key e) (lru_of c (xs @ q # ys))), c') \<and>
    (zs = q # ys \<or> zs = ys) \<and> pc_rep c' (xs @ zs) \<and> lru_of c' (xs @ zs) = snd (lru_delete (pe_key e) (lru_of c (xs @ q # ys))) \<and>
    (\<forall>p\<in>set xs. content c' p = content c p)"
  using rep
proof (cases rule: rep_lookup [where k = "pe_key e"])
  case absent
  then show ?thesis using e by (auto simp: key_of_def content_def)
next
  case (present xs' q' ys' e')
  have "key_of c q = pe_key e" using e by (simp add: key_of_def content_def)
  then have "hm_lookup (pc_map c) (pe_key e) = Some q" using rep by (simp add: pc_rep_def hm.indexes_def)
  then have "q' = q" using present(1) by simp
  have nq: "q \<notin> set xs" "q \<notin> set ys" using rep_distinct [OF rep] by simp_all
  have eq: "e' = e" "xs' = xs" "ys' = ys"
    using append_Cons_eq_iff [OF nq, of xs' ys'] present(2,3) e \<open>q' = q\<close> by simp_all
  show ?thesis
  proof (cases "pg_locked (pc_pages c (pe_page e)) \<or> pg_dirty (pc_pages c (pe_page e))")
    case True
    then show ?thesis
      using delete_refused [OF rep _ e] present(6) rep eq by (auto simp: lru_delete_def lru_of_def)
  next
    case False
    then obtain c' where c': "cache_delete (pe_key e) c = Some (Inr (), c')" "pc_rep c' (xs @ ys)"
      "pc_capacity c' = pc_capacity c" "pc_pages c' = clean (pe_page e) (pc_pages c)"
      "\<forall>p\<in>set (xs @ ys). content c' p = content c p"
      using delete_present [OF rep e] by blast
    have "lru_of c' (xs @ ys) = snd (lru_delete (pe_key e) (lru_of c (xs @ q # ys)))"
      using lru_of_frame [OF c'(3,5), of "xs @ q # ys"] present(6,7) False eq c'(4)
      by (simp add: lru_delete_def) (simp add: lru_of_def)
    moreover have "fst (lru_delete (pe_key e) (lru_of c (xs @ q # ys))) = Inr ()"
      using present(6) False eq by (simp add: lru_delete_def lru_of_def)
    ultimately show ?thesis using c' by auto
  qed
qed

lemma delete_refines:
  assumes rep: "pc_rep c ps"
  shows "\<exists>c' qs. cache_delete k c = Some (fst (lru_delete k (lru_of c ps)), c') \<and> pc_rep c' qs \<and>
    lru_of c' qs = snd (lru_delete k (lru_of c ps))"
  using rep
proof (cases rule: rep_lookup [where k = k])
  case absent
  then show ?thesis
    using rep by (auto simp: cache_delete_def delete_page_def contains_key_def hm.contains_eq [OF hm_ok_rep [OF rep]]
        lru_delete_def lru_of_def)
next
  case (present xs q ys e)
  then show ?thesis using delete_entry [OF rep [unfolded present(2)] present(3)] by auto
qed

lemma evict_refines:
  assumes "pc_rep c (xs @ ys)"
  shows "\<exists>c' qs. evict_loop need (last_of xs None) c = Some (fst (lru_evict need (rev (map (key_of c) xs)) (lru_of c (xs @ ys))), c') \<and>
    pc_rep c' qs \<and> lru_of c' qs = snd (lru_evict need (rev (map (key_of c) xs)) (lru_of c (xs @ ys)))"
  using assms
proof (induction xs arbitrary: need c ys rule: rev_induct)
  case Nil
  then show ?case by (subst evict_loop.simps) auto
next
  case (snoc q xs)
  have rep: "pc_rep c (xs @ q # ys)" using snoc.prems by simp
  then obtain e where e: "fmlookup (pc_heap c) q = Some e" "pe_prev e = last_of xs None"
    by (auto simp: pc_rep_def linked_def dlist_append)
  have key: "key_of c q = pe_key e" using e(1) by (simp add: key_of_def content_def)
  show ?case
  proof (cases "need = 0")
    case True
    then show ?thesis using rep by (subst evict_loop.simps) auto
  next
    case False
    obtain c1 zs where c1: "cache_delete (pe_key e) c = Some (fst (lru_delete (pe_key e) (lru_of c (xs @ q # ys))), c1)"
      "pc_rep c1 (xs @ zs)" "lru_of c1 (xs @ zs) = snd (lru_delete (pe_key e) (lru_of c (xs @ q # ys)))"
      "\<forall>p\<in>set xs. content c1 p = content c p"
      using delete_entry [OF rep e(1)] by blast
    obtain r l where r: "lru_delete (pe_key e) (lru_of c (xs @ q # ys)) = (r, l)" by (cases "lru_delete (pe_key e) (lru_of c (xs @ q # ys))")
    have keys: "map (key_of c1) xs = map (key_of c) xs" using c1(4) by (simp add: key_of_def)
    show ?thesis
      using snoc.IH [OF c1(2), of "case r of Inl _ \<Rightarrow> need | Inr _ \<Rightarrow> need - 1"] c1(1,3) False e key
      by (subst evict_loop.simps) (simp add: deref_def r keys)
  qed
qed

lemma make_room_refines:
  assumes rep: "pc_rep c ps"
  shows "\<exists>c' qs. make_room_for n c = Some (fst (lru_make_room n (lru_of c ps)), c') \<and> pc_rep c' qs \<and>
    lru_of c' qs = snd (lru_make_room n (lru_of c ps))"
proof -
  have len: "cache_len c = length ps" using rep by (rule len_rep)
  have tail: "pc_tail c = last_of ps None" using rep by (simp add: pc_rep_def linked_def)
  obtain c' qs where ev: "evict_loop (n + length ps - pc_capacity c) (last_of ps None) c =
      Some (fst (lru_evict (n + length ps - pc_capacity c) (rev (map (key_of c) ps)) (lru_of c ps)), c')"
    "pc_rep c' qs" "lru_of c' qs = snd (lru_evict (n + length ps - pc_capacity c) (rev (map (key_of c) ps)) (lru_of c ps))"
    using evict_refines [of c ps "[]" "n + length ps - pc_capacity c"] rep by auto
  consider "n > pc_capacity c" | "n \<le> pc_capacity c" "n + length ps \<le> pc_capacity c"
    | "n \<le> pc_capacity c" "n + length ps > pc_capacity c" by linarith
  then show ?thesis
  proof cases
    case 1
    then show ?thesis using rep by (auto simp: make_room_for_def lru_make_room_def lru_of_def)
  next
    case 2
    moreover have "lru_evict 0 ks l = (0, l)" for ks l by (cases ks) auto
    moreover have "n \<le> pc_capacity c - length ps" using 2 by linarith
    ultimately show ?thesis using rep by (auto simp: make_room_for_def lru_make_room_def lru_of_def len Let_def)
  next
    case 3
    then have "ps \<noteq> []" by auto
    then have tl: "pc_tail c = Some (last ps)" "last_of ps None = Some (last ps)" by (simp_all add: tail last_of_def)
    have need: "n - (pc_capacity c - length ps) + (length ps - pc_capacity c) = n + length ps - pc_capacity c"
      "\<not> (n \<le> pc_capacity c - length ps \<and> length ps \<le> pc_capacity c)"
      using 3 by linarith+
    show ?thesis
      using ev 3 tl need unfolding make_room_for_def lru_make_room_def Let_def len
      by (auto simp: lru_of_def split: prod.splits)
  qed
qed

lemma push_refines:
  fixes pg :: page_ref
  assumes rep: "pc_rep c ps" and k: "k \<notin> key_of c ` set ps"
  defines "c0 \<equiv> c\<lparr>pc_heap := fmupd (pc_fresh c) \<lparr>pe_key = k, pe_page = pg, pe_prev = None, pe_next = None\<rparr> (pc_heap c),
    pc_fresh := pc_fresh c + 1\<rparr>"
  shows "\<exists>c1 h. touch (pc_fresh c) c0 = Some c1 \<and> hm_insert k (pc_fresh c) (pc_map c1) = Some (h, None) \<and>
    pc_rep (c1\<lparr>pc_map := h\<rparr>) (pc_fresh c # ps) \<and>
    lru_of (c1\<lparr>pc_map := h\<rparr>) (pc_fresh c # ps) = (lru_of c ps)\<lparr>lru_items := (k, pg) # items_of c ps\<rparr>"
proof -
  let ?q = "pc_fresh c"
  have q: "?q \<notin> set ps" using rep by (auto simp: pc_rep_def)
  have "linked c0 ps" using rep q by (simp add: pc_rep_def linked_def c0_def dlist_frame)
  then obtain c1 where c1: "touch ?q c0 = Some c1" "linked c1 (?q # ps)" "same_frame c0 c1"
    using touch_linked [OF _ q, of c0] by (auto simp: c0_def)
  have cont: "content c1 p = (if p = ?q then Some (k, pg) else content c p)" for p
    using c1(3) by (auto simp: same_frame_def content_def c0_def fun_eq_iff)
  have cq: "content c1 p = content c p" if "p \<in> set ps" for p using cont that q by auto
  have "hm.indexes (pc_map c) (key_of c) ps" using rep by (simp add: pc_rep_def)
  then have idx: "hm.indexes (pc_map c) (key_of c1) ps"
    by (rule hm.indexes_cong) (simp_all add: key_of_def cq)
  have "k \<notin> key_of c1 ` set ps" "key_of c1 ?q = k" using k cq cont by (auto simp: key_of_def image_iff)
  then obtain h where h: "hm_insert k ?q (pc_map c) = Some (h, None)" "hm.indexes h (key_of c1) (?q # ps)"
    using hm.indexes_ins [OF idx] by blast
  have fr: "pc_map c1 = pc_map c" "pc_fresh c1 = ?q + 1" "pc_capacity c1 = pc_capacity c" "pc_pages c1 = pc_pages c"
    using c1(3) by (simp_all add: same_frame_def c0_def)
  have "p |\<in>| fmdom (pc_heap c1) \<longleftrightarrow> p \<in> set (?q # ps)" for p
    using rep dom_content [of p c] dom_content [of p c1] by (auto simp: cont pc_rep_def)
  moreover have "key_of (c1\<lparr>pc_map := h\<rparr>) = key_of c1" by (simp add: key_of_def content_def fun_eq_iff)
  ultimately have "pc_rep (c1\<lparr>pc_map := h\<rparr>) (?q # ps)"
    using c1(2) h(2) fr(2) rep by (auto simp: pc_rep_def linked_def)
  moreover have "content (c1\<lparr>pc_map := h\<rparr>) = content c1" by (simp add: content_def fun_eq_iff)
  then have "lru_of (c1\<lparr>pc_map := h\<rparr>) (?q # ps) = (lru_of c ps)\<lparr>lru_items := (k, pg) # items_of c ps\<rparr>"
    using cont cq fr by (simp add: lru_of_def items_of_def)
  ultimately show ?thesis using c1(1) h(1) fr(1) by auto
qed

lemma lru_delete_keys: "fst ` set (lru_items (snd (lru_delete k l))) \<subseteq> fst ` set (lru_items l)"
  by (auto simp: lru_delete_def without_def split: option.splits)

lemma lru_evict_keys: "fst ` set (lru_items (snd (lru_evict n ks l))) \<subseteq> fst ` set (lru_items l)"
proof (induction ks arbitrary: n l)
  case (Cons k ks)
  obtain r l' where l': "lru_delete k l = (r, l')" by (cases "lru_delete k l")
  show ?case
    using Cons.IH [of "case r of Inl _ \<Rightarrow> n | Inr _ \<Rightarrow> n - 1" l'] lru_delete_keys [of k l] by (auto simp: l' Let_def)
qed simp

lemma lru_make_room_keys: "fst ` set (lru_items (snd (lru_make_room n l))) \<subseteq> fst ` set (lru_items l)"
  by (simp add: lru_make_room_def Let_def case_prod_unfold lru_evict_keys)

lemma keys_items_of: "fst ` set (items_of c ps) = key_of c ` set ps"
  by (auto simp: items_of_def key_of_def image_iff)

lemma insert_refines:
  assumes rep: "pc_rep c ps"
  shows "\<exists>c' qs. cache_insert k pg c = Some (fst (lru_insert k pg (lru_of c ps)), c') \<and> pc_rep c' qs \<and>
    lru_of c' qs = snd (lru_insert k pg (lru_of c ps))"
proof -
  let ?l = "lru_of c ps"
  obtain c1 qs1 where c1: "peek k True c = Some (fst (lru_peek k True ?l), c1)" "pc_rep c1 qs1"
    "lru_of c1 qs1 = snd (lru_peek k True ?l)"
    using peek_refines [OF rep] by blast
  show ?thesis
  proof (cases "map_of (items_of c ps) k")
    case (Some pg')
    then show ?thesis
      using c1 by (auto simp: cache_insert_def insert_page_def cache_get_def lru_insert_def lru_peek_def lru_of_def)
  next
    case None
    then have l1: "lru_peek k True ?l = (None, ?l)" by (simp add: lru_peek_def lru_of_def)
    obtain c2 qs2 where c2: "make_room_for 1 c1 = Some (fst (lru_make_room 1 ?l), c2)" "pc_rep c2 qs2"
      "lru_of c2 qs2 = snd (lru_make_room 1 ?l)"
      using make_room_refines [OF c1(2), of 1] c1(3) l1 by auto
    obtain r l2 where r: "lru_make_room 1 ?l = (r, l2)" by (cases "lru_make_room 1 ?l")
    have "fst ` set (items_of c2 qs2) \<subseteq> fst ` set (items_of c ps)"
      using lru_make_room_keys [of 1 ?l] c2(3) by (simp add: r lru_of_def) (metis lru.select_convs(2))
    moreover have "k \<notin> fst ` set (items_of c ps)" using None by (simp add: map_of_eq_None_iff)
    ultimately have "k \<notin> key_of c2 ` set qs2" by (auto simp: keys_items_of)
    note push = push_refines [OF c2(2) this, of pg]
    show ?thesis
    proof (cases r)
      case (Inl e)
      then show ?thesis using c1 c2 l1 r
        by (auto simp: cache_insert_def insert_page_def cache_get_def lru_insert_def)
    next
      case (Inr u)
      have "(lru_of c2 qs2)\<lparr>lru_items := (k, pg) # items_of c2 qs2\<rparr> = l2\<lparr>lru_items := (k, pg) # lru_items l2\<rparr>"
        using c2(3) r by (auto simp: lru_of_def)
      then show ?thesis using Inr c1 c2 l1 r push
        by (auto simp: cache_insert_def insert_page_def cache_get_def lru_insert_def Let_def)
    qed
  qed
qed

text \<open>Resizing rehashes the index and then evicts.\<close>

lemma rehash_loop_ok:
  assumes "hm_ok h" "distinct (map hn_key ns)"
  shows "\<exists>h'. rehash_loop ns h = Some h' \<and> hm_ok h' \<and>
    hm_lookup h' = hm_lookup h ++ map_of (map (\<lambda>n. (hn_key n, hn_value n)) ns)"
  using assms
proof (induction ns arbitrary: h)
  case (Cons n ns)
  obtain h1 where h1: "hm_insert (hn_key n) (hn_value n) h = Some (h1, hm_lookup h (hn_key n))" "hm_ok h1"
    "hm_lookup h1 = (hm_lookup h)(hn_key n \<mapsto> hn_value n)"
    using hm_insert_ok [OF Cons.prems(1)] by blast
  obtain h2 where h2: "rehash_loop ns h1 = Some h2" "hm_ok h2"
    "hm_lookup h2 = hm_lookup h1 ++ map_of (map (\<lambda>n. (hn_key n, hn_value n)) ns)"
    using Cons.IH [OF h1(2)] Cons.prems(2) by auto
  have "map_of (map (\<lambda>n. (hn_key n, hn_value n)) ns) (hn_key n) = None"
    using Cons.prems(2) by (simp add: map_of_eq_None_iff image_image)
  then have "hm_lookup h2 = hm_lookup h ++ map_of (map (\<lambda>n. (hn_key n, hn_value n)) (n # ns))"
    unfolding h2(3) h1(3) by (auto simp: fun_eq_iff map_add_def split: option.split)
  moreover have "rehash_loop (n # ns) h = Some h2" using h1(1) h2(1) by simp
  ultimately show ?case using h2(2) by blast
qed simp

lemma hm_new_ok: "0 < cap \<Longrightarrow> hm_ok (hm_new cap)" "0 < cap \<Longrightarrow> hm_lookup (hm_new cap) k = None"
  by (auto simp: hm_ok_def hm_new_def hm_lookup_def concat_replicate_trivial)

lemma hm_rehash_ok:
  assumes "hm_ok h" "0 < cap"
  shows "\<exists>h'. hm_rehash cap h = Some h' \<and> hm_ok h' \<and> hm_lookup h' = hm_lookup h"
proof -
  have "distinct (map hn_key (hm_iter h))" using hm_pairs_props(1) [OF assms(1)] by (simp add: hm_pairs_def comp_def)
  then obtain h' where h': "rehash_loop (hm_iter h) (hm_new cap) = Some h'" "hm_ok h'"
    "hm_lookup h' = hm_lookup (hm_new cap) ++ map_of (hm_pairs h)"
    using rehash_loop_ok [OF hm_new_ok(1) [OF assms(2)]] by (auto simp: hm_pairs_def)
  moreover have "hm_lookup (hm_new cap) ++ m = m" for m
    using hm_new_ok(2) [OF assms(2)] by (auto simp: fun_eq_iff map_add_def split: option.split)
  ultimately show ?thesis using hm_pairs_props(2) [OF assms(1)] by (simp add: hm_rehash_def)
qed

lemma resize_refines:
  assumes rep: "pc_rep c ps" and cap: "0 < cap"
  shows "\<exists>c' qs. cache_resize cap c = Some (fst (lru_resize cap (lru_of c ps)), c') \<and> pc_rep c' qs \<and>
    lru_of c' qs = snd (lru_resize cap (lru_of c ps))"
proof -
  obtain h where h: "hm_rehash cap (pc_map c) = Some h" "hm_ok h" "hm_lookup h = hm_lookup (pc_map c)"
    using hm_rehash_ok [OF hm_ok_rep [OF rep] cap] by blast
  let ?c = "c\<lparr>pc_map := h, pc_capacity := cap\<rparr>"
  have "content ?c = content c" by (simp add: content_def fun_eq_iff)
  then have "pc_rep ?c ps" "lru_of ?c ps = (lru_of c ps)\<lparr>lru_capacity := cap\<rparr>"
    using rep h by (auto simp: pc_rep_def linked_def hm.indexes_def key_of_def lru_of_def items_of_def)
  then obtain c' qs where "make_room_for 0 ?c = Some (fst (lru_make_room 0 ((lru_of c ps)\<lparr>lru_capacity := cap\<rparr>)), c')" "pc_rep c' qs"
    "lru_of c' qs = snd (lru_make_room 0 ((lru_of c ps)\<lparr>lru_capacity := cap\<rparr>))"
    using make_room_refines [of ?c ps 0] by auto
  then show ?thesis using h(1)
    by (auto simp: cache_resize_def lru_resize_def case_prod_unfold split: sum.splits)
qed

lemma unset_dirty_loop_eq:
  assumes "\<forall>n\<in>set ns. fmlookup (pc_heap c) (hn_value n) \<noteq> None"
  shows "unset_dirty_loop ns c = Some (c\<lparr>pc_pages := (\<lambda>pg. if pg \<in> (\<lambda>n. snd (the (content c (hn_value n)))) ` set ns
      then (pc_pages c pg)\<lparr>pg_dirty := False\<rparr> else pc_pages c pg)\<rparr>)"
  using assms
proof (induction ns arbitrary: c)
  case (Cons n ns)
  obtain e where e: "fmlookup (pc_heap c) (hn_value n) = Some e" using Cons.prems by auto
  let ?c = "c\<lparr>pc_pages := (pc_pages c)(pe_page e := (pc_pages c (pe_page e))\<lparr>pg_dirty := False\<rparr>)\<rparr>"
  have "content ?c = content c" by (simp add: content_def fun_eq_iff)
  then have "unset_dirty_loop ns ?c = Some (?c\<lparr>pc_pages := (\<lambda>pg. if pg \<in> (\<lambda>n. snd (the (content c (hn_value n)))) ` set ns
      then (pc_pages ?c pg)\<lparr>pg_dirty := False\<rparr> else pc_pages ?c pg)\<rparr>)"
    using Cons.IH [of ?c] Cons.prems by simp
  moreover have "snd (the (content c (hn_value n))) = pe_page e" using e by (simp add: content_def)
  ultimately show ?case using e by (auto simp: deref_def fun_eq_iff)
qed simp

lemma unset_dirty_refines:
  assumes rep: "pc_rep c ps"
  shows "\<exists>c'. unset_dirty_all_pages c = Some c' \<and> pc_rep c' ps \<and> lru_of c' ps = lru_unset_dirty (lru_of c ps)"
proof -
  let ?ns = "hm_iter (pc_map c)"
  have ok: "hm_ok (pc_map c)" using rep by (rule hm_ok_rep)
  have "hn_value ` set ?ns = ran (hm_lookup (pc_map c))"
    using hm_pairs_props(1,2) [OF ok] ran_distinct [of "hm_pairs (pc_map c)"] by (simp add: hm_pairs_def image_image)
  also have "\<dots> = set ps" using rep by (auto simp: pc_rep_def hm.indexes_def ran_def)
  finally have vals: "hn_value ` set ?ns = set ps" .
  then have "\<forall>n\<in>set ?ns. fmlookup (pc_heap c) (hn_value n) \<noteq> None"
    using rep_content [OF rep] by fastforce
  note eq = unset_dirty_loop_eq [OF this]
  have pages: "(\<lambda>n. snd (the (content c (hn_value n)))) ` set ?ns = snd ` set (items_of c ps)"
    using arg_cong [OF vals, of "image (\<lambda>q. snd (the (content c q)))"] by (simp add: items_of_def image_image)
  let ?c = "c\<lparr>pc_pages := (\<lambda>pg. if pg \<in> snd ` set (items_of c ps) then (pc_pages c pg)\<lparr>pg_dirty := False\<rparr> else pc_pages c pg)\<rparr>"
  have f: "content ?c = content c" "key_of ?c = key_of c" by (simp_all add: content_def key_of_def fun_eq_iff)
  then have "pc_rep ?c ps" using rep by (simp add: pc_rep_def linked_def)
  moreover have "lru_of ?c ps = lru_unset_dirty (lru_of c ps)"
    using f by (auto simp: lru_of_def items_of_def lru_unset_dirty_def fun_eq_iff)
  ultimately show ?thesis using eq unfolding unset_dirty_all_pages_def pages by blast
qed

section \<open>Runs of the cache\<close>

text \<open>
  The operations a pager calls, and the flags other parts of the program set on pages meanwhile.
  Each operation has an output; \<open>pc_run\<close> runs the code's model, \<open>lru_run\<close> the abstract cache.
\<close>

datatype pc_op =
  PInsert page_cache_key page_ref | PGet page_cache_key | PPeek page_cache_key | PDelete page_cache_key
  | PRoom nat | PResize nat | PUnsetDirty | PLen | PSetPage page_ref page_state

datatype pc_out = OUnit "cache_error + unit" | OPage "page_ref option" | OResize cache_resize_result | OLen nat | ONone

fun pc_exec :: "pc_op \<Rightarrow> page_cache \<Rightarrow> (pc_out \<times> page_cache) option" where
  "pc_exec (PInsert k pg) c = map_option (map_prod OUnit id) (cache_insert k pg c)"
| "pc_exec (PGet k) c = map_option (map_prod OPage id) (cache_get k c)"
| "pc_exec (PPeek k) c = map_option (map_prod OPage id) (peek k False c)"
| "pc_exec (PDelete k) c = map_option (map_prod OUnit id) (cache_delete k c)"
| "pc_exec (PRoom n) c = map_option (map_prod OUnit id) (make_room_for n c)"
| "pc_exec (PResize cap) c = map_option (map_prod OResize id) (cache_resize cap c)"
| "pc_exec PUnsetDirty c = map_option (Pair ONone) (unset_dirty_all_pages c)"
| "pc_exec PLen c = Some (OLen (cache_len c), c)"
| "pc_exec (PSetPage pg st) c = Some (ONone, c\<lparr>pc_pages := (pc_pages c)(pg := st)\<rparr>)"

fun lru_exec :: "pc_op \<Rightarrow> lru \<Rightarrow> pc_out \<times> lru" where
  "lru_exec (PInsert k pg) l = map_prod OUnit id (lru_insert k pg l)"
| "lru_exec (PGet k) l = map_prod OPage id (lru_peek k True l)"
| "lru_exec (PPeek k) l = map_prod OPage id (lru_peek k False l)"
| "lru_exec (PDelete k) l = map_prod OUnit id (lru_delete k l)"
| "lru_exec (PRoom n) l = map_prod OUnit id (lru_make_room n l)"
| "lru_exec (PResize cap) l = map_prod OResize id (lru_resize cap l)"
| "lru_exec PUnsetDirty l = (ONone, lru_unset_dirty l)"
| "lru_exec PLen l = (OLen (length (lru_items l)), l)"
| "lru_exec (PSetPage pg st) l = (ONone, l\<lparr>lru_pages := (lru_pages l)(pg := st)\<rparr>)"

fun pc_run :: "pc_op list \<Rightarrow> page_cache \<Rightarrow> (pc_out list \<times> page_cache) option" where
  "pc_run [] c = Some ([], c)"
| "pc_run (op # ops) c = do { (x, c) \<leftarrow> pc_exec op c; (xs, c) \<leftarrow> pc_run ops c; Some (x # xs, c) }"

fun lru_run :: "pc_op list \<Rightarrow> lru \<Rightarrow> pc_out list \<times> lru" where
  "lru_run [] l = ([], l)"
| "lru_run (op # ops) l = (let (x, l) = lru_exec op l; (xs, l) = lru_run ops l in (x # xs, l))"

definition lru_new :: "nat \<Rightarrow> (page_ref \<Rightarrow> page_state) \<Rightarrow> lru" where
  "lru_new cap pages = \<lparr>lru_capacity = cap, lru_items = [], lru_pages = pages\<rparr>"

lemma refines_lift:
  assumes "\<exists>c' qs. x = Some (y, c') \<and> pc_rep c' qs \<and> lru_of c' qs = l"
  shows "\<exists>c'. map_option (map_prod g id) x = Some (g y, c') \<and> refines c' l"
  using assms unfolding refines_def by auto

lemma pc_exec_refines:
  assumes "refines c l" "op \<noteq> PResize 0"
  shows "\<exists>c'. pc_exec op c = Some (fst (lru_exec op l), c') \<and> refines c' (snd (lru_exec op l))"
proof -
  obtain ps where ps: "pc_rep c ps" "l = lru_of c ps" using assms(1) by (auto simp: refines_def)
  show ?thesis
  proof (cases op)
    case (PInsert k pg)
    then show ?thesis using refines_lift [where g = OUnit, OF insert_refines [OF ps(1), of k pg]] by (simp add: ps(2))
  next
    case (PGet k)
    then show ?thesis using refines_lift [where g = OPage, OF peek_refines [OF ps(1), of k True]] by (simp add: ps(2) cache_get_def)
  next
    case (PPeek k)
    then show ?thesis using refines_lift [where g = OPage, OF peek_refines [OF ps(1), of k False]] by (simp add: ps(2))
  next
    case (PDelete k)
    then show ?thesis using refines_lift [where g = OUnit, OF delete_refines [OF ps(1), of k]] by (simp add: ps(2))
  next
    case (PRoom n)
    then show ?thesis using refines_lift [where g = OUnit, OF make_room_refines [OF ps(1), of n]] by (simp add: ps(2))
  next
    case (PResize cap)
    then show ?thesis using refines_lift [where g = OResize, OF resize_refines [OF ps(1), of cap]] assms(2) by (simp add: ps(2))
  next
    case PUnsetDirty
    then show ?thesis using unset_dirty_refines [OF ps(1)] by (auto simp: ps(2) refines_def intro: sym)
  next
    case PLen
    then show ?thesis using len_rep [OF ps(1)] ps by (auto simp: refines_def lru_of_def)
  next
    case (PSetPage pg st)
    let ?c = "c\<lparr>pc_pages := (pc_pages c)(pg := st)\<rparr>"
    have f: "content ?c = content c" "key_of ?c = key_of c" by (simp_all add: content_def key_of_def fun_eq_iff)
    have "pc_rep ?c ps" using ps f by (simp add: pc_rep_def linked_def)
    moreover have "lru_of ?c ps = (lru_of c ps)\<lparr>lru_pages := (lru_pages (lru_of c ps))(pg := st)\<rparr>"
      using f by (simp add: lru_of_def items_of_def)
    ultimately have "refines ?c ((lru_of c ps)\<lparr>lru_pages := (lru_pages (lru_of c ps))(pg := st)\<rparr>)"
      unfolding refines_def by metis
    then show ?thesis by (simp add: PSetPage ps(2))
  qed
qed

lemma pc_run_refines:
  "refines c l \<Longrightarrow> PResize 0 \<notin> set ops \<Longrightarrow>
   \<exists>c'. pc_run ops c = Some (fst (lru_run ops l), c') \<and> refines c' (snd (lru_run ops l))"
proof (induction ops arbitrary: c l)
  case (Cons op ops)
  obtain c1 where c1: "pc_exec op c = Some (fst (lru_exec op l), c1)" "refines c1 (snd (lru_exec op l))"
    using pc_exec_refines [OF Cons.prems(1), of op] Cons.prems(2) by auto
  obtain c2 where "pc_run ops c1 = Some (fst (lru_run ops (snd (lru_exec op l))), c2)"
    "refines c2 (snd (lru_run ops (snd (lru_exec op l))))"
    using Cons.IH [OF c1(2)] Cons.prems(2) by auto
  then show ?case using c1(1) by (auto simp: case_prod_unfold Let_def)
qed simp

lemma cache_new_refines:
  assumes "0 < cap"
  shows "\<exists>c. cache_new cap pages = Some c \<and> refines c (lru_new cap pages)"
proof -
  let ?c = "\<lparr>pc_capacity = cap, pc_map = hm_new cap, pc_head = None, pc_tail = None, pc_heap = fmempty, pc_fresh = 0, pc_pages = pages\<rparr>"
  have "pc_rep ?c []" using hm_new_ok [OF assms] by (simp add: pc_rep_def linked_def hm.indexes_def)
  moreover have "lru_of ?c [] = lru_new cap pages" by (simp add: lru_of_def lru_new_def items_of_def)
  ultimately show ?thesis using assms by (auto simp: cache_new_def refines_def)
qed

end
