(* ===== verification/PageCacheProps.thy ===== *)
theory PageCacheProps
  imports PageCacheLru
begin

text \<open>
  The properties of the page cache: for every sequence of operations its outputs are those of the
  abstract LRU cache and no pointer is misused; the capacity is respected; pages that are locked
  or dirty stay cached; clearing and dropping free every entry exactly once.
\<close>

section \<open>The abstract cache\<close>

definition lru_ok :: "lru \<Rightarrow> bool" where
  "lru_ok l \<longleftrightarrow> distinct (map fst (lru_items l))"

definition pinned :: "lru \<Rightarrow> page_ref \<Rightarrow> bool" where
  "pinned l pg \<longleftrightarrow> pg_locked (lru_pages l pg) \<or> pg_dirty (lru_pages l pg)"

lemma refines_ok: "refines c l \<Longrightarrow> lru_ok l"
  by (auto simp: refines_def lru_ok_def lru_of_def rep_keys)

lemma map_of_without [simp]: "map_of (without k xs) j = (if j = k then None else map_of xs j)"
  by (induction xs) (auto simp: without_def)

lemma length_without:
  "distinct (map fst xs) \<Longrightarrow> k \<in> fst ` set xs \<Longrightarrow> length (without k xs) + 1 = length xs"
proof (induction xs)
  case (Cons x xs)
  have "without k xs = xs" if "k \<notin> fst ` set xs" using that unfolding without_def filter_id_conv by force
  then show ?case using Cons by (auto simp: without_def)
qed simp

lemma clean_flags [simp]:
  "pg_locked (clean pg f q) = pg_locked (f q)" "pg_dirty (clean pg f q) = pg_dirty (f q)"
  by (simp_all add: clean_def)

lemma lru_delete_props:
  assumes "lru_ok l" "lru_delete k l = (r, l')"
  shows "lru_ok l'" "lru_capacity l' = lru_capacity l" "pinned l' = pinned l"
    "map_of (lru_items l) j = Some pg \<Longrightarrow> pinned l pg \<Longrightarrow> map_of (lru_items l') j = Some pg"
    "j \<noteq> k \<Longrightarrow> map_of (lru_items l') j = map_of (lru_items l) j"
    "k \<in> fst ` set (lru_items l) \<Longrightarrow> length (lru_items l') + (case r of Inl _ \<Rightarrow> 0 | Inr _ \<Rightarrow> 1) = length (lru_items l)"
proof -
  show "lru_ok l'" using assms
    by (auto simp: lru_ok_def lru_delete_def without_def distinct_map_filter split: option.splits if_splits)
  show "lru_capacity l' = lru_capacity l" "pinned l' = pinned l"
    using assms(2) by (auto simp: lru_delete_def pinned_def fun_eq_iff split: option.splits if_splits)
  show "map_of (lru_items l) j = Some pg \<Longrightarrow> pinned l pg \<Longrightarrow> map_of (lru_items l') j = Some pg"
    using assms(2) by (auto simp: lru_delete_def pinned_def split: option.splits if_splits)
  show "j \<noteq> k \<Longrightarrow> map_of (lru_items l') j = map_of (lru_items l) j"
    using assms(2) by (auto simp: lru_delete_def split: option.splits if_splits)
  show "k \<in> fst ` set (lru_items l) \<Longrightarrow> length (lru_items l') + (case r of Inl _ \<Rightarrow> 0 | Inr _ \<Rightarrow> 1) = length (lru_items l)"
    using assms length_without [of "lru_items l" k]
    by (auto simp: lru_delete_def lru_ok_def map_of_eq_None_iff split: option.splits if_splits)
qed

lemma lru_evict_props:
  assumes "lru_ok l" "distinct ks" "set ks \<subseteq> fst ` set (lru_items l)" "lru_evict need ks l = (need', l')"
  shows "lru_ok l' \<and> lru_capacity l' = lru_capacity l \<and> pinned l' = pinned l \<and> need' \<le> need \<and>
    length (lru_items l') + need = length (lru_items l) + need' \<and>
    (\<forall>j pg. map_of (lru_items l) j = Some pg \<and> pinned l pg \<longrightarrow> map_of (lru_items l') j = Some pg)"
  using assms
proof (induction ks arbitrary: need l)
  case (Cons k ks)
  show ?case
  proof (cases "need = 0")
    case False
    obtain r l1 where d: "lru_delete k l = (r, l1)" by (cases "lru_delete k l")
    note pr = lru_delete_props [OF Cons.prems(1) d]
    have sub: "set ks \<subseteq> fst ` set (lru_items l1)"
    proof
      fix j assume "j \<in> set ks"
      then have "map_of (lru_items l) j \<noteq> None" "j \<noteq> k" using Cons.prems(2,3) by (auto simp: map_of_eq_None_iff)
      then have "map_of (lru_items l1) j \<noteq> None" using pr(5) by simp
      then show "j \<in> fst ` set (lru_items l1)" by (simp add: map_of_eq_None_iff)
    qed
    let ?n = "case r of Inl _ \<Rightarrow> need | Inr _ \<Rightarrow> need - 1"
    have "lru_evict ?n ks l1 = (need', l')" using Cons.prems(4) d False by simp
    note IH = Cons.IH [OF pr(1) _ sub this]
    have "length (lru_items l1) + need = length (lru_items l) + ?n" "?n \<le> need"
      using pr(6) Cons.prems(3) False by (auto split: sum.splits)
    then show ?thesis using IH Cons.prems(2) pr(2,3,4) by auto
  qed (use Cons.prems in auto)
qed auto

lemma lru_make_room_props:
  assumes "lru_ok l" "lru_make_room n l = (r, l')"
  shows "lru_ok l'" "lru_capacity l' = lru_capacity l"
    "r = Inr () \<Longrightarrow> n + length (lru_items l') \<le> lru_capacity l"
    "length (lru_items l') \<le> length (lru_items l)"
    "map_of (lru_items l) j = Some pg \<Longrightarrow> pinned l pg \<Longrightarrow> map_of (lru_items l') j = Some pg"
proof -
  let ?need = "n + length (lru_items l) - lru_capacity l"
  obtain need' l1 where ev: "lru_evict ?need (rev (map fst (lru_items l))) l = (need', l1)" by (meson surj_pair)
  have pr: "lru_ok l1 \<and> lru_capacity l1 = lru_capacity l \<and> pinned l1 = pinned l \<and> need' \<le> ?need \<and>
    length (lru_items l1) + ?need = length (lru_items l) + need' \<and>
    (\<forall>j pg. map_of (lru_items l) j = Some pg \<and> pinned l pg \<longrightarrow> map_of (lru_items l1) j = Some pg)"
    using assms(1) ev by (intro lru_evict_props) (auto simp: lru_ok_def)
  show "lru_ok l'" "lru_capacity l' = lru_capacity l" "r = Inr () \<Longrightarrow> n + length (lru_items l') \<le> lru_capacity l"
    "length (lru_items l') \<le> length (lru_items l)"
    "map_of (lru_items l) j = Some pg \<Longrightarrow> pinned l pg \<Longrightarrow> map_of (lru_items l') j = Some pg"
    using assms pr by (auto simp: lru_make_room_def ev Let_def split: if_splits)
qed

lemma lru_peek_props:
  assumes "lru_ok l" "lru_peek k t l = (r, l')"
  shows "lru_ok l'" "lru_capacity l' = lru_capacity l" "lru_pages l' = lru_pages l" "length (lru_items l') = length (lru_items l)"
    "map_of (lru_items l') = map_of (lru_items l)" "r = map_of (lru_items l) k"
proof -
  show "lru_ok l'" using assms
    by (auto simp: lru_ok_def lru_peek_def without_def distinct_map_filter split: option.splits if_splits)
  show "lru_capacity l' = lru_capacity l" "lru_pages l' = lru_pages l" "r = map_of (lru_items l) k"
    using assms(2) by (auto simp: lru_peek_def split: option.splits if_splits)
  show "map_of (lru_items l') = map_of (lru_items l)"
    using assms(2) by (auto simp: lru_peek_def fun_eq_iff split: option.splits if_splits)
  show "length (lru_items l') = length (lru_items l)"
    using assms length_without [of "lru_items l" k]
    by (auto simp: lru_peek_def lru_ok_def split: option.splits if_splits dest!: map_of_SomeD) (force simp: image_iff)
qed

lemma lru_insert_cases:
  assumes "lru_ok l" "lru_insert k pg l = (r, l')"
  obtains l1 where "map_of (lru_items l) k \<noteq> None" "r \<noteq> Inr ()" "lru_peek k True l = (map_of (lru_items l) k, l1)" "l' = l1"
  | "map_of (lru_items l) k = None" "lru_make_room 1 l = (r, l')" "r \<noteq> Inr ()"
  | l1 where "map_of (lru_items l) k = None" "lru_make_room 1 l = (Inr (), l1)" "r = Inr ()"
    "l' = l1\<lparr>lru_items := (k, pg) # lru_items l1\<rparr>"
proof (cases "map_of (lru_items l) k")
  case None
  then have p: "lru_peek k True l = (None, l)" by (simp add: lru_peek_def)
  obtain r1 l1 where m: "lru_make_room 1 l = (r1, l1)" by (cases "lru_make_room 1 l")
  show ?thesis
  proof (cases r1)
    case (Inl e)
    then have "r = Inl e" "l' = l1" using p m assms(2) by (simp_all add: lru_insert_def)
    then show ?thesis using that(2) None m Inl by simp
  next
    case (Inr u)
    then have "r = Inr ()" "l' = l1\<lparr>lru_items := (k, pg) # lru_items l1\<rparr>" using p m assms(2) by (simp_all add: lru_insert_def)
    then show ?thesis using that(3) [of l1] None m Inr by simp
  qed
next
  case (Some pg')
  obtain r1 l1 where p: "lru_peek k True l = (r1, l1)" by (cases "lru_peek k True l")
  then have "r1 = Some pg'" using lru_peek_props(6) [OF assms(1) p] Some by simp
  then have "r \<noteq> Inr ()" "l' = l1" using p assms(2) by (auto simp: lru_insert_def)
  then show ?thesis using that(1) [of l1] Some p \<open>r1 = Some pg'\<close> by simp
qed

lemma lru_exec_pinned:
  assumes ok: "lru_ok l" and k: "map_of (lru_items l) k = Some pg" "pinned l pg"
  shows "map_of (lru_items (snd (lru_exec op l))) k = Some pg"
proof (cases op)
  case (PInsert j pg')
  obtain r l' where i: "lru_insert j pg' l = (r, l')" by (cases "lru_insert j pg' l")
  show ?thesis
    using ok i
  proof (cases rule: lru_insert_cases)
    case (1 l1)
    then show ?thesis using lru_peek_props(5) [OF ok 1(3)] k i PInsert by simp
  next
    case 2
    then show ?thesis using lru_make_room_props(5) [OF ok 2(2) k] i PInsert by simp
  next
    case (3 l1)
    have "j \<noteq> k" using 3(1) k(1) by auto
    then show ?thesis using lru_make_room_props(5) [OF ok 3(2) k] i PInsert 3(4) by simp
  qed
next
  case (PGet j)
  then show ?thesis using lru_peek_props(5) [OF ok, of j True] k(1) by (cases "lru_peek j True l") simp
next
  case (PPeek j)
  then show ?thesis using lru_peek_props(5) [OF ok, of j False] k(1) by (cases "lru_peek j False l") simp
next
  case (PDelete j)
  then show ?thesis using lru_delete_props(4) [OF ok _ k, of j] by (cases "lru_delete j l") simp
next
  case (PRoom n)
  then show ?thesis using lru_make_room_props(5) [OF ok _ k, of n] by (cases "lru_make_room n l") simp
next
  case (PResize cap)
  have "lru_ok (l\<lparr>lru_capacity := cap\<rparr>)" "pinned (l\<lparr>lru_capacity := cap\<rparr>) pg" using ok k(2) by (simp_all add: lru_ok_def pinned_def)
  then show ?thesis
    using lru_make_room_props(5) [of "l\<lparr>lru_capacity := cap\<rparr>" 0] k(1) PResize
    by (cases "lru_make_room 0 (l\<lparr>lru_capacity := cap\<rparr>)") (auto simp: lru_resize_def split: sum.splits)
qed (use k in \<open>auto simp: lru_unset_dirty_def\<close>)

lemma lru_exec_capacity:
  assumes ok: "lru_ok l" and len: "length (lru_items l) \<le> lru_capacity l" and op: "\<forall>cap. op \<noteq> PResize cap"
  shows "lru_ok (snd (lru_exec op l)) \<and> length (lru_items (snd (lru_exec op l))) \<le> lru_capacity (snd (lru_exec op l)) \<and>
    lru_capacity (snd (lru_exec op l)) = lru_capacity l"
proof (cases op)
  case (PInsert j pg')
  obtain r l' where i: "lru_insert j pg' l = (r, l')" by (cases "lru_insert j pg' l")
  show ?thesis
    using ok i
  proof (cases rule: lru_insert_cases)
    case (1 l1)
    then show ?thesis using lru_peek_props(1,2,4) [OF ok 1(3)] len i PInsert by simp
  next
    case 2
    then show ?thesis using lru_make_room_props(1,2,4) [OF ok 2(2)] len i PInsert by simp
  next
    case (3 l1)
    note pr = lru_make_room_props(1-3) [OF ok 3(2)]
    have "j \<notin> fst ` set (lru_items l1)"
      using 3(1) lru_make_room_keys [of 1 l] unfolding 3(2) map_of_eq_None_iff by auto
    then show ?thesis using pr len i PInsert 3(4) by (auto simp: lru_ok_def)
  qed
next
  case (PGet j)
  moreover obtain r l' where p: "lru_peek j True l = (r, l')" by (cases "lru_peek j True l")
  ultimately show ?thesis using lru_peek_props(1,2,4) [OF ok p] len by simp
next
  case (PPeek j)
  moreover obtain r l' where p: "lru_peek j False l = (r, l')" by (cases "lru_peek j False l")
  ultimately show ?thesis using lru_peek_props(1,2,4) [OF ok p] len by simp
next
  case (PDelete j)
  obtain r l' where d: "lru_delete j l = (r, l')" by (cases "lru_delete j l")
  have "length (lru_items l') \<le> length (lru_items l)"
    using d by (auto simp: lru_delete_def without_def split: option.splits if_splits intro: le_trans [OF length_filter_le])
  then show ?thesis using lru_delete_props(1,2) [OF ok d] len d PDelete by simp
next
  case (PRoom n)
  moreover obtain r l' where p: "lru_make_room n l = (r, l')" by (cases "lru_make_room n l")
  ultimately show ?thesis using lru_make_room_props(1,2,4) [OF ok p] len by simp
qed (use ok len op in \<open>auto simp: lru_unset_dirty_def lru_ok_def\<close>)

lemma lru_run_capacity:
  assumes "lru_ok l" "length (lru_items l) \<le> lru_capacity l" "\<forall>op\<in>set ops. \<forall>cap. op \<noteq> PResize cap"
  shows "length (lru_items (snd (lru_run ops l))) \<le> lru_capacity (snd (lru_run ops l)) \<and>
    lru_capacity (snd (lru_run ops l)) = lru_capacity l"
  using assms
proof (induction ops arbitrary: l)
  case (Cons op ops)
  have e: "lru_ok (snd (lru_exec op l))" "length (lru_items (snd (lru_exec op l))) \<le> lru_capacity (snd (lru_exec op l))"
    "lru_capacity (snd (lru_exec op l)) = lru_capacity l"
    using lru_exec_capacity [OF Cons.prems(1,2), of op] Cons.prems(3) by auto
  show ?case using Cons.IH [OF e(1,2)] Cons.prems(3) e(3) by (simp add: case_prod_unfold Let_def)
qed simp

section \<open>Reachable caches\<close>

text \<open>A cache after any sequence of operations, none of which sets the capacity to 0.\<close>

definition reached :: "nat \<Rightarrow> (page_ref \<Rightarrow> page_state) \<Rightarrow> pc_op list \<Rightarrow> page_cache \<Rightarrow> bool" where
  "reached cap pages ops c \<longleftrightarrow> PResize 0 \<notin> set ops \<and>
     (\<exists>c0 outs. cache_new cap pages = Some c0 \<and> pc_run ops c0 = Some (outs, c))"

lemma cache_new_cap: "cache_new cap pages = Some c \<Longrightarrow> 0 < cap"
  by (auto simp: cache_new_def split: if_splits)

lemma reached_refines:
  assumes "reached cap pages ops c"
  shows "refines c (snd (lru_run ops (lru_new cap pages)))"
proof -
  obtain c0 outs where r: "PResize 0 \<notin> set ops" "cache_new cap pages = Some c0" "pc_run ops c0 = Some (outs, c)"
    using assms by (auto simp: reached_def)
  have "refines c0 (lru_new cap pages)" using cache_new_refines [OF cache_new_cap [OF r(2)], of pages] r(2) by auto
  from pc_run_refines [OF this r(1)] show ?thesis using r(3) by auto
qed

lemma reached_rep: "reached cap pages ops c \<Longrightarrow> \<exists>ps. pc_rep c ps"
  by (drule reached_refines) (auto simp: refines_def)

lemma peek_False_eq:
  assumes "pc_rep c ps"
  shows "peek k False c = Some (map_of (items_of c ps) k, c)"
  using assms
proof (cases rule: rep_lookup [where k = k])
  case absent
  then show ?thesis by (simp add: peek_def get_ptr_def hm.get_eq [OF hm_ok_rep [OF assms]])
next
  case (present xs q ys e)
  then show ?thesis by (simp add: peek_def get_ptr_def hm.get_eq [OF hm_ok_rep [OF assms]] deref_def)
qed

lemma refines_peek: "refines c l \<Longrightarrow> peek k False c = Some (map_of (lru_items l) k, c)"
  by (auto simp: refines_def lru_of_def peek_False_eq)

section \<open>Clearing and dropping\<close>

lemma clear_step:
  assumes rep: "pc_rep c (q # ps)" and e: "fmlookup (pc_heap c) q = Some e"
    and free: "\<not> pg_locked (pc_pages c (pe_page e))" "\<not> pg_dirty (pc_pages c (pe_page e))"
  shows "\<exists>c'. clear_loop (Some q) c = clear_loop (first_of ps None) c' \<and> pc_rep c' ps \<and>
    pc_pages c' = clean (pe_page e) (pc_pages c) \<and> pc_capacity c' = pc_capacity c \<and>
    (\<forall>p\<in>set ps. content c' p = content c p)"
proof -
  have key: "key_of c q = pe_key e" using e by (simp add: key_of_def content_def)
  have d: "distinct ([] @ q # ps)" using rep_distinct [OF rep] by simp
  have idx: "hm.indexes (pc_map c) (key_of c) ([] @ q # ps)" using rep by (simp add: pc_rep_def)
  obtain h where h: "hm_remove (pe_key e) (pc_map c) = Some (h, Some q)" "hm.indexes h (key_of c) ps"
    using hm.indexes_rem [OF idx d] key by auto
  let ?c = "c\<lparr>pc_map := h, pc_pages := clean (pe_page e) (pc_pages c)\<rparr>"
  have "linked ?c ([] @ q # ps)" using rep by (simp add: pc_rep_def linked_def)
  then obtain c1 e1 where c1: "unlink q ?c = Some c1" "linked c1 ([] @ ps)" "same_frame ?c c1" "fmlookup (pc_heap c1) q = Some e1"
    using unlink_linked by blast
  define c' where "c' = c1\<lparr>pc_heap := fmdrop q (pc_heap c1)\<rparr>"
  have fr: "content c1 = content c" "pc_map c1 = h" "pc_fresh c1 = pc_fresh c" "pc_capacity c1 = pc_capacity c"
    "pc_pages c1 = clean (pe_page e) (pc_pages c)"
    using c1(3) by (simp_all add: same_frame_def content_def fun_eq_iff)
  have cont: "content c' p = content c p" if "p \<in> set ps" for p
    using that d fr(1) by (auto simp: c'_def content_def fun_eq_iff)
  have "pe_next e = first_of ps None" using rep e by (simp add: pc_rep_def linked_def)
  then have "clear_loop (Some q) c = clear_loop (first_of ps None) c'"
    using e free h(1) c1 fr(5)
    by (subst clear_loop.simps) (simp add: deref_def detach_def free_entry_def c'_def)
  moreover have "linked c' ps" using c1(2) d by (simp add: linked_def c'_def dlist_frame_drop)
  moreover have "p |\<in>| fmdom (pc_heap c') \<longleftrightarrow> p \<in> set ps" for p
    using rep d dom_content [of p c] dom_content [of p c1] fr(1) by (auto simp: c'_def pc_rep_def)
  moreover have "hm.indexes h (key_of c') ps"
    by (rule hm.indexes_cong [OF h(2)]) (simp_all add: key_of_def cont)
  ultimately have "pc_rep c' ps" using rep fr by (auto simp: pc_rep_def c'_def)
  then show ?thesis
    using \<open>clear_loop (Some q) c = clear_loop (first_of ps None) c'\<close> cont fr by (auto simp: c'_def)
qed

lemma clear_loop_ok:
  assumes "pc_rep c ps" "\<forall>x\<in>set (items_of c ps). \<not> pg_locked (pc_pages c (snd x)) \<and> \<not> pg_dirty (pc_pages c (snd x))"
  shows "\<exists>c'. clear_loop (first_of ps None) c = Some (Inr (), c') \<and> pc_rep c' [] \<and> pc_capacity c' = pc_capacity c"
  using assms
proof (induction ps arbitrary: c)
  case Nil
  then show ?case by (subst clear_loop.simps) simp
next
  case (Cons q ps)
  obtain e where e: "fmlookup (pc_heap c) q = Some e" "content c q = Some (pe_key e, pe_page e)"
    using rep_content [OF Cons.prems(1), of q] by auto
  have "\<not> pg_locked (pc_pages c (pe_page e))" "\<not> pg_dirty (pc_pages c (pe_page e))"
    using Cons.prems(2) e(2) by (auto simp: items_of_def)
  then obtain c' where c': "clear_loop (Some q) c = clear_loop (first_of ps None) c'" "pc_rep c' ps"
    "pc_pages c' = clean (pe_page e) (pc_pages c)" "pc_capacity c' = pc_capacity c" "\<forall>p\<in>set ps. content c' p = content c p"
    using clear_step [OF Cons.prems(1) e(1)] by blast
  have "items_of c' ps = items_of c ps" using c'(5) by (simp add: items_of_def)
  then have "\<forall>x\<in>set (items_of c' ps). \<not> pg_locked (pc_pages c' (snd x)) \<and> \<not> pg_dirty (pc_pages c' (snd x))"
    using Cons.prems(2) by (simp add: c'(3) items_of_def)
  then show ?case using Cons.IH [OF c'(2)] c'(1,4) by simp
qed

lemma rep_Nil_heap: "pc_rep c [] \<Longrightarrow> pc_heap c = fmempty"
  by (intro fmap_ext) (auto simp: pc_rep_def fmdom_notI fmdom_notD)

lemma drop_loop_ok:
  assumes "dlist (pc_heap c) prv ps None" "distinct ps"
  shows "\<exists>c'. drop_loop (first_of ps None) c = Some c' \<and>
    (\<forall>q. fmlookup (pc_heap c') q = (if q \<in> set ps then None else fmlookup (pc_heap c) q))"
  using assms
proof (induction ps arbitrary: c prv)
  case Nil
  then show ?case by (subst drop_loop.simps) simp
next
  case (Cons q ps)
  obtain e where e: "fmlookup (pc_heap c) q = Some e" "pe_next e = first_of ps None" using Cons.prems(1) by auto
  let ?c = "c\<lparr>pc_heap := fmdrop q (pc_heap c)\<rparr>"
  have "dlist (pc_heap ?c) (Some q) ps None" using Cons.prems by (simp add: dlist_frame_drop)
  then obtain c' where c': "drop_loop (first_of ps None) ?c = Some c'"
    "\<forall>q. fmlookup (pc_heap c') q = (if q \<in> set ps then None else fmlookup (pc_heap ?c) q)"
    using Cons.IH Cons.prems(2) by (meson distinct.simps(2))
  have "drop_loop (first_of (q # ps) None) c = drop_loop (first_of ps None) ?c"
    using e by (subst drop_loop.simps) (simp add: deref_def free_entry_def)
  then show ?case using c' by auto
qed

section \<open>Properties\<close>


text \<open>Concrete runs.\<close>

abbreviation (input) idle :: "page_ref \<Rightarrow> page_state" where
  "idle \<equiv> (\<lambda>_. \<lparr>pg_locked = False, pg_dirty = False, pg_loaded = True, pg_contents = True\<rparr>)"

abbreviation (input) idle_dirty :: page_state where
  "idle_dirty \<equiv> \<lparr>pg_locked = False, pg_dirty = True, pg_loaded = True, pg_contents = True\<rparr>"

lemmas lru_defs = lru_new_def lru_insert_def lru_peek_def lru_make_room_def lru_delete_def without_def clean_def Let_def


text \<open>
  Capacity and ownership: as long as the capacity is not changed, the cache never holds more
  entries than its capacity, and the heap holds exactly one entry per cached key, so that no
  entry is leaked.
\<close>
theorem page_cache_capacity:
  assumes "reached cap pages ops c" and "\<forall>op\<in>set ops. \<forall>n. op \<noteq> PResize n"
  shows "cache_len c \<le> cap \<and> pc_capacity c = cap \<and> fcard (fmdom (pc_heap c)) = cache_len c"
proof -
  have ref: "refines c (snd (lru_run ops (lru_new cap pages)))" using assms(1) by (rule reached_refines)
  then obtain ps where ps: "pc_rep c ps" "snd (lru_run ops (lru_new cap pages)) = lru_of c ps" by (auto simp: refines_def)
  have "lru_ok (lru_new cap pages)" "length (lru_items (lru_new cap pages)) \<le> lru_capacity (lru_new cap pages)"
    "lru_capacity (lru_new cap pages) = cap" by (simp_all add: lru_new_def lru_ok_def)
  then have "length (lru_items (lru_of c ps)) \<le> cap \<and> lru_capacity (lru_of c ps) = cap"
    using lru_run_capacity [of "lru_new cap pages" ops] assms(2) unfolding ps(2) by simp
  moreover have "fcard (fmdom (pc_heap c)) = length ps"
    using ps(1) rep_distinct [OF ps(1)] by (simp add: fcard.rep_eq pc_rep_def distinct_card)
  ultimately show ?thesis using len_rep [OF ps(1)] by (simp add: lru_of_def)
qed

lemma reached_run:
  "0 < cap \<Longrightarrow> PResize 0 \<notin> set ops \<Longrightarrow> \<exists>c. reached cap pages ops c"
  using cache_new_refines [of cap pages] pc_run_refines [of _ "lru_new cap pages" ops]
  by (fastforce simp: reached_def)

theorem page_cache_capacity_witness:
  "\<exists>c. reached 2 idle [PInsert 7 1, PInsert 9 2, PInsert 5 2] c \<and>
    cache_len c \<le> 2 \<and> pc_capacity c = 2 \<and> fcard (fmdom (pc_heap c)) = cache_len c"
proof -
  obtain c where "reached 2 idle [PInsert 7 1, PInsert 9 2, PInsert 5 2] c"
    using reached_run [of 2 "[PInsert 7 1, PInsert 9 2, PInsert 5 2]" idle] by auto
  then show ?thesis using page_cache_capacity [of 2 idle "[PInsert 7 1, PInsert 9 2, PInsert 5 2]" c] by auto
qed



lemma lru_delete_map_of: "map_of (lru_items (snd (lru_delete k l))) j \<in> {None, map_of (lru_items l) j}"
  by (auto simp: lru_delete_def split: option.splits)

lemma lru_evict_map_of: "map_of (lru_items (snd (lru_evict n ks l))) j \<in> {None, map_of (lru_items l) j}"
proof (induction ks arbitrary: n l)
  case (Cons k ks)
  obtain r l' where l': "lru_delete k l = (r, l')" by (cases "lru_delete k l")
  show ?case
    using Cons.IH [of "case r of Inl _ \<Rightarrow> n | Inr _ \<Rightarrow> n - 1" l'] lru_delete_map_of [of k l j] by (auto simp: l' Let_def)
qed simp

lemma lru_make_room_map_of: "map_of (lru_items (snd (lru_make_room n l))) j \<in> {None, map_of (lru_items l) j}"
  unfolding lru_make_room_def Let_def case_prod_unfold using lru_evict_map_of by simp

text \<open>
  Insert and lookup: after a successful insertion the key is looked up to the inserted page,
  and every other key either to what it was looked up to before or, when it had to make room, to
  nothing.
\<close>
theorem insert_then_get:
  assumes "reached cap pages ops c" "cache_insert k pg c = Some (Inr (), c')"
  shows "peek k False c = Some (None, c) \<and> (\<exists>c''. cache_get k c' = Some (Some pg, c'')) \<and>
    (\<forall>j. j \<noteq> k \<longrightarrow> fst (the (peek j False c')) \<in> {None, fst (the (peek j False c))})"
proof -
  let ?l = "snd (lru_run ops (lru_new cap pages))"
  have ref: "refines c ?l" using assms(1) by (rule reached_refines)
  obtain r l' where i: "lru_insert k pg ?l = (r, l')" by (cases "lru_insert k pg ?l")
  have r: "r = Inr ()" and ref': "refines c' l'" using pc_exec_refines [OF ref, of "PInsert k pg"] assms(2) i by auto
  obtain l1 where l1: "map_of (lru_items ?l) k = None" "lru_make_room 1 ?l = (Inr (), l1)"
    "l' = l1\<lparr>lru_items := (k, pg) # lru_items l1\<rparr>"
    using refines_ok [OF ref] i by (cases rule: lru_insert_cases) (use r in auto)
  have "\<exists>c''. cache_get k c' = Some (Some pg, c'')"
    using pc_exec_refines [OF ref', of "PGet k"] by (auto simp: lru_peek_def l1(3))
  moreover have "fst (the (peek j False c')) \<in> {None, fst (the (peek j False c))}" if "j \<noteq> k" for j
    using lru_make_room_map_of [of 1 ?l j] that unfolding l1(2) by (simp add: refines_peek [OF ref'] refines_peek [OF ref] l1(3))
  ultimately show ?thesis using l1(1) by (simp add: refines_peek [OF ref])
qed

theorem insert_then_get_witness:
  "\<exists>c c' c''. reached 1 idle [PInsert 7 1] c \<and> cache_insert 9 2 c = Some (Inr (), c') \<and> cache_get 9 c' = Some (Some 2, c'')"
proof -
  obtain c where c: "reached 1 idle [PInsert 7 1] c" using reached_run [of 1 "[PInsert 7 1]" idle] by auto
  have l: "snd (lru_run [PInsert 7 1] (lru_new 1 idle)) = \<lparr>lru_capacity = 1, lru_items = [(7, 1)], lru_pages = idle\<rparr>"
    by (simp add: lru_defs)
  have ref: "refines c \<lparr>lru_capacity = 1, lru_items = [(7, 1)], lru_pages = idle\<rparr>" using reached_refines [OF c] unfolding l .
  obtain c' where "cache_insert 9 2 c = Some (Inr (), c')"
    using pc_exec_refines [OF ref, of "PInsert 9 2"] by (auto simp: lru_defs)
  then show ?thesis using insert_then_get [OF c] c by blast
qed

text \<open>
  Clearing a reachable cache none of whose pages is locked or dirty succeeds, frees every
  entry and leaves an empty cache.
\<close>
theorem clear_frees_all:
  assumes "reached cap pages ops c"
    and "\<forall>k pg. peek k False c = Some (Some pg, c) \<longrightarrow> \<not> pg_locked (pc_pages c pg) \<and> \<not> pg_dirty (pc_pages c pg)"
  shows "\<exists>c'. cache_clear c = Some (Inr (), c') \<and> pc_heap c' = fmempty \<and> cache_len c' = 0 \<and> pc_head c' = None \<and> pc_tail c' = None"
proof -
  obtain ps where ps: "pc_rep c ps" using reached_rep [OF assms(1)] by blast
  have "\<not> pg_locked (pc_pages c (snd x)) \<and> \<not> pg_dirty (pc_pages c (snd x))" if "x \<in> set (items_of c ps)" for x
  proof -
    have "map_of (items_of c ps) (fst x) = Some (snd x)"
      using that rep_keys [OF ps] by (intro map_of_is_SomeI) simp_all
    then show ?thesis using assms(2) peek_False_eq [OF ps] by simp
  qed
  then obtain c' where c': "clear_loop (first_of ps None) c = Some (Inr (), c')" "pc_rep c' []"
    using clear_loop_ok [OF ps] by blast
  have "pc_head c = first_of ps None" using ps by (simp add: pc_rep_def linked_def)
  then show ?thesis
    using c' len_rep [OF c'(2)] rep_Nil_heap [OF c'(2)] by (simp add: cache_clear_def cache_len_def hm_is_empty_def hm_len_def)
qed

theorem clear_frees_all_witness:
  "\<exists>c c'. reached 2 idle [PInsert 7 1] c \<and> cache_clear c = Some (Inr (), c') \<and> pc_heap c' = fmempty"
proof -
  obtain c where c: "reached 2 idle [PInsert 7 1] c" using reached_run [of 2 "[PInsert 7 1]" idle] by auto
  have l: "snd (lru_run [PInsert 7 1] (lru_new 2 idle)) = \<lparr>lru_capacity = 2, lru_items = [(7, 1)], lru_pages = idle\<rparr>"
    by (simp add: lru_defs)
  have "pc_pages c = idle" using reached_refines [OF c] unfolding l by (auto simp: refines_def lru_of_def)
  then show ?thesis using clear_frees_all [OF c] c by auto
qed

text \<open>
  C30. Dropping a reachable cache frees every entry exactly once: it neither frees an entry twice
  nor follows a freed pointer, and nothing is left on the heap.
\<close>
theorem drop_frees_all:
  assumes "reached cap pages ops c"
  shows "\<exists>c'. cache_drop c = Some c' \<and> pc_heap c' = fmempty"
proof -
  obtain ps where ps: "pc_rep c ps" using reached_rep [OF assms] by blast
  then have l: "dlist (pc_heap c) None ps None" "distinct ps" "pc_head c = first_of ps None"
    by (auto simp: pc_rep_def linked_def)
  obtain c' where c': "drop_loop (first_of ps None) c = Some c'"
    "\<forall>q. fmlookup (pc_heap c') q = (if q \<in> set ps then None else fmlookup (pc_heap c) q)"
    using drop_loop_ok [OF l(1,2)] by blast
  have "fmlookup (pc_heap c') q = None" for q
    using c'(2) ps by (auto simp: pc_rep_def fmdom_notD)
  then have "pc_heap c' = fmempty" by (intro fmap_ext) simp
  then show ?thesis using c'(1) l(3) by (simp add: cache_drop_def)
qed

theorem drop_frees_all_witness:
  "\<exists>c c'. reached 2 idle [PInsert 7 1, PInsert 9 2] c \<and> cache_drop c = Some c' \<and> pc_heap c' = fmempty"
proof -
  obtain c where c: "reached 2 idle [PInsert 7 1, PInsert 9 2] c"
    using reached_run [of 2 "[PInsert 7 1, PInsert 9 2]" idle] by auto
  show ?thesis using drop_frees_all [OF c] c by blast
qed

section \<open>Where the contract ends\<close>

lemmas cache_defs = cache_new_def hm_new_def cache_insert_def insert_ignore_existing_def insert_page_def cache_get_def peek_def
  get_ptr_def hm_get_def hm_bucket_def hm_hash_def slice_get_def make_room_for_def cache_len_def hm_len_def touch_def
  modify_def deref_def hm_insert_def cache_delete_def delete_page_def contains_key_def hm_contains_key_def detach_def
  unlink_def clean_def hm_remove_def free_entry_def cache_clear_def Let_def evict_loop.simps clear_loop.simps

text \<open>
  Outside the contract: after \<open>insert_ignore_existing\<close> for a key that is already cached the old
  entry stays in the list. Evicting it later removes nothing, so that a cache of capacity 2 ends
  up with 3 cached pages.
\<close>
theorem insert_ignore_existing_overflows:
  "(do { c \<leftarrow> cache_new 2 idle;
         (_, c) \<leftarrow> cache_insert 1 10 c;
         (_, c) \<leftarrow> insert_ignore_existing 1 11 c;
         (_, c) \<leftarrow> cache_delete 1 c;
         (_, c) \<leftarrow> cache_insert 2 12 c;
         (_, c) \<leftarrow> cache_insert 3 13 c;
         (r, c) \<leftarrow> cache_insert 4 14 c;
         Some (r, pc_capacity c, cache_len c, fcard (fmdom (pc_heap c))) }) = Some (Inr (), 2, 3, 4)"
  by (simp add: cache_defs fcard.rep_eq insert_Diff_if card_insert_if)

text \<open>
  Outside the contract: \<open>clear\<close> stops at the first page that is locked or dirty, but has
  already removed its key, so that the page stays in the list and on the heap and can no longer
  be looked up.
\<close>
theorem failed_clear_loses_key:
  "(do { c \<leftarrow> cache_new 2 (idle(10 := idle_dirty));
         (_, c) \<leftarrow> cache_insert 1 10 c;
         (r, c) \<leftarrow> cache_clear c;
         (pg, c) \<leftarrow> peek 1 False c;
         Some (r, pg, cache_len c, pc_head c, fcard (fmdom (pc_heap c))) }) = Some (Inl Dirty, None, 0, Some 0, 1)"
  by (simp add: cache_defs fcard.rep_eq)

end
