(* ===== verification/RecordFormat.thy ===== *)
theory RecordFormat
  imports Varint
begin

text \<open>
  The record format (\<open>types/mod.rs\<close>, \<open>storage/sqlite3_ondisk/mod.rs\<close>): serial types, the two
  encoders \<open>Record::serialize\<close> and \<open>ImmutableRecord::from_registers\<close>, and the decoder \<open>read_record\<close>
  with its small vector of serial types. A \<open>RawSlice\<close> points into the payload of its record; it
  is modelled by its offset there. A 64-bit float is its bit pattern, which is what the code
  reads and writes.
\<close>

section \<open>Data\<close>

datatype text_subtype = SubText | SubJson

datatype val =
    VNull
  | VInteger i64
  | VFloat u64
  | VText bytes text_subtype
  | VBlob bytes

record raw_slice =
  rs_data :: "nat option"
  rs_len :: nat

datatype ref_value =
    RNull
  | RInteger i64
  | RFloat u64
  | RText raw_slice text_subtype
  | RBlob raw_slice

record immutable_record =
  ir_payload :: bytes
  ir_values :: "ref_value list"
  ir_recreating :: bool

section \<open>Serial types\<close>

type_synonym serial_type = u64

datatype serial_type_kind =
  KNull | KI8 | KI16 | KI24 | KI32 | KI48 | KI64 | KF64 | KConstInt0 | KConstInt1 | KText | KBlob

definition u64_is_valid_serial_type :: "u64 \<Rightarrow> bool" where
  "u64_is_valid_serial_type n = (n \<noteq> 10 \<and> n \<noteq> 11)"

definition st_blob :: "u64 \<Rightarrow> serial_type" where
  "st_blob sz = 12 + sz * 2"

definition st_text :: "u64 \<Rightarrow> serial_type" where
  "st_text sz = 13 + sz * 2"

definition kind :: "serial_type \<Rightarrow> serial_type_kind res" where
  "kind n =
     (if n = 0 then Inr KNull
      else if n = 1 then Inr KI8
      else if n = 2 then Inr KI16
      else if n = 3 then Inr KI24
      else if n = 4 then Inr KI32
      else if n = 5 then Inr KI48
      else if n = 6 then Inr KI64
      else if n = 7 then Inr KF64
      else if n = 8 then Inr KConstInt0
      else if n = 9 then Inr KConstInt1
      else if n \<ge> 12 then (if n mod 2 = 0 then Inr KBlob else Inr KText)
      else Inl Panic)"

definition st_size :: "serial_type \<Rightarrow> nat res" where
  "st_size n = res_bind (kind n) (\<lambda>k. case k of
     KNull \<Rightarrow> Inr 0
   | KI8 \<Rightarrow> Inr 1
   | KI16 \<Rightarrow> Inr 2
   | KI24 \<Rightarrow> Inr 3
   | KI32 \<Rightarrow> Inr 4
   | KI48 \<Rightarrow> Inr 6
   | KI64 \<Rightarrow> Inr 8
   | KF64 \<Rightarrow> Inr 8
   | KConstInt0 \<Rightarrow> Inr 0
   | KConstInt1 \<Rightarrow> Inr 0
   | KText \<Rightarrow> Inr ((unat n - 13) div 2)
   | KBlob \<Rightarrow> Inr ((unat n - 12) div 2))"

text \<open>\<open>impl From<&Value> for SerialType\<close>\<close>

definition serial_type_of :: "val \<Rightarrow> serial_type" where
  "serial_type_of v = (case v of
     VNull \<Rightarrow> 0
   | VInteger i \<Rightarrow>
       if sint i = 0 then 8
       else if sint i = 1 then 9
       else if sint i \<ge> -128 \<and> sint i \<le> 127 then 1
       else if sint i \<ge> -32768 \<and> sint i \<le> 32767 then 2
       else if sint i \<ge> -8388608 \<and> sint i \<le> 8388607 then 3
       else if sint i \<ge> -2147483648 \<and> sint i \<le> 2147483647 then 4
       else if sint i \<ge> -140737488355328 \<and> sint i \<le> 140737488355327 then 5
       else 6
   | VFloat _ \<Rightarrow> 7
   | VText t _ \<Rightarrow> st_text (word_of_nat (length t))
   | VBlob b \<Rightarrow> st_blob (word_of_nat (length b)))"

text \<open>\<open>impl TryFrom<u64> for SerialType\<close>\<close>

definition serial_type_try_from :: "u64 \<Rightarrow> serial_type res" where
  "serial_type_try_from n = (if n = 10 \<or> n = 11 then Inl (Corrupt ''Invalid serial type: '') else Inr n)"

section \<open>Encoders\<close>

text \<open>The \<open>match\<close> on the integer kinds; \<open>allow_const\<close> tells whether its arms include 0 and 1.\<close>

definition int_bytes :: "bool \<Rightarrow> i64 \<Rightarrow> bytes res" where
  "int_bytes allow_const i = res_bind (kind (serial_type_of (VInteger i))) (\<lambda>k. case k of
     KConstInt0 \<Rightarrow> if allow_const then Inr [] else Inl Panic
   | KConstInt1 \<Rightarrow> if allow_const then Inr [] else Inl Panic
   | KI8 \<Rightarrow> Inr (to_be 1 (ucast i :: u8))
   | KI16 \<Rightarrow> Inr (to_be 2 (ucast i :: u16))
   | KI24 \<Rightarrow> Inr (drop 1 (to_be 4 (ucast i :: u32)))
   | KI32 \<Rightarrow> Inr (to_be 4 (ucast i :: u32))
   | KI48 \<Rightarrow> Inr (drop 2 (to_be 8 i))
   | KI64 \<Rightarrow> Inr (to_be 8 i)
   | _ \<Rightarrow> Inl Panic)"

text \<open>\<open>Value::serialize_serial\<close>\<close>

definition serialize_serial :: "val \<Rightarrow> bytes \<Rightarrow> bytes res" where
  "serialize_serial v out = (case v of
     VNull \<Rightarrow> Inr out
   | VInteger i \<Rightarrow> res_bind (int_bytes False i) (\<lambda>b. Inr (out @ b))
   | VFloat f \<Rightarrow> Inr (out @ to_be 8 f)
   | VText t _ \<Rightarrow> Inr (out @ t)
   | VBlob b \<Rightarrow> Inr (out @ b))"

text \<open>
  The loop of \<open>resolve_big_header_size\<close>; \<open>None\<close> would be a loop that never ends.
\<close>

partial_function (option) resolve_loop :: "nat \<Rightarrow> bytes \<Rightarrow> nat \<Rightarrow> nat res option" where
  "resolve_loop tentative scratch n =
     (case write_varint scratch (word_of_nat (tentative + n)) of
        Inl e \<Rightarrow> Some (Inl e)
      | Inr (scratch, m) \<Rightarrow> if m = n then Some (Inr (tentative + n)) else resolve_loop tentative scratch m)"

definition resolve_big_header_size :: "nat \<Rightarrow> nat res option" where
  "resolve_big_header_size tentative =
     (case write_varint (replicate 9 0) (word_of_nat tentative) of
        Inl e \<Rightarrow> Some (Inl e)
      | Inr (scratch, n) \<Rightarrow> resolve_loop tentative scratch n)"

definition full_header_size :: "nat \<Rightarrow> nat res option" where
  "full_header_size header_size =
     (if header_size \<le> 126 then Some (Inr (header_size + 1)) else resolve_big_header_size header_size)"

fun write_serials :: "val list \<Rightarrow> bytes \<Rightarrow> bytes res" where
  "write_serials [] buf = Inr buf"
| "write_serials (v # vs) buf =
     (let buf = buf @ replicate 9 0;
          len = length buf
      in res_bind (write_varint (drop (len - 9) buf) (serial_type_of v)) (\<lambda>(tail, n).
           write_serials vs (take (len - 9 + n) (take (len - 9) buf @ tail))))"

definition write_content :: "val \<Rightarrow> bytes \<Rightarrow> bytes res" where
  "write_content v buf = (case v of
     VNull \<Rightarrow> Inr buf
   | VInteger i \<Rightarrow> res_bind (int_bytes True i) (\<lambda>b. Inr (buf @ b))
   | VFloat f \<Rightarrow> Inr (buf @ to_be 8 f)
   | VText t _ \<Rightarrow> Inr (buf @ t)
   | VBlob b \<Rightarrow> Inr (buf @ b))"

fun write_contents :: "val list \<Rightarrow> bytes \<Rightarrow> bytes res" where
  "write_contents [] buf = Inr buf"
| "write_contents (v # vs) buf = res_bind (write_content v buf) (write_contents vs)"

text \<open>\<open>Record::serialize\<close>\<close>

definition serialize :: "val list \<Rightarrow> bytes \<Rightarrow> bytes res option" where
  "serialize vs buf =
     (let initial_i = length buf in
      case write_serials vs buf of
        Inl e \<Rightarrow> Some (Inl e)
      | Inr buf \<Rightarrow>
          let header_size = length buf - initial_i in
          (case write_contents vs buf of
             Inl e \<Rightarrow> Some (Inl e)
           | Inr buf \<Rightarrow> map_option (\<lambda>r. res_bind r (\<lambda>header_size.
                res_bind (write_varint (replicate 9 0) (word_of_nat header_size)) (\<lambda>(header_bytes, n).
                  Inr (take initial_i buf @ take n header_bytes @ drop initial_i buf)))) (full_header_size header_size)))"

section \<open>The pre-sized encoder\<close>

text \<open>\<open>AppendWriter\<close>: a buffer of fixed size and a position in it.\<close>

record append_writer =
  aw_buf :: bytes
  aw_pos :: nat

definition extend_from_slice :: "bytes \<Rightarrow> append_writer \<Rightarrow> append_writer res" where
  "extend_from_slice s w =
     (if aw_pos w + length s \<le> length (aw_buf w)
      then Inr \<lparr>aw_buf = take (aw_pos w) (aw_buf w) @ s @ drop (aw_pos w + length s) (aw_buf w),
                aw_pos = aw_pos w + length s\<rparr>
      else Inl Panic)"

text \<open>The first loop: the serial types, each with the scratch buffer it was written into.\<close>

fun collect_serials :: "val list \<Rightarrow> bytes \<Rightarrow> (bytes \<times> nat) list \<Rightarrow> nat \<Rightarrow> nat \<Rightarrow> ((bytes \<times> nat) list \<times> nat \<times> nat \<times> bytes) res" where
  "collect_serials [] scratch serials size_header size_values = Inr (serials, size_header, size_values, scratch)"
| "collect_serials (v # vs) scratch serials size_header size_values =
     res_bind (write_varint scratch (serial_type_of v)) (\<lambda>(scratch, n).
     res_bind (st_size (serial_type_of v)) (\<lambda>value_size.
       collect_serials vs scratch (serials @ [(scratch, n)]) (size_header + n) (size_values + value_size)))"

fun append_serials :: "(bytes \<times> nat) list \<Rightarrow> append_writer \<Rightarrow> append_writer res" where
  "append_serials [] w = Inr w"
| "append_serials ((b, n) # rest) w =
     res_bind (slice_range b 0 n) (\<lambda>s. res_bind (extend_from_slice s w) (append_serials rest))"

definition append_value :: "val \<Rightarrow> append_writer \<Rightarrow> (append_writer \<times> ref_value) res" where
  "append_value v w =
     (let start_offset = aw_pos w in
      case v of
        VNull \<Rightarrow> Inr (w, RNull)
      | VInteger i \<Rightarrow> res_bind (int_bytes True i) (\<lambda>b.
          if b = [] then Inr (w, RInteger i)
          else res_bind (extend_from_slice b w) (\<lambda>w. Inr (w, RInteger i)))
      | VFloat f \<Rightarrow> res_bind (extend_from_slice (to_be 8 f) w) (\<lambda>w. Inr (w, RFloat f))
      | VText t st \<Rightarrow> res_bind (extend_from_slice t w) (\<lambda>w.
          Inr (w, RText \<lparr>rs_data = Some start_offset, rs_len = aw_pos w - start_offset\<rparr> st))
      | VBlob b \<Rightarrow> res_bind (extend_from_slice b w) (\<lambda>w.
          Inr (w, RBlob \<lparr>rs_data = Some start_offset, rs_len = aw_pos w - start_offset\<rparr>)))"

fun append_values :: "val list \<Rightarrow> append_writer \<Rightarrow> (append_writer \<times> ref_value list) res" where
  "append_values [] w = Inr (w, [])"
| "append_values (v # vs) w =
     res_bind (append_value v w) (\<lambda>(w, r). res_bind (append_values vs w) (\<lambda>(w, rs). Inr (w, r # rs)))"

text \<open>\<open>ImmutableRecord::from_registers\<close>\<close>

definition from_registers :: "val list \<Rightarrow> immutable_record res option" where
  "from_registers vs =
     (case collect_serials vs (replicate 9 0) [] 0 0 of
        Inl e \<Rightarrow> Some (Inl e)
      | Inr (serials, size_header, size_values, scratch) \<Rightarrow>
          map_option (\<lambda>r. res_bind r (\<lambda>header_size.
            res_bind (write_varint scratch (word_of_nat header_size)) (\<lambda>(scratch, n).
            let w = \<lparr>aw_buf = replicate (header_size + size_values) 0, aw_pos = 0\<rparr> in
            res_bind (slice_range scratch 0 n) (\<lambda>s.
            res_bind (extend_from_slice s w) (\<lambda>w.
            res_bind (append_serials serials w) (\<lambda>w.
            res_bind (append_values vs w) (\<lambda>(w, values).
              Inr \<lparr>ir_payload = aw_buf w, ir_values = values, ir_recreating = False\<rparr>)))))))
          (full_header_size size_header))"

section \<open>Reading values\<close>

definition to_slice :: "bytes \<Rightarrow> raw_slice \<Rightarrow> bytes" where
  "to_slice payload s = (case rs_data s of None \<Rightarrow> [] | Some off \<Rightarrow> take (rs_len s) (drop off payload))"

text \<open>\<open>RefValue::to_owned\<close>\<close>

definition to_owned :: "bytes \<Rightarrow> ref_value \<Rightarrow> val" where
  "to_owned payload r = (case r of
     RNull \<Rightarrow> VNull
   | RInteger i \<Rightarrow> VInteger i
   | RFloat f \<Rightarrow> VFloat f
   | RText s st \<Rightarrow> VText (to_slice payload s) st
   | RBlob s \<Rightarrow> VBlob (to_slice payload s))"

definition sign_extension :: "u8 \<Rightarrow> u8" where
  "sign_extension b = (if b \<le> 127 then 0 else 255)"

text \<open>\<open>read_value\<close> on the payload from offset \<open>pos\<close> on.\<close>

definition read_value :: "nat \<Rightarrow> bytes \<Rightarrow> serial_type \<Rightarrow> (ref_value \<times> nat) res" where
  "read_value pos buf st = res_bind (kind st) (\<lambda>k. case k of
     KNull \<Rightarrow> Inr (RNull, 0)
   | KI8 \<Rightarrow> if buf = [] then Inl (Corrupt ''Invalid UInt8 value'')
       else Inr (RInteger (scast (buf ! 0)), 1)
   | KI16 \<Rightarrow> if length buf < 2 then Inl (Corrupt ''Invalid BEInt16 value'')
       else Inr (RInteger (scast (from_be [buf ! 0, buf ! 1] :: u16)), 2)
   | KI24 \<Rightarrow> if length buf < 3 then Inl (Corrupt ''Invalid BEInt24 value'')
       else Inr (RInteger (scast (from_be [sign_extension (buf ! 0), buf ! 0, buf ! 1, buf ! 2] :: u32)), 3)
   | KI32 \<Rightarrow> if length buf < 4 then Inl (Corrupt ''Invalid BEInt32 value'')
       else Inr (RInteger (scast (from_be [buf ! 0, buf ! 1, buf ! 2, buf ! 3] :: u32)), 4)
   | KI48 \<Rightarrow> if length buf < 6 then Inl (Corrupt ''Invalid BEInt48 value'')
       else Inr (RInteger (from_be [sign_extension (buf ! 0), sign_extension (buf ! 0),
                  buf ! 0, buf ! 1, buf ! 2, buf ! 3, buf ! 4, buf ! 5]), 6)
   | KI64 \<Rightarrow> if length buf < 8 then Inl (Corrupt ''Invalid BEInt64 value'')
       else Inr (RInteger (from_be [buf ! 0, buf ! 1, buf ! 2, buf ! 3, buf ! 4, buf ! 5, buf ! 6, buf ! 7]), 8)
   | KF64 \<Rightarrow> if length buf < 8 then Inl (Corrupt ''Invalid BEFloat64 value'')
       else Inr (RFloat (from_be [buf ! 0, buf ! 1, buf ! 2, buf ! 3, buf ! 4, buf ! 5, buf ! 6, buf ! 7]), 8)
   | KConstInt0 \<Rightarrow> Inr (RInteger 0, 0)
   | KConstInt1 \<Rightarrow> Inr (RInteger 1, 0)
   | KBlob \<Rightarrow> res_bind (st_size st) (\<lambda>content_size.
       if length buf < content_size then Inl (Corrupt ''Invalid Blob value'')
       else if content_size = 0 then Inr (RBlob \<lparr>rs_data = None, rs_len = 0\<rparr>, 0)
       else Inr (RBlob \<lparr>rs_data = Some pos, rs_len = content_size\<rparr>, content_size))
   | KText \<Rightarrow> res_bind (st_size st) (\<lambda>content_size.
       if length buf < content_size then Inl (Corrupt ''Invalid String value, length '')
       else Inr (RText (if content_size = 0 then \<lparr>rs_data = None, rs_len = 0\<rparr>
                        else \<lparr>rs_data = Some pos, rs_len = content_size\<rparr>) SubText, content_size)))"

section \<open>The vector of serial types\<close>

text \<open>\<open>SmallVec<T, N>\<close>: \<open>N\<close> slots inline, of which an unused one is \<open>None\<close>, and a heap vector.\<close>

record 'a small_vec =
  sv_data :: "'a option list"
  sv_len :: nat
  sv_extra :: "'a list option"

definition sv_new :: "nat \<Rightarrow> 'a small_vec" where
  "sv_new n = \<lparr>sv_data = replicate n None, sv_len = 0, sv_extra = None\<rparr>"

definition sv_push :: "'a \<Rightarrow> 'a small_vec \<Rightarrow> 'a small_vec" where
  "sv_push x v =
     (if sv_len v < length (sv_data v)
      then v\<lparr>sv_data := (sv_data v)[sv_len v := Some x], sv_len := sv_len v + 1\<rparr>
      else
        let extra = (case sv_extra v of None \<Rightarrow> [] | Some xs \<Rightarrow> xs)
        in v\<lparr>sv_extra := Some (extra @ [x]), sv_len := sv_len v + 1\<rparr>)"

text \<open>Reading an uninitialised slot would be undefined behaviour: the value \<open>None\<close>.\<close>

definition sv_get_from_heap :: "nat \<Rightarrow> 'a small_vec \<Rightarrow> 'a res" where
  "sv_get_from_heap i v = (case sv_extra v of
     None \<Rightarrow> Inl Panic
   | Some xs \<Rightarrow> if i \<ge> length (sv_data v) then slice_idx xs (i - length (sv_data v)) else Inl Panic)"

definition sv_get :: "nat \<Rightarrow> 'a small_vec \<Rightarrow> 'a option res" where
  "sv_get i v =
     (if i \<ge> sv_len v then Inr None
      else if i < length (sv_data v) then
        (case sv_data v ! i of None \<Rightarrow> Inl Panic | Some x \<Rightarrow> Inr (Some x))
      else res_bind (sv_get_from_heap i v) (\<lambda>x. Inr (Some x)))"

section \<open>Reading records\<close>

definition invalidate :: "immutable_record \<Rightarrow> immutable_record" where
  "invalidate r = r\<lparr>ir_payload := [], ir_values := []\<rparr>"

definition start_serialization :: "bytes \<Rightarrow> immutable_record \<Rightarrow> immutable_record" where
  "start_serialization payload r = r\<lparr>ir_recreating := True, ir_payload := ir_payload r @ payload\<rparr>"

definition add_value :: "ref_value \<Rightarrow> immutable_record \<Rightarrow> immutable_record res" where
  "add_value v r = (if ir_recreating r then Inr (r\<lparr>ir_values := ir_values r @ [v]\<rparr>) else Inl Panic)"

definition validate_serial_type :: "u64 \<Rightarrow> unit res" where
  "validate_serial_type n =
     (if u64_is_valid_serial_type n then Inr () else Inl (Corrupt ''Invalid serial type: ''))"

lemma read_varint_size:
  "read_varint buf = Inr (v, n) \<Longrightarrow> 1 \<le> n \<and> n \<le> 9 \<and> n \<le> length buf"
  using read_varint_loop_sound [of buf 0 0 v n] by (simp add: read_varint_def)

function header_loop :: "bytes \<Rightarrow> nat \<Rightarrow> nat \<Rightarrow> u64 small_vec \<Rightarrow> (nat \<times> u64 small_vec) res" where
  "header_loop payload header_size pos sts =
     (if header_size > 0 then
        res_bind (slice_from payload pos) (\<lambda>buf.
        res_bind (read_varint buf) (\<lambda>(st, nr).
        res_bind (validate_serial_type st) (\<lambda>_.
          let sts = sv_push st sts;
              pos = pos + nr
          in if header_size < nr then Inl (Corrupt ''Invalid record header size'')
             else header_loop payload (header_size - nr) pos sts)))
      else Inr (pos, sts))"
  by pat_completeness auto
termination
  by (relation "measure (\<lambda>(_, h, _). h)") (auto dest: read_varint_size)

declare header_loop.simps [simp del]

fun values_loop :: "u64 list \<Rightarrow> nat \<Rightarrow> immutable_record \<Rightarrow> immutable_record \<times> nat res" where
  "values_loop [] pos r = (r, Inr pos)"
| "values_loop (st # sts) pos r =
     (case res_bind (slice_from (ir_payload r) pos) (\<lambda>buf.
           res_bind (serial_type_try_from st) (\<lambda>st.
           res_bind (read_value pos buf st) (\<lambda>(v, n).
           res_bind (add_value v r) (\<lambda>r. Inr (r, n))))) of
        Inl e \<Rightarrow> (r, Inl e)
      | Inr (r, n) \<Rightarrow> values_loop sts (pos + n) r)"

text \<open>\<open>&serial_types.data[..len.min(N)]\<close>, each slot with \<open>assume_init\<close>.\<close>

definition init_slots :: "'a small_vec \<Rightarrow> 'a list res" where
  "init_slots v =
     (let slots = take (min (sv_len v) (length (sv_data v))) (sv_data v)
      in if None \<in> set slots then Inl Panic else Inr (map the slots))"

text \<open>
  The record is returned with the outcome: on an error the caller keeps the payload and the values
  read so far.
\<close>

definition read_record :: "bytes \<Rightarrow> immutable_record \<Rightarrow> immutable_record \<times> unit res" where
  "read_record payload r =
     (let r = start_serialization payload (invalidate r) in
      case res_bind (read_varint payload) (\<lambda>(header_size, nr).
             if unat header_size < nr then Inl (Corrupt ''Invalid record header size'')
             else res_bind (header_loop (ir_payload r) (unat header_size - nr) nr (sv_new 64)) (\<lambda>(pos, sts).
               res_bind (init_slots sts) (\<lambda>inline. Inr (pos, sts, inline)))) of
        Inl e \<Rightarrow> (r, Inl e)
      | Inr (pos, sts, inline) \<Rightarrow>
          (case values_loop inline pos r of
             (r, Inl e) \<Rightarrow> (r, Inl e)
           | (r, Inr pos) \<Rightarrow>
               (case sv_extra sts of
                  None \<Rightarrow> (r, Inr ())
                | Some extra \<Rightarrow> (case values_loop extra pos r of (r, p) \<Rightarrow> (r, res_bind p (\<lambda>_. Inr ()))))))"

end
