(* ===== verification/RecordEnc.thy ===== *)
theory RecordEnc
  imports RecordFormat
begin

text \<open>
  The reference encoding of a record and the proof that both encoders produce it: the content of
  an integer is the low bytes of its two's complement form, reading extends the sign, and the
  length prefix is the least one that counts itself.
\<close>

section \<open>Bytes of an integer\<close>

lemma be_bytes_mod: "be_bytes n (k mod 256 ^ n) = be_bytes n k"
  using be_bytes_be_nat [of "be_bytes n k"] by (simp only: be_nat_be_bytes length_be_bytes)

lemma drop_be_bytes: "drop m (be_bytes (m + n) k) = be_bytes n k"
proof (induction n arbitrary: k)
  case (Suc n)
  show ?case using Suc [of "k div 256"] by (simp add: drop_append)
qed simp

lemma to_be_ucast:
  assumes "8 * n \<le> LENGTH('a::len)"
  shows "to_be n (ucast (i :: i64) :: 'a word) = be_bytes n (unat i)"
proof -
  have "unat (ucast i :: 'a word) = unat i mod 2 ^ LENGTH('a)"
    unfolding ucast_unat by (simp only: unsigned_of_nat take_bit_eq_mod of_nat_mod of_nat_id)
  moreover have "(2::nat) ^ (8 * n) dvd 2 ^ LENGTH('a)"
    using assms by (rule le_imp_power_dvd)
  then have "(256::nat) ^ n dvd 2 ^ LENGTH('a)" by (simp add: power_mult)
  then have "unat i mod 2 ^ LENGTH('a) mod 256 ^ n = unat i mod 256 ^ n"
    by (rule mod_mod_cancel)
  ultimately show ?thesis
    unfolding to_be_def by (metis be_bytes_mod)
qed

definition width_of :: "serial_type_kind \<Rightarrow> nat" where
  "width_of k = (case k of KI8 \<Rightarrow> 1 | KI16 \<Rightarrow> 2 | KI24 \<Rightarrow> 3 | KI32 \<Rightarrow> 4 | KI48 \<Rightarrow> 6 | KI64 \<Rightarrow> 8 | _ \<Rightarrow> 0)"

definition int_kind :: "i64 \<Rightarrow> serial_type_kind" where
  "int_kind i = projr (kind (serial_type_of (VInteger i)))"

definition int_width :: "i64 \<Rightarrow> nat" where
  "int_width i = width_of (int_kind i)"

lemma kind_simps [simp]:
  "kind 0 = Inr KNull" "kind 1 = Inr KI8" "kind 2 = Inr KI16" "kind 3 = Inr KI24" "kind 4 = Inr KI32"
  "kind 5 = Inr KI48" "kind 6 = Inr KI64" "kind 7 = Inr KF64" "kind 8 = Inr KConstInt0" "kind 9 = Inr KConstInt1"
  by (simp_all add: kind_def)

lemma int_kind_cases:
  obtains
    (zero) "sint i = 0" "serial_type_of (VInteger i) = 8" "int_width i = 0"
  | (one) "sint i = 1" "serial_type_of (VInteger i) = 9" "int_width i = 0"
  | (i8) "sint i \<ge> -128" "sint i \<le> 127" "sint i \<noteq> 0" "sint i \<noteq> 1" "serial_type_of (VInteger i) = 1" "int_width i = 1"
  | (i16) "sint i \<ge> -32768" "sint i \<le> 32767" "\<not> (-128 \<le> sint i \<and> sint i \<le> 127)"
      "serial_type_of (VInteger i) = 2" "int_width i = 2"
  | (i24) "sint i \<ge> -8388608" "sint i \<le> 8388607" "\<not> (-32768 \<le> sint i \<and> sint i \<le> 32767)"
      "serial_type_of (VInteger i) = 3" "int_width i = 3"
  | (i32) "sint i \<ge> -2147483648" "sint i \<le> 2147483647" "\<not> (-8388608 \<le> sint i \<and> sint i \<le> 8388607)"
      "serial_type_of (VInteger i) = 4" "int_width i = 4"
  | (i48) "sint i \<ge> -140737488355328" "sint i \<le> 140737488355327" "\<not> (-2147483648 \<le> sint i \<and> sint i \<le> 2147483647)"
      "serial_type_of (VInteger i) = 5" "int_width i = 6"
  | (i64) "\<not> (-140737488355328 \<le> sint i \<and> sint i \<le> 140737488355327)"
      "serial_type_of (VInteger i) = 6" "int_width i = 8"
proof -
  note st = serial_type_of_def val.case
  have w: "int_width i = width_of (projr (kind n))" if "serial_type_of (VInteger i) = n" for n
    using that by (simp add: int_width_def int_kind_def)
  consider "sint i = 0" | "sint i = 1" | "sint i \<ge> -128" "sint i \<le> 127" "sint i \<noteq> 0" "sint i \<noteq> 1"
    | "sint i \<ge> -32768" "sint i \<le> 32767" "\<not> (-128 \<le> sint i \<and> sint i \<le> 127)"
    | "sint i \<ge> -8388608" "sint i \<le> 8388607" "\<not> (-32768 \<le> sint i \<and> sint i \<le> 32767)"
    | "sint i \<ge> -2147483648" "sint i \<le> 2147483647" "\<not> (-8388608 \<le> sint i \<and> sint i \<le> 8388607)"
    | "sint i \<ge> -140737488355328" "sint i \<le> 140737488355327" "\<not> (-2147483648 \<le> sint i \<and> sint i \<le> 2147483647)"
    | "\<not> (-140737488355328 \<le> sint i \<and> sint i \<le> 140737488355327)"
    by linarith
  then show thesis
  proof cases
    case 1
    then have s: "serial_type_of (VInteger i) = 8" unfolding st by simp
    show thesis using zero [OF 1 s] w [OF s] by (simp add: width_of_def)
  next
    case 2
    then have s: "serial_type_of (VInteger i) = 9" unfolding st by simp
    show thesis using one [OF 2 s] w [OF s] by (simp add: width_of_def)
  next
    case 3
    then have s: "serial_type_of (VInteger i) = 1" unfolding st by simp
    show thesis using i8 [OF 3 s] w [OF s] by (simp add: width_of_def)
  next
    case 4
    then have s: "serial_type_of (VInteger i) = 2" unfolding st by auto
    show thesis using i16 [OF 4 s] w [OF s] by (simp add: width_of_def)
  next
    case 5
    then have s: "serial_type_of (VInteger i) = 3" unfolding st by auto
    show thesis using i24 [OF 5 s] w [OF s] by (simp add: width_of_def)
  next
    case 6
    then have s: "serial_type_of (VInteger i) = 4" unfolding st by auto
    show thesis using i32 [OF 6 s] w [OF s] by (simp add: width_of_def)
  next
    case 7
    then have s: "serial_type_of (VInteger i) = 5" unfolding st by auto
    show thesis using i48 [OF 7 s] w [OF s] by (simp add: width_of_def)
  next
    case 8
    then have s: "serial_type_of (VInteger i) = 6" unfolding st by auto
    show thesis using i64 [OF 8 s] w [OF s] by (simp add: width_of_def)
  qed
qed

lemma int_bytes_eq: "int_bytes True i = Inr (be_bytes (int_width i) (unat i))"
proof -
  have d: "drop 1 (to_be 4 (ucast i :: u32)) = be_bytes 3 (unat i)"
    using drop_be_bytes [of 1 3 "unat i"] by (simp add: to_be_ucast del: be_bytes.simps)
  have e: "drop 2 (to_be 8 i) = be_bytes 6 (unat i)"
    using drop_be_bytes [of 2 6 "unat i"] by (simp add: to_be_def del: be_bytes.simps)
  show ?thesis
  proof (cases rule: int_kind_cases [of i])
    case i24
    then show ?thesis unfolding int_bytes_def d by simp
  next
    case i48
    then show ?thesis unfolding int_bytes_def e by simp
  qed (simp_all add: int_bytes_def to_be_ucast to_be_def [of 8] del: be_bytes.simps(2))
qed

lemma int_bytes_const: "int_bytes False i = (if sint i = 0 \<or> sint i = 1 then Inl Panic else int_bytes True i)"
  by (cases rule: int_kind_cases [of i]) (auto simp: int_bytes_def)

section \<open>Sign extension\<close>

lemma signed_low_bytes:
  fixes i :: i64
  assumes "n < 8" "-(2 ^ (8 * Suc n - 1)) \<le> sint i" "sint i < 2 ^ (8 * Suc n - 1)"
  shows "signed_take_bit (8 * Suc n - 1) (int (unat i mod 256 ^ Suc n)) = sint i"
proof -
  let ?m = "8 * Suc n - 1"
  have "int (unat i mod 256 ^ Suc n) = take_bit (8 * Suc n) (uint i)"
    by (simp add: zmod_int take_bit_eq_mod power_mult power_add)
  then have "signed_take_bit ?m (int (unat i mod 256 ^ Suc n)) = signed_take_bit ?m (uint i)"
    by (simp add: signed_take_bit_take_bit)
  also have "\<dots> = signed_take_bit ?m (signed_take_bit 63 (uint i))"
    using assms(1) by (simp add: min_def)
  also have "signed_take_bit 63 (uint i) = sint i"
    by (simp add: sint_uint)
  also have "signed_take_bit ?m (sint i) = sint i"
    using assms by (intro signed_take_bit_int_eq_self) auto
  finally show ?thesis .
qed

lemma be_nat_append: "be_nat (xs @ ys) = be_nat xs * 256 ^ length ys + be_nat ys"
proof (induction ys rule: rev_induct)
  case (snoc y ys)
  have "be_nat (xs @ ys @ [y]) = be_nat (xs @ ys) * 256 + unat y"
    by (simp only: be_nat_snoc flip: append_assoc)
  then show ?case using snoc by simp
qed simp

lemma be_nat_replicate_255: "be_nat (replicate m 255) = 256 ^ m - 1"
proof (induction m)
  case (Suc m)
  have "be_nat (replicate (Suc m) 255) = be_nat (replicate m 255 @ [255])"
    by (simp only: replicate_Suc replicate_append_same)
  also have "\<dots> = (256 ^ m - 1) * 256 + 255" using Suc by simp
  also have "\<dots> = 256 ^ Suc m - 1"
    by (simp add: algebra_simps diff_mult_distrib)
  finally show ?case .
qed simp

lemma be_nat_replicate_0: "be_nat (replicate m 0) = 0"
proof (induction m)
  case (Suc m)
  have "be_nat (replicate (Suc m) 0) = be_nat (replicate m 0 @ [0])"
    by (simp only: replicate_Suc replicate_append_same)
  also have "\<dots> = 0" using Suc by simp
  finally show ?case .
qed simp

lemma sign_extend_bytes:
  assumes "bs = b # rest" and "LENGTH('a::len) = 8 * (m + length bs)"
  shows "(from_be (replicate m (sign_extension b) @ bs) :: 'a word) =
    word_of_int (signed_take_bit (8 * length bs - 1) (int (be_nat bs)))"
proof -
  let ?n = "length bs" and ?k = "be_nat bs"
  have n: "8 * ?n - 1 = 8 * length rest + 7" using assms(1) by simp
  have half: "(2::nat) ^ (8 * ?n - 1) = 128 * 256 ^ length rest"
    unfolding n by (simp add: power_add power_mult)
  have full: "(2::nat) * 2 ^ (8 * ?n - 1) = 256 ^ ?n"
    unfolding half using assms(1) by simp
  have k: "?k = unat b * 256 ^ length rest + be_nat rest"
    using be_nat_append [of "[b]" rest] be_nat_snoc [of "[]" b] assms(1) by simp
  show ?thesis
  proof (cases "b \<le> 127")
    case True
    then have "unat b \<le> 127" by (simp add: word_le_nat_alt)
    then have "unat b * 256 ^ length rest \<le> 127 * 256 ^ length rest" by (rule mult_le_mono1)
    then have lt: "?k < 2 ^ (8 * ?n - 1)"
      unfolding half k using be_nat_less [of rest] by linarith
    have "signed_take_bit (8 * ?n - 1) (int ?k) = int ?k"
    proof (rule signed_take_bit_int_eq_self)
      have "(0::int) < 2 ^ (8 * ?n - 1)" by simp
      then show "- (2 ^ (8 * ?n - 1)) \<le> int ?k" by linarith
      show "int ?k < 2 ^ (8 * ?n - 1)"
        using lt by (metis of_nat_less_iff of_nat_numeral of_nat_power)
    qed
    then show ?thesis
      using True by (simp add: from_be_def sign_extension_def be_nat_append be_nat_replicate_0)
  next
    case False
    then have "128 \<le> unat b" by (simp add: word_le_nat_alt)
    then have "128 * 256 ^ length rest \<le> unat b * 256 ^ length rest" by (rule mult_le_mono1)
    then have ge: "2 ^ (8 * ?n - 1) \<le> ?k" unfolding half k by linarith
    have lt: "?k < 2 * 2 ^ (8 * ?n - 1)" unfolding full by (rule be_nat_less)
    have st: "signed_take_bit (8 * ?n - 1) (int ?k) = int ?k - 2 * 2 ^ (8 * ?n - 1)"
    proof -
      have ge': "2 ^ (8 * ?n - 1) \<le> int ?k" and lt': "int ?k < 2 * 2 ^ (8 * ?n - 1)"
        using ge lt by (metis of_nat_le_iff of_nat_numeral of_nat_power)
          (metis lt of_nat_less_iff of_nat_mult of_nat_numeral of_nat_power)
      have "signed_take_bit (8 * ?n - 1) (int ?k - 2 ^ Suc (8 * ?n - 1)) = int ?k - 2 ^ Suc (8 * ?n - 1)"
        using ge' lt' by (intro signed_take_bit_int_eq_self) simp_all
      moreover have "signed_take_bit (8 * ?n - 1) (int ?k - 2 ^ Suc (8 * ?n - 1)) = signed_take_bit (8 * ?n - 1) (int ?k)"
        by (subst signed_take_bit_eq_iff_take_bit_eq) (simp add: take_bit_eq_mod)
      ultimately show ?thesis by simp
    qed
    have "int (256 ^ m - 1 :: nat) = 256 ^ m - 1" by (simp add: of_nat_diff)
    then have "int (be_nat (replicate m 255 @ bs)) = 256 ^ (m + ?n) - 256 ^ ?n + int ?k"
      by (simp only: be_nat_append be_nat_replicate_255 of_nat_add of_nat_mult of_nat_power of_nat_numeral)
        (simp add: power_add algebra_simps)
    also have "\<dots> = 2 ^ LENGTH('a) + (int ?k - 2 * 2 ^ (8 * ?n - 1))"
    proof -
      have "(256::int) ^ (m + ?n) = 2 ^ LENGTH('a)" by (simp only: assms(2) power_mult) simp
      moreover have "(256::int) ^ ?n = 2 * 2 ^ (8 * ?n - 1)"
        using arg_cong [OF full, of int] by simp
      ultimately show ?thesis by simp
    qed
    finally have "(word_of_int (int (be_nat (replicate m 255 @ bs))) :: 'a word) = word_of_int (int ?k - 2 * 2 ^ (8 * ?n - 1))"
      by (simp add: word_of_int_eq_iff take_bit_eq_mod)
    then show ?thesis
      unfolding st using False by (simp add: from_be_def sign_extension_def)
  qed
qed

lemma scast_from_be:
  assumes "bs \<noteq> []" and "LENGTH('a::len) = 8 * length bs"
  shows "scast (from_be bs :: 'a word) = (word_of_int (signed_take_bit (8 * length bs - 1) (int (be_nat bs))) :: i64)"
proof -
  have le: "(8 * length bs \<le> 8 * length bs - Suc 0) = False" using assms(1) by (cases bs) auto
  have "sint (from_be bs :: 'a word) = signed_take_bit (LENGTH('a) - 1) (int (be_nat bs))"
    unfolding from_be_def sint_uint unsigned_of_nat
    by (simp only: signed_take_bit_take_bit assms(2) One_nat_def le if_False flip: take_bit_of_nat)
  then show ?thesis by (simp add: assms(2) scast_eq)
qed

lemma signed_bytes:
  fixes i :: i64
  assumes "bs = be_bytes (Suc n) (unat i)" "n < 8" "-(2 ^ (8 * Suc n - 1)) \<le> sint i" "sint i < 2 ^ (8 * Suc n - 1)"
  shows "word_of_int (signed_take_bit (8 * length bs - 1) (int (be_nat bs))) = i"
  using signed_low_bytes [OF assms(2-4)]
  by (simp only: assms(1) be_nat_be_bytes length_be_bytes of_int_sint scast_id)

section \<open>The reference encoding\<close>

definition content :: "val \<Rightarrow> bytes" where
  "content v = (case v of VNull \<Rightarrow> [] | VInteger i \<Rightarrow> be_bytes (int_width i) (unat i)
     | VFloat f \<Rightarrow> to_be 8 f | VText t _ \<Rightarrow> t | VBlob b \<Rightarrow> b)"

definition st_bytes :: "val \<Rightarrow> bytes" where
  "st_bytes v = varint_ref (unat (serial_type_of v))"

definition header_of :: "val list \<Rightarrow> bytes" where
  "header_of vs = concat (map st_bytes vs)"

definition body_of :: "val list \<Rightarrow> bytes" where
  "body_of vs = concat (map content vs)"

text \<open>The values a program can hold: no text or blob of \<open>2 ^ 62\<close> bytes, no \<open>2 ^ 59\<close> columns.\<close>

definition val_ok :: "val \<Rightarrow> bool" where
  "val_ok v = (case v of VText t _ \<Rightarrow> length t < 2 ^ 62 | VBlob b \<Rightarrow> length b < 2 ^ 62 | _ \<Rightarrow> True)"

definition record_ok :: "val list \<Rightarrow> bool" where
  "record_ok vs = (list_all val_ok vs \<and> length vs < 2 ^ 59)"

lemma header_of_simps [simp]: "header_of [] = []" "header_of (v # vs) = st_bytes v @ header_of vs"
  by (simp_all add: header_of_def)

lemma body_of_simps [simp]: "body_of [] = []" "body_of (v # vs) = content v @ body_of vs"
  by (simp_all add: body_of_def)

lemma length_st_bytes: "length (st_bytes v) = varint_len (unat (serial_type_of v))"
  unfolding st_bytes_def by (rule length_varint_ref) (rule unat_u64_less)

lemma length_header_of: "length (header_of vs) \<le> 9 * length vs"
proof (induction vs)
  case (Cons v vs)
  then show ?case using varint_len_bounds(2) [of "unat (serial_type_of v)"] by (simp add: length_st_bytes)
qed simp

lemma unat_string_type:
  assumes "n < 2 ^ 62" "c \<le> 13"
  shows "unat (word_of_nat c + word_of_nat n * 2 :: u64) = c + n * 2"
proof -
  have "(word_of_nat c + word_of_nat n * 2 :: u64) = word_of_nat (c + n * 2)" by simp
  moreover have "c + n * 2 < 2 ^ 64" using assms by simp
  ultimately show ?thesis by (simp only: unsigned_of_nat take_bit_eq_mod) simp
qed

lemma kind_string_type:
  assumes "n < 2 ^ 62"
  shows "unat (st_text (word_of_nat n)) = 13 + n * 2" "unat (st_blob (word_of_nat n)) = 12 + n * 2"
    "kind (st_text (word_of_nat n)) = Inr KText" "kind (st_blob (word_of_nat n)) = Inr KBlob"
proof -
  have t: "unat (st_text (word_of_nat n)) = 13 + n * 2"
    using unat_string_type [OF assms, of 13] by (simp add: st_text_def)
  have b: "unat (st_blob (word_of_nat n)) = 12 + n * 2"
    using unat_string_type [OF assms, of 12] by (simp add: st_blob_def)
  have eq: "(w = numeral k) = (unat w = unat (numeral k :: u64))" "(w \<ge> numeral k) = (unat w \<ge> unat (numeral k :: u64))"
    "(w = 0) = (unat w = 0)" "(w = 1) = (unat w = 1)" "unat (w mod 2) = unat w mod 2" for w :: u64 and k
    by (simp_all add: word_le_nat_alt word_unat_eq_iff unat_mod)
  show "unat (st_text (word_of_nat n)) = 13 + n * 2" by (rule t)
  show "unat (st_blob (word_of_nat n)) = 12 + n * 2" by (rule b)
  show "kind (st_text (word_of_nat n)) = Inr KText"
    unfolding kind_def eq t by simp
  show "kind (st_blob (word_of_nat n)) = Inr KBlob"
    unfolding kind_def eq b by simp
qed

lemma st_size_content:
  assumes "val_ok v"
  shows "st_size (serial_type_of v) = Inr (length (content v))"
proof (cases v)
  case (VInteger i)
  show ?thesis unfolding VInteger
    by (cases rule: int_kind_cases [of i]) (simp_all add: st_size_def content_def del: be_bytes.simps)
next
  case (VText t st)
  then show ?thesis using assms
    by (simp add: st_size_def val_ok_def serial_type_of_def kind_string_type content_def)
next
  case (VBlob b)
  then show ?thesis using assms
    by (simp add: st_size_def val_ok_def serial_type_of_def kind_string_type content_def)
qed (simp_all add: st_size_def serial_type_of_def content_def)

section \<open>The length prefix\<close>

lemma varint_len_mono: "j \<le> k \<Longrightarrow> varint_len j \<le> varint_len k"
  by (simp add: varint_len_def)

lemma unat_u64_of_nat: "k < 2 ^ 64 \<Longrightarrow> unat (word_of_nat k :: u64) = k"
  by (simp only: unsigned_of_nat take_bit_eq_mod) simp

lemma write_varint_nat:
  assumes "length buf = 9" "k < 2 ^ 64"
  shows "write_varint buf (word_of_nat k) = Inr (varint_ref k @ drop (varint_len k) buf, varint_len k)"
    "length (varint_ref k @ drop (varint_len k) buf) = 9"
  using write_varint_eq [of buf "word_of_nat k"] assms varint_len_bounds [of k]
  by (simp_all add: unat_u64_of_nat length_varint_ref)

lemma resolve_loop_fixpoint:
  assumes "length scratch = 9" "t + 9 < 2 ^ 64" "n \<le> 9" "n \<le> varint_len (t + n)"
  shows "\<exists>h. resolve_loop t scratch n = Some (Inr h) \<and> h = t + varint_len h \<and>
    (\<forall>h'. h' = t + varint_len h' \<and> n \<le> varint_len h' \<longrightarrow> h \<le> h')"
  using assms
proof (induction "9 - n" arbitrary: n scratch rule: less_induct)
  case less
  let ?m = "varint_len (t + n)"
  let ?s = "varint_ref (t + n) @ drop ?m scratch"
  have "t + n < 2 ^ 64" using less.prems by simp
  note w = write_varint_nat [OF less.prems(1) this]
  show ?case
  proof (cases "?m = n")
    case True
    then have "resolve_loop t scratch n = Some (Inr (t + n))"
      by (subst resolve_loop.simps) (unfold w(1), simp)
    moreover have "t + n \<le> h'" if "h' = t + varint_len h'" "n \<le> varint_len h'" for h'
      using that by linarith
    ultimately show ?thesis using True by auto
  next
    case False
    then have gt: "n < ?m" using less.prems(4) by simp
    have m: "?m \<le> 9" by (rule varint_len_bounds)
    have "?m \<le> varint_len (t + ?m)" by (rule varint_len_mono) (use gt in simp)
    moreover have "9 - ?m < 9 - n" using gt m by linarith
    ultimately obtain h where
      h: "resolve_loop t ?s ?m = Some (Inr h)" "h = t + varint_len h"
        "\<forall>h'. h' = t + varint_len h' \<and> ?m \<le> varint_len h' \<longrightarrow> h \<le> h'"
      using less.hyps [OF _ w(2) less.prems(2) m] by blast
    have "resolve_loop t scratch n = Some (Inr h)"
      using False h(1) by (subst resolve_loop.simps) (unfold w(1), simp)
    moreover have "h \<le> h'" if "h' = t + varint_len h'" "n \<le> varint_len h'" for h'
    proof -
      have "t + n \<le> h'" using that by linarith
      then have "?m \<le> varint_len h'" by (rule varint_len_mono)
      then show ?thesis using h(3) that by blast
    qed
    ultimately show ?thesis using h(2) by blast
  qed
qed

lemma resolve_least:
  assumes "t + 9 < 2 ^ 64"
  obtains h where "resolve_big_header_size t = Some (Inr h)" "h = t + varint_len h"
    "\<And>h'. h' = t + varint_len h' \<Longrightarrow> h \<le> h'"
proof -
  let ?s = "replicate 9 (0 :: u8)"
  have t: "t < 2 ^ 64" "length ?s = 9" using assms by simp_all
  note w = write_varint_nat [OF t(2,1)]
  have le: "varint_len t \<le> varint_len (t + varint_len t)" by (rule varint_len_mono) simp
  from resolve_loop_fixpoint [OF w(2) assms varint_len_bounds(2) le] obtain h where
    h: "resolve_loop t (varint_ref t @ drop (varint_len t) ?s) (varint_len t) = Some (Inr h)" "h = t + varint_len h"
      "\<forall>h'. h' = t + varint_len h' \<and> varint_len t \<le> varint_len h' \<longrightarrow> h \<le> h'"
    by blast
  have "resolve_big_header_size t = Some (Inr h)"
    using h(1) w(1) unfolding resolve_big_header_size_def by simp
  moreover have "h \<le> h'" if "h' = t + varint_len h'" for h'
  proof -
    have "t \<le> h'" using that by linarith
    then have "varint_len t \<le> varint_len h'" by (rule varint_len_mono)
    then show ?thesis using h(3) that by blast
  qed
  ultimately show thesis using that h(2) by blast
qed

lemma full_header_size_fixpoint:
  assumes "t + 9 < 2 ^ 64"
  obtains h where "full_header_size t = Some (Inr h)" "h = t + varint_len h"
proof (cases "t \<le> 126")
  case True
  then have "full_header_size t = Some (Inr (t + 1))" "varint_len (t + 1) = 1"
    by (simp_all add: full_header_size_def varint_len_def)
  then show thesis using that by metis
next
  case False
  then show thesis
    using resolve_least [OF assms] that by (metis full_header_size_def)
qed

lemma record_ok_header:
  assumes "record_ok vs"
  shows "list_all val_ok vs" "length (header_of vs) + 9 < 2 ^ 64"
  using assms length_header_of [of vs] by (simp_all add: record_ok_def)

section \<open>Both encoders\<close>

lemma write_serials_eq: "write_serials vs buf = Inr (buf @ header_of vs)"
proof (induction vs arbitrary: buf)
  case (Cons v vs)
  let ?k = "unat (serial_type_of v)"
  have w: "write_varint (replicate 9 0) (serial_type_of v) = Inr (st_bytes v @ drop (varint_len ?k) (replicate 9 0), varint_len ?k)"
    using write_varint_eq [of "replicate 9 0" "serial_type_of v"] by (simp add: st_bytes_def)
  have "take (length buf + varint_len ?k) (buf @ st_bytes v @ drop (varint_len ?k) (replicate 9 0)) = buf @ st_bytes v"
    by (simp add: length_st_bytes)
  then show ?case using Cons [of "buf @ st_bytes v"] by (simp add: w)
qed simp

lemma write_contents_eq: "write_contents vs buf = Inr (buf @ body_of vs)"
proof (induction vs arbitrary: buf)
  case (Cons v vs)
  have "write_content v buf = Inr (buf @ content v)"
    by (cases v) (simp_all add: write_content_def content_def int_bytes_eq)
  then show ?case using Cons by simp
qed simp

lemma serialize_eq:
  assumes "full_header_size (length (header_of vs)) = Some (Inr h)" and "h < 2 ^ 64"
  shows "serialize vs buf = Some (Inr (buf @ varint_ref h @ header_of vs @ body_of vs))"
proof -
  have "write_varint (replicate 9 0) (word_of_nat h) = Inr (varint_ref h @ drop (varint_len h) (replicate 9 0), varint_len h)"
    using write_varint_nat(1) [of "replicate 9 0" h] assms(2) by simp
  then show ?thesis
    using assms by (simp add: serialize_def write_serials_eq write_contents_eq Let_def length_varint_ref)
qed

lemma collect_serials_eq:
  assumes "list_all val_ok vs" "length scratch = 9"
  obtains serials scratch' where
    "collect_serials vs scratch acc hs bs =
       Inr (acc @ serials, hs + length (header_of vs), bs + length (body_of vs), scratch')"
    "length scratch' = 9"
    "list_all (\<lambda>(b, n). n \<le> length b) serials"
    "concat (map (\<lambda>(b, n). take n b) serials) = header_of vs"
  using assms
proof (induction vs arbitrary: scratch acc hs bs thesis)
  case Nil
  show ?case using Nil(1) [of "[]" scratch] Nil(3) by simp
next
  case (Cons v vs)
  let ?k = "unat (serial_type_of v)"
  let ?s = "st_bytes v @ drop (varint_len ?k) scratch"
  have w: "write_varint scratch (serial_type_of v) = Inr (?s, varint_len ?k)"
    using write_varint_eq [of scratch "serial_type_of v"] Cons.prems(3) by (simp add: st_bytes_def)
  have l: "length ?s = 9"
    using Cons.prems(3) varint_len_bounds(2) [of ?k] by (simp add: length_st_bytes)
  have v: "val_ok v" "list_all val_ok vs" using Cons.prems(2) by simp_all
  obtain serials scratch' where
    r: "collect_serials vs ?s (acc @ [(?s, varint_len ?k)]) (hs + varint_len ?k) (bs + length (content v)) =
       Inr ((acc @ [(?s, varint_len ?k)]) @ serials, hs + varint_len ?k + length (header_of vs),
            bs + length (content v) + length (body_of vs), scratch')"
    "length scratch' = 9" "list_all (\<lambda>(b, n). n \<le> length b) serials"
    "concat (map (\<lambda>(b, n). take n b) serials) = header_of vs"
    using Cons.IH [OF _ v(2) l] by blast
  show ?case
  proof (rule Cons.prems(1) [of "(?s, varint_len ?k) # serials" scratch'])
    show "collect_serials (v # vs) scratch acc hs bs =
      Inr (acc @ (?s, varint_len ?k) # serials, hs + length (header_of (v # vs)), bs + length (body_of (v # vs)), scratch')"
      using r(1) by (simp add: w st_size_content v(1) length_st_bytes add.assoc)
    show "list_all (\<lambda>(b, n). n \<le> length b) ((?s, varint_len ?k) # serials)"
      using r(3) by (simp add: length_st_bytes)
    show "concat (map (\<lambda>(b, n). take n b) ((?s, varint_len ?k) # serials)) = header_of (v # vs)"
      using r(4) by (simp add: length_st_bytes)
  qed (rule r(2))
qed

end
