(* ===== verification/RecordDec.thy ===== *)
theory RecordDec
  imports RecordEnc
begin

text \<open>
  The pre-sized encoder and the decoder: \<open>from_registers\<close> fills its buffer exactly, the small
  vector of serial types is a list, and reading inverts the reference encoding.
\<close>

section \<open>The writer\<close>

definition wr :: "bytes \<Rightarrow> nat \<Rightarrow> append_writer" where
  "wr d k = \<lparr>aw_buf = d @ replicate k 0, aw_pos = length d\<rparr>"

lemma extend_wr: "length s \<le> k \<Longrightarrow> extend_from_slice s (wr d k) = Inr (wr (d @ s) (k - length s))"
  by (simp add: extend_from_slice_def wr_def)

lemma append_serials_wr:
  assumes "list_all (\<lambda>(b, n). n \<le> length b) serials"
    and "length (concat (map (\<lambda>(b, n). take n b) serials)) \<le> k"
  shows "append_serials serials (wr d k) =
    Inr (wr (d @ concat (map (\<lambda>(b, n). take n b) serials)) (k - length (concat (map (\<lambda>(b, n). take n b) serials))))"
  using assms
proof (induction serials arbitrary: d k)
  case (Cons x xs)
  obtain b n where x: "x = (b, n)" by (cases x)
  then show ?case using Cons.prems Cons.IH [of "k - n" "d @ take n b"] by (simp add: extend_wr)
qed simp

definition ref_at :: "nat \<Rightarrow> val \<Rightarrow> ref_value" where
  "ref_at pos v = (case v of VNull \<Rightarrow> RNull | VInteger i \<Rightarrow> RInteger i | VFloat f \<Rightarrow> RFloat f
     | VText t st \<Rightarrow> RText \<lparr>rs_data = Some pos, rs_len = length t\<rparr> st
     | VBlob b \<Rightarrow> RBlob \<lparr>rs_data = Some pos, rs_len = length b\<rparr>)"

fun refs_at :: "nat \<Rightarrow> val list \<Rightarrow> ref_value list" where
  "refs_at pos [] = []"
| "refs_at pos (v # vs) = ref_at pos v # refs_at (pos + length (content v)) vs"

lemma append_values_wr:
  "length (body_of vs) \<le> k \<Longrightarrow>
   append_values vs (wr d k) = Inr (wr (d @ body_of vs) (k - length (body_of vs)), refs_at (length d) vs)"
proof (induction vs arbitrary: d k)
  case (Cons v vs)
  have "append_value v (wr d k) = Inr (wr (d @ content v) (k - length (content v)), ref_at (length d) v)"
  proof (cases v)
    case (VInteger i)
    have "d @ be_bytes (int_width i) (unat i) = d" "int_width i = 0" if "be_bytes (int_width i) (unat i) = []"
      using that by (metis append_Nil2) (metis that length_be_bytes list.size(3))
    then show ?thesis using Cons.prems VInteger
      by (auto simp: append_value_def content_def ref_at_def int_bytes_eq extend_wr)
  qed (use Cons.prems in \<open>simp_all add: append_value_def content_def ref_at_def extend_wr Let_def, simp_all add: wr_def\<close>)
  then show ?case using Cons.prems Cons.IH [of "k - length (content v)" "d @ content v"] by simp
qed (simp add: wr_def)

lemma from_registers_eq:
  assumes "list_all val_ok vs" and "full_header_size (length (header_of vs)) = Some (Inr h)"
    and "h < 2 ^ 64" and h: "h = length (header_of vs) + varint_len h"
  shows "from_registers vs =
    Some (Inr \<lparr>ir_payload = varint_ref h @ header_of vs @ body_of vs, ir_values = refs_at h vs, ir_recreating = False\<rparr>)"
proof -
  have "length (replicate 9 (0 :: u8)) = 9" by simp
  from collect_serials_eq [OF assms(1) this, of "[]" 0 0] obtain serials scratch where
    c: "collect_serials vs (replicate 9 0) [] 0 0 = Inr (serials, length (header_of vs), length (body_of vs), scratch)"
    "length scratch = 9" "list_all (\<lambda>(b, n). n \<le> length b) serials"
    "concat (map (\<lambda>(b, n). take n b) serials) = header_of vs"
    by auto
  note w = write_varint_nat [OF c(2) assms(3)]
  have r: "\<lparr>aw_buf = replicate (h + length (body_of vs)) 0, aw_pos = 0\<rparr> = wr [] (h + length (body_of vs))"
    by (simp add: wr_def)
  have len: "length (varint_ref h) = varint_len h" by (rule length_varint_ref) (rule assms(3))
  have le: "varint_len h \<le> h + length (body_of vs)"
    "length (header_of vs) \<le> h + length (body_of vs) - varint_len h"
    "h + length (body_of vs) - varint_len h - length (header_of vs) = length (body_of vs)"
    using h by linarith+
  have hl: "varint_len h + length (header_of vs) = h" using h by linarith
  have s: "append_serials serials (wr (varint_ref h) (h + length (body_of vs) - varint_len h)) =
      Inr (wr (varint_ref h @ header_of vs) (length (body_of vs)))"
    using append_serials_wr [OF c(3), of "h + length (body_of vs) - varint_len h" "varint_ref h"] le by (simp add: c(4))
  have e: "extend_from_slice (varint_ref h) (wr [] (h + length (body_of vs))) = Inr (wr (varint_ref h) (h + length (body_of vs) - varint_len h))"
    using extend_wr [of "varint_ref h" "h + length (body_of vs)" "[]"] le(1) by (simp add: len)
  have v: "append_values vs (wr (varint_ref h @ header_of vs) (length (body_of vs))) =
      Inr (wr (varint_ref h @ header_of vs @ body_of vs) 0, refs_at h vs)"
    using append_values_wr [of vs "length (body_of vs)" "varint_ref h @ header_of vs"] by (simp add: len hl)
  have t: "slice_range (varint_ref h @ drop (varint_len h) scratch) 0 (varint_len h) = Inr (varint_ref h)"
    by (simp add: len)
  show ?thesis
    unfolding from_registers_def c(1)
    by (simp add: assms(2) w(1) r t e s v Let_def, simp add: wr_def)
qed

lemma take_drop_mid: "take (length b) (drop (length a) (a @ b @ c)) = b"
  by simp

lemma to_owned_refs_at:
  "map (to_owned (pre @ body_of vs @ post)) (refs_at (length pre) vs) = vs"
proof (induction vs arbitrary: pre)
  case (Cons v vs)
  have "to_owned (pre @ content v @ rest) (ref_at (length pre) v) = v" for rest
    by (cases v) (simp_all add: to_owned_def ref_at_def content_def to_slice_def)
  then show ?case using Cons [of "pre @ content v"] by simp
qed simp

section \<open>The small vector\<close>

definition sv_of :: "nat \<Rightarrow> 'a list \<Rightarrow> 'a small_vec" where
  "sv_of n xs = \<lparr>sv_data = map Some (take n xs) @ replicate (n - length xs) None, sv_len = length xs,
     sv_extra = (if length xs \<le> n then None else Some (drop n xs))\<rparr>"

lemma sv_new_of: "sv_new n = sv_of n []"
  by (simp add: sv_new_def sv_of_def)

lemma sv_push_of: "sv_push x (sv_of n xs) = sv_of n (xs @ [x])"
proof (cases "length xs < n")
  case True
  then obtain k where k: "n - length xs = Suc k" by (metis Suc_diff_Suc)
  then show ?thesis using True by (auto simp: sv_push_def sv_of_def list_update_append)
next
  case False
  then show ?thesis by (auto simp: sv_push_def sv_of_def)
qed

lemma sv_get_of: "sv_get i (sv_of n xs) = Inr (slice_get xs i)"
  by (auto simp: sv_get_def sv_of_def sv_get_from_heap_def nth_append slice_idx_def slice_get_def)

lemma init_slots_of: "init_slots (sv_of n xs) = Inr (take n xs)"
proof -
  have l: "length (sv_data (sv_of n xs)) = n" "sv_len (sv_of n xs) = length xs" by (auto simp: sv_of_def)
  have "take (min (length xs) n) (map Some (take n xs) @ replicate (n - length xs) None) = map Some (take n xs)"
    by (simp add: min.commute)
  then have "take (min (sv_len (sv_of n xs)) (length (sv_data (sv_of n xs)))) (sv_data (sv_of n xs)) = map Some (take n xs)"
    unfolding l by (simp add: sv_of_def)
  then show ?thesis by (auto simp: init_slots_def Let_def map_idI)
qed

lemma sv_all: "take n xs @ (case sv_extra (sv_of n xs) of None \<Rightarrow> [] | Some ys \<Rightarrow> ys) = xs"
  by (simp add: sv_of_def)

section \<open>Reading a value\<close>

text \<open>What a reader gets: the subtype of a text is not stored, an empty slice has a null pointer.\<close>

definition as_read :: "val \<Rightarrow> val" where
  "as_read v = (case v of VText t _ \<Rightarrow> VText t SubText | _ \<Rightarrow> v)"

definition slice_at :: "nat \<Rightarrow> bytes \<Rightarrow> raw_slice" where
  "slice_at pos b = (if b = [] then \<lparr>rs_data = None, rs_len = 0\<rparr> else \<lparr>rs_data = Some pos, rs_len = length b\<rparr>)"

definition read_at :: "nat \<Rightarrow> val \<Rightarrow> ref_value" where
  "read_at pos v = (case v of VText t _ \<Rightarrow> RText (slice_at pos t) SubText
     | VBlob b \<Rightarrow> RBlob (slice_at pos b) | _ \<Rightarrow> ref_at pos v)"

lemma read_int_content:
  "read_value pos (be_bytes (int_width i) (unat i) @ rest) (serial_type_of (VInteger i)) = Inr (RInteger i, int_width i)"
proof (cases rule: int_kind_cases [of i])
  case zero
  then have "i = 0" by (metis of_int_0 of_int_sint scast_id)
  then show ?thesis using zero by (simp add: read_value_def)
next
  case one
  then have "i = 1" by (metis of_int_1 of_int_sint scast_id)
  then show ?thesis using one by (simp add: read_value_def)
next
  case i8
  obtain a where a: "be_bytes 1 (unat i) = [a]" by (metis One_nat_def append_Nil be_bytes.simps)
  have "word_of_int (signed_take_bit 7 (int (be_nat [a]))) = i"
    using signed_bytes [of "[a]" 0 i] a i8 by simp
  moreover have "(from_be [a] :: u8) = a" using be_nat_snoc [of "[]" a] by (simp add: from_be_def)
  ultimately have "scast a = i" using scast_from_be [of "[a]", where 'a = 8] by simp
  then show ?thesis using i8 a by (simp add: read_value_def del: be_bytes.simps)
next
  case i16
  obtain a b where a: "be_bytes 2 (unat i) = [a, b]"
    using length_bytes_cases(1) [of "be_bytes 2 (unat i)"] by auto
  have "word_of_int (signed_take_bit 15 (int (be_nat [a, b]))) = i"
    using signed_bytes [of "[a, b]" 1 i] a i16 by (simp add: numeral_2_eq_2)
  then have "scast (from_be [a, b] :: u16) = i" using scast_from_be [of "[a, b]", where 'a = 16] by simp
  then show ?thesis using i16 a by (simp add: read_value_def)
next
  case i24
  obtain a b c where a: "be_bytes 3 (unat i) = [a, b, c]"
    using length_bytes_cases(2) [of "be_bytes 3 (unat i)"] by auto
  have x: "signed_take_bit 23 (int (be_nat [a, b, c])) = sint i"
    using signed_low_bytes [of 2 i] be_nat_be_bytes [of 3 "unat i"] a i24 by (simp add: numeral_3_eq_3)
  have "signed_take_bit 31 (sint i) = sint i"
    using i24 by (intro signed_take_bit_int_eq_self) simp_all
  then have "sint (word_of_int (sint i) :: u32) = sint i"
    by (simp add: sint_uint signed_take_bit_take_bit unsigned_of_int)
  moreover have "(from_be [sign_extension a, a, b, c] :: u32) = word_of_int (sint i)"
    using sign_extend_bytes [of "[a, b, c]" a "[b, c]" 1, where 'a = 32] by (simp add: x)
  ultimately have "scast (from_be [sign_extension a, a, b, c] :: u32) = i"
    by (metis of_int_sint scast_eq scast_id)
  then show ?thesis using i24 a by (simp add: read_value_def)
next
  case i32
  obtain a b c d where a: "be_bytes 4 (unat i) = [a, b, c, d]"
    using length_bytes_cases(3) [of "be_bytes 4 (unat i)"] by auto
  have "word_of_int (signed_take_bit 31 (int (be_nat [a, b, c, d]))) = i"
    using signed_bytes [of "[a, b, c, d]" 3 i] a i32 by simp
  then have "scast (from_be [a, b, c, d] :: u32) = i" using scast_from_be [of "[a, b, c, d]", where 'a = 32] by simp
  then show ?thesis using i32 a by (simp add: read_value_def)
next
  case i48
  obtain a b c d e f where a: "be_bytes 6 (unat i) = [a, b, c, d, e, f]"
    using length_bytes_cases(4) [of "be_bytes 6 (unat i)"] by auto
  have "word_of_int (signed_take_bit 47 (int (be_nat [a, b, c, d, e, f]))) = i"
    using signed_bytes [of "[a, b, c, d, e, f]" 5 i] a i48 by simp
  then have "from_be [sign_extension a, sign_extension a, a, b, c, d, e, f] = i"
    using sign_extend_bytes [of "[a, b, c, d, e, f]" a "[b, c, d, e, f]" 2, where 'a = 64] by (simp add: numeral_2_eq_2)
  then show ?thesis using i48 a by (simp add: read_value_def)
next
  case i64
  obtain a b c d e f g h where a: "be_bytes 8 (unat i) = [a, b, c, d, e, f, g, h]"
    using length_bytes_cases(5) [of "be_bytes 8 (unat i)"] by auto
  have "from_be [a, b, c, d, e, f, g, h] = i"
    using from_be_to_be [of 8 i] a by (simp add: to_be_def)
  then show ?thesis using i64 a by (simp add: read_value_def)
qed

lemma read_value_content:
  assumes "val_ok v"
  shows "read_value pos (content v @ rest) (serial_type_of v) = Inr (read_at pos v, length (content v))"
proof (cases v)
  case (VInteger i)
  then show ?thesis using read_int_content by (simp add: content_def read_at_def ref_at_def)
next
  case (VFloat f)
  obtain a b c d e g h k where a: "to_be 8 f = [a, b, c, d, e, g, h, k]"
    using length_bytes_cases(5) [of "to_be 8 f"] by auto
  have "from_be [a, b, c, d, e, g, h, k] = f"
    using from_be_to_be [of 8 f] a by simp
  then show ?thesis using VFloat a
    by (simp add: serial_type_of_def read_value_def content_def read_at_def ref_at_def)
next
  case (VText t st)
  then have "length t < 2 ^ 62" using assms by (simp add: val_ok_def)
  then show ?thesis using VText
    by (auto simp: serial_type_of_def read_value_def content_def read_at_def slice_at_def st_size_def kind_string_type)
next
  case (VBlob b)
  then have "length b < 2 ^ 62" using assms by (simp add: val_ok_def)
  then show ?thesis using VBlob
    by (auto simp: serial_type_of_def read_value_def content_def read_at_def slice_at_def st_size_def kind_string_type)
qed (simp add: serial_type_of_def read_value_def content_def read_at_def ref_at_def)

lemma valid_serial_type:
  assumes "val_ok v"
  shows "serial_type_of v \<noteq> 10" "serial_type_of v \<noteq> 11"
proof -
  have "\<exists>k. kind (serial_type_of v) = Inr k"
    using st_size_content [OF assms] by (auto simp: st_size_def)
  moreover have "kind 10 = Inl Panic" "kind 11 = Inl Panic" by (simp_all add: kind_def)
  ultimately show "serial_type_of v \<noteq> 10" "serial_type_of v \<noteq> 11" by (metis Inl_Inr_False)+
qed

section \<open>Reading a record\<close>

lemma header_loop_header_of:
  assumes "list_all val_ok vs" "h = length (header_of vs)"
  shows "header_loop (pre @ header_of vs @ post) h (length pre) (sv_of 64 xs) =
    Inr (length pre + h, sv_of 64 (xs @ map serial_type_of vs))"
  using assms
proof (induction vs arbitrary: pre xs h)
  case Nil
  then show ?case by (simp add: header_loop.simps)
next
  case (Cons v vs)
  let ?k = "unat (serial_type_of v)"
  have r: "read_varint (st_bytes v @ rest) = Inr (serial_type_of v, varint_len ?k)" for rest
    using read_varint_ref [of ?k rest] unat_u64_less [of "serial_type_of v"] by (simp add: st_bytes_def)
  have v: "validate_serial_type (serial_type_of v) = Inr ()"
    using Cons.prems valid_serial_type [of v] by (simp add: validate_serial_type_def u64_is_valid_serial_type_def)
  have h: "h = varint_len ?k + length (header_of vs)" "0 < h"
    using Cons.prems(2) varint_len_bounds(1) [of ?k] by (simp_all add: length_st_bytes)
  show ?case
    using Cons.IH [of "length (header_of vs)" "pre @ st_bytes v" "xs @ [serial_type_of v]"] Cons.prems(1) h
    by (subst header_loop.simps) (simp add: r v sv_push_of length_st_bytes add.assoc)
qed

lemma values_loop_append:
  "values_loop (as @ bs) pos r = (case values_loop as pos r of
     (r, Inl e) \<Rightarrow> (r, Inl e) | (r, Inr pos) \<Rightarrow> values_loop bs pos r)"
  by (induction as arbitrary: pos r) (auto split: sum.splits)

text \<open>The two value loops are one loop over all the serial types.\<close>

lemma read_record_eq:
  "read_record payload r =
     (let r = \<lparr>ir_payload = payload, ir_values = [], ir_recreating = True\<rparr> in
      case res_bind (read_varint payload) (\<lambda>(header_size, nr).
             if unat header_size < nr then Inl (Corrupt ''Invalid record header size'')
             else header_loop payload (unat header_size - nr) nr (sv_of 64 [])) of
        Inl e \<Rightarrow> (r, Inl e)
      | Inr (pos, sts) \<Rightarrow>
          (case init_slots sts of
             Inl e \<Rightarrow> (r, Inl e)
           | Inr inline \<Rightarrow>
             (case values_loop (inline @ (case sv_extra sts of None \<Rightarrow> [] | Some xs \<Rightarrow> xs)) pos r of
                (r, p) \<Rightarrow> (r, res_bind p (\<lambda>_. Inr ())))))"
proof -
  have r: "start_serialization payload (invalidate r) = \<lparr>ir_payload = payload, ir_values = [], ir_recreating = True\<rparr>"
    by (simp add: start_serialization_def invalidate_def)
  show ?thesis
    unfolding read_record_def r Let_def sv_new_of
    by (auto simp: res_bind_def values_loop_append split: sum.splits option.splits prod.splits)
qed

fun reads_at :: "nat \<Rightarrow> val list \<Rightarrow> ref_value list" where
  "reads_at pos [] = []"
| "reads_at pos (v # vs) = read_at pos v # reads_at (pos + length (content v)) vs"

lemma values_loop_body_of:
  assumes "list_all val_ok vs" "ir_payload r = pre @ body_of vs @ post" "ir_recreating r"
  shows "values_loop (map serial_type_of vs) (length pre) r =
    (r\<lparr>ir_values := ir_values r @ reads_at (length pre) vs\<rparr>, Inr (length pre + length (body_of vs)))"
  using assms
proof (induction vs arbitrary: pre r)
  case (Cons v vs)
  have v: "val_ok v" using Cons.prems(1) by simp
  have t: "serial_type_try_from (serial_type_of v) = Inr (serial_type_of v)"
    using valid_serial_type [OF v] by (simp add: serial_type_try_from_def)
  let ?r = "r\<lparr>ir_values := ir_values r @ [read_at (length pre) v]\<rparr>"
  have "values_loop (map serial_type_of vs) (length (pre @ content v)) ?r =
    (?r\<lparr>ir_values := ir_values ?r @ reads_at (length (pre @ content v)) vs\<rparr>, Inr (length (pre @ content v) + length (body_of vs)))"
    by (rule Cons.IH) (use Cons.prems in simp_all)
  then show ?case
    using Cons.prems by (simp add: t read_value_content [OF v] add_value_def add.assoc)
qed simp

lemma to_owned_reads_at:
  "map (to_owned (pre @ body_of vs @ post)) (reads_at (length pre) vs) = map as_read vs"
proof (induction vs arbitrary: pre)
  case (Cons v vs)
  have "to_owned (pre @ content v @ rest) (read_at (length pre) v) = as_read v" for rest
    by (cases v) (simp_all add: to_owned_def read_at_def ref_at_def content_def to_slice_def slice_at_def as_read_def)
  then show ?case using Cons [of "pre @ content v"] by simp
qed simp

lemma read_record_encoded:
  assumes "list_all val_ok vs" "h = length (header_of vs) + varint_len h" "h < 2 ^ 64"
  defines "p \<equiv> varint_ref h @ header_of vs @ body_of vs"
  shows "read_record p r = (\<lparr>ir_payload = p, ir_values = reads_at h vs, ir_recreating = True\<rparr>, Inr ())"
proof -
  have v: "read_varint p = Inr (word_of_nat h, varint_len h)"
    unfolding p_def by (rule read_varint_ref) (rule assms(3))
  have len: "length (varint_ref h) = varint_len h" by (rule length_varint_ref) (rule assms(3))
  have h: "h - varint_len h = length (header_of vs)" "\<not> h < varint_len h" "varint_len h + length (header_of vs) = h"
    using assms(2) by linarith+
  have l: "header_loop p (h - varint_len h) (varint_len h) (sv_of 64 []) = Inr (h, sv_of 64 (map serial_type_of vs))"
    using header_loop_header_of [OF assms(1) refl, of "varint_ref h" "body_of vs" "[]"] h
    by (simp add: p_def len)
  have vl: "values_loop (map serial_type_of vs) h \<lparr>ir_payload = p, ir_values = [], ir_recreating = True\<rparr> =
     (\<lparr>ir_payload = p, ir_values = reads_at h vs, ir_recreating = True\<rparr>, Inr (h + length (body_of vs)))"
    using values_loop_body_of [OF assms(1), of "\<lparr>ir_payload = p, ir_values = [], ir_recreating = True\<rparr>" "varint_ref h @ header_of vs" "[]"]
    by (simp add: p_def len h(3))
  show ?thesis
    unfolding read_record_eq Let_def v using assms(3) h(2)
    by (simp add: unat_u64_of_nat l init_slots_of sv_all vl)
qed

end
