(* ===== verification/RecordProps.thy ===== *)
theory RecordProps
  imports RecordDec
begin

text \<open>
  The properties of the record format: the round trip, the agreement of the encoders, the length
  prefix, and that no byte string makes the decoder panic or read outside the payload.
\<close>

section \<open>Arbitrary bytes\<close>

definition slice_in :: "nat \<Rightarrow> raw_slice \<Rightarrow> bool" where
  "slice_in n s = (case rs_data s of None \<Rightarrow> rs_len s = 0 | Some off \<Rightarrow> off + rs_len s \<le> n)"

definition ref_in :: "nat \<Rightarrow> ref_value \<Rightarrow> bool" where
  "ref_in n v = (case v of RText s _ \<Rightarrow> slice_in n s | RBlob s \<Rightarrow> slice_in n s | _ \<Rightarrow> True)"

definition is_corrupt :: "limbo_error \<Rightarrow> bool" where
  "is_corrupt e = (\<exists>m. e = Corrupt m)"

lemma kind_valid:
  assumes "st \<noteq> 10" "st \<noteq> 11"
  obtains k where "kind st = Inr k"
proof (cases "kind st")
  case (Inl e)
  then have "\<not> 12 \<le> st" "st \<notin> {0, 1, 2, 3, 4, 5, 6, 7, 8, 9}"
    by (auto simp: kind_def split: if_splits)
  then have "unat st < 12" "unat st \<notin> {0, 1, 2, 3, 4, 5, 6, 7, 8, 9}"
    by (simp_all add: word_le_nat_alt word_unat_eq_iff)
  then have "unat st = 10 \<or> unat st = 11" by simp presburger
  then show thesis using assms by (simp add: word_unat_eq_iff)
qed (rule that)

lemma read_value_safe:
  assumes "st \<noteq> 10" "st \<noteq> 11"
  shows "case read_value pos buf st of Inl e \<Rightarrow> is_corrupt e
    | Inr (v, n) \<Rightarrow> n \<le> length buf \<and> ref_in (pos + length buf) v"
proof -
  obtain k where k: "kind st = Inr k" using kind_valid [OF assms] .
  show ?thesis
    by (cases k) (auto simp: read_value_def k st_size_def is_corrupt_def ref_in_def slice_in_def Suc_le_eq)
qed

lemma header_loop_safe:
  assumes "pos \<le> length payload" "10 \<notin> set xs" "11 \<notin> set xs"
  shows "case header_loop payload h pos (sv_of 64 xs) of Inl e \<Rightarrow> is_corrupt e
    | Inr (pos', sts) \<Rightarrow> pos' = pos + h \<and> pos' \<le> length payload \<and>
        (\<exists>ys. sts = sv_of 64 ys \<and> 10 \<notin> set ys \<and> 11 \<notin> set ys)"
  using assms
proof (induction h arbitrary: pos xs rule: less_induct)
  case (less h)
  show ?case
  proof (cases "h = 0")
    case True
    then show ?thesis using less.prems by (auto simp: header_loop.simps)
  next
    case False
    show ?thesis
    proof (cases "read_varint (drop pos payload)")
      case (Inl e)
      then have "e = Corrupt ''Invalid varint''"
        using read_varint_loop_error [of "drop pos payload" 0 0 e] by (simp add: read_varint_def)
      then show ?thesis using less.prems False Inl
        by (subst header_loop.simps) (simp add: is_corrupt_def)
    next
      case (Inr a)
      then obtain st nr where a: "read_varint (drop pos payload) = Inr (st, nr)" by (cases a) auto
      have nr: "1 \<le> nr" "nr \<le> length payload - pos" using read_varint_size [OF a] by auto
      show ?thesis
      proof (cases "st = 10 \<or> st = 11 \<or> h < nr")
        case True
        then show ?thesis using less.prems False a
          by (subst header_loop.simps) (auto simp: is_corrupt_def validate_serial_type_def u64_is_valid_serial_type_def)
      next
        case ok: False
        have "header_loop payload h pos (sv_of 64 xs) = header_loop payload (h - nr) (pos + nr) (sv_of 64 (xs @ [st]))"
          using less.prems(1) False a ok
          by (subst header_loop.simps) (simp add: validate_serial_type_def u64_is_valid_serial_type_def sv_push_of)
        moreover have "h - nr < h" "pos + nr \<le> length payload" "10 \<notin> set (xs @ [st])" "11 \<notin> set (xs @ [st])"
          using nr False ok less.prems by auto
        ultimately show ?thesis
          using less.IH [of "h - nr" "pos + nr" "xs @ [st]"] ok by (auto split: sum.splits)
      qed
    qed
  qed
qed

lemma values_loop_safe:
  assumes "pos \<le> length (ir_payload r)" "10 \<notin> set sts" "11 \<notin> set sts" "ir_recreating r"
    "list_all (ref_in (length (ir_payload r))) (ir_values r)"
  shows "case values_loop sts pos r of (r', res) \<Rightarrow>
    ir_payload r' = ir_payload r \<and> list_all (ref_in (length (ir_payload r))) (ir_values r') \<and>
    (case res of Inl e \<Rightarrow> is_corrupt e
     | Inr pos' \<Rightarrow> pos \<le> pos' \<and> pos' \<le> length (ir_payload r) \<and> length (ir_values r') = length (ir_values r) + length sts)"
  using assms
proof (induction sts arbitrary: pos r)
  case (Cons st sts)
  have t: "serial_type_try_from st = Inr st" using Cons.prems by (auto simp: serial_type_try_from_def)
  have "st \<noteq> 10" "st \<noteq> 11" using Cons.prems by auto
  note rv = read_value_safe [OF this, where pos = pos and buf = "drop pos (ir_payload r)"]
  show ?case
  proof (cases "read_value pos (drop pos (ir_payload r)) st")
    case (Inl e)
    then show ?thesis using Cons.prems rv by (simp add: t)
  next
    case (Inr a)
    then obtain v n where a: "read_value pos (drop pos (ir_payload r)) st = Inr (v, n)" by (cases a) auto
    let ?r = "r\<lparr>ir_values := ir_values r @ [v]\<rparr>"
    have "values_loop (st # sts) pos r = values_loop sts (pos + n) ?r"
      using Cons.prems a by (simp add: t add_value_def)
    moreover have "pos + n \<le> length (ir_payload r)" "ref_in (length (ir_payload r)) v"
      using rv a Cons.prems(1) by auto
    ultimately show ?thesis
      using Cons.IH [of "pos + n" ?r] Cons.prems by (auto split: sum.splits prod.splits)
  qed
qed simp

lemma read_record_bounds:
  "case read_record payload r of (r', res) \<Rightarrow>
     ir_payload r' = payload \<and> list_all (ref_in (length payload)) (ir_values r') \<and>
     (case res of Inl e \<Rightarrow> is_corrupt e | Inr _ \<Rightarrow> True)"
proof -
  let ?r = "\<lparr>ir_payload = payload, ir_values = [], ir_recreating = True\<rparr>"
  let ?h = "res_bind (read_varint payload) (\<lambda>(header_size, nr).
             if unat header_size < nr then Inl (Corrupt ''Invalid record header size'')
             else header_loop payload (unat header_size - nr) nr (sv_of 64 []))"
  have "case ?h of Inl e \<Rightarrow> is_corrupt e | Inr (pos, sts) \<Rightarrow>
      pos \<le> length payload \<and> (\<exists>ys. sts = sv_of 64 ys \<and> 10 \<notin> set ys \<and> 11 \<notin> set ys)"
  proof (cases "read_varint payload")
    case (Inl e)
    then show ?thesis
      using read_varint_loop_error [of payload 0 0 e] by (simp add: read_varint_def is_corrupt_def)
  next
    case (Inr a)
    then obtain v nr where a: "read_varint payload = Inr (v, nr)" by (cases a) auto
    show ?thesis
      using header_loop_safe [of nr payload "[]" "unat v - nr"] read_varint_size [OF a] a
      by (auto simp: is_corrupt_def split: sum.splits)
  qed
  note head = this
  have vals: "ir_payload r' = payload \<and> list_all (ref_in (length payload)) (ir_values r') \<and>
      (case res of Inl e \<Rightarrow> is_corrupt e | Inr _ \<Rightarrow> True)"
    if "pos \<le> length payload" "10 \<notin> set ys" "11 \<notin> set ys" "values_loop ys pos ?r = (r', res)" for pos ys r' res
    using values_loop_safe [of pos ?r ys] that by (auto split: sum.splits)
  show ?thesis
  proof (cases ?h)
    case (Inl e)
    then show ?thesis using head unfolding read_record_eq Let_def by simp
  next
    case (Inr a)
    then obtain pos ys where a: "?h = Inr (pos, sv_of 64 ys)" and y: "pos \<le> length payload" "10 \<notin> set ys" "11 \<notin> set ys"
      using head by (cases a) auto
    obtain r' res where v: "values_loop ys pos ?r = (r', res)" by fastforce
    show ?thesis
      unfolding read_record_eq Let_def a
      using vals [OF y v] by (cases res) (simp_all add: init_slots_of sv_all v)
  qed
qed

section \<open>Properties\<close>

text \<open>
  C9. Round trip of the record format: serialising any row of values after any buffer appends a
  byte string, and reading that byte string into any record succeeds and gives the same values,
  except that a text comes back with the plain text subtype. The bounds (texts and blobs below
  2^62 bytes, fewer than 2^59 columns) are those of the address space.
\<close>

theorem record_roundtrip:
  assumes "record_ok vs"
  shows "\<exists>p r'. serialize vs buf = Some (Inr (buf @ p)) \<and> read_record p r = (r', Inr ()) \<and>
    ir_payload r' = p \<and> map (to_owned p) (ir_values r') = map as_read vs"
proof -
  note ok = record_ok_header [OF assms]
  obtain h where h: "full_header_size (length (header_of vs)) = Some (Inr h)" "h = length (header_of vs) + varint_len h"
    using full_header_size_fixpoint [OF ok(2)] .
  have lt: "h < 2 ^ 64" using h(2) ok(2) varint_len_bounds(2) [of h] by linarith
  let ?p = "varint_ref h @ header_of vs @ body_of vs"
  have "map (to_owned ?p) (reads_at h vs) = map as_read vs"
    using to_owned_reads_at [of "varint_ref h @ header_of vs" vs "[]"] h(2) length_varint_ref [OF lt]
    by (simp add: add.commute)
  then show ?thesis
    using serialize_eq [OF h(1) lt] read_record_encoded [OF ok(1) h(2) lt] by (metis immutable_record.select_convs(1,2))
qed

definition demo_row :: "val list" where
  "demo_row = [VNull, VInteger 1, VInteger (-2), VInteger 100000, VFloat 0x4000000000000000,
     VText [104, 105] SubJson, VBlob []]"

lemma demo_row_ok: "record_ok demo_row"
  by (simp add: demo_row_def record_ok_def val_ok_def)

theorem record_roundtrip_witness:
  "record_ok demo_row \<and> (\<exists>p r'. serialize demo_row [7] = Some (Inr ([7] @ p)) \<and>
    read_record p \<lparr>ir_payload = [1], ir_values = [RNull], ir_recreating = False\<rparr> = (r', Inr ()) \<and>
    ir_payload r' = p \<and> map (to_owned p) (ir_values r') =
      [VNull, VInteger 1, VInteger (-2), VInteger 100000, VFloat 0x4000000000000000, VText [104, 105] SubText, VBlob []])"
  using record_roundtrip [OF demo_row_ok, of "[7]" "\<lparr>ir_payload = [1], ir_values = [RNull], ir_recreating = False\<rparr>"]
    demo_row_ok by (simp add: demo_row_def as_read_def)



text \<open>
  The loop that sizes a large header always ends: for any sum of serial type lengths that
  leaves room in 64 bits, it returns the least header size that is that sum plus the length of
  its own varint.
\<close>

theorem resolve_big_header_size_least:
  assumes "t + 9 < 2 ^ 64"
  shows "\<exists>h b n. resolve_big_header_size t = Some (Inr h) \<and>
    write_varint (replicate 9 0) (word_of_nat h) = Inr (b, n) \<and> h = t + n \<and>
    (\<forall>h' b' n'. h' < h \<and> write_varint (replicate 9 0) (word_of_nat h') = Inr (b', n') \<longrightarrow> h' \<noteq> t + n')"
proof -
  obtain h where h: "resolve_big_header_size t = Some (Inr h)" "h = t + varint_len h"
      "\<And>h'. h' = t + varint_len h' \<Longrightarrow> h \<le> h'"
    using resolve_least [OF assms] by metis
  have lt: "h < 2 ^ 64" using h(2) assms varint_len_bounds(2) [of h] by linarith
  have w: "write_varint (replicate 9 0) (word_of_nat k) =
      Inr (varint_ref k @ drop (varint_len k) (replicate 9 0), varint_len k)" if "k \<le> h" for k
    using write_varint_nat(1) [of "replicate 9 0" k] that lt by simp
  have "h' \<noteq> t + n'" if "h' < h" "write_varint (replicate 9 0) (word_of_nat h') = Inr (b', n')" for h' b' n'
    using that w [of h'] h(3) [of h'] by auto
  then show ?thesis using h(1,2) w [of h] by blast
qed

theorem resolve_big_header_size_least_witness:
  "(16382::nat) + 9 < 2 ^ 64 \<and> (\<exists>h b n. resolve_big_header_size 16382 = Some (Inr h) \<and>
    write_varint (replicate 9 0) (word_of_nat h) = Inr (b, n) \<and> h = 16382 + n)"
  using resolve_big_header_size_least [of 16382] by auto

text \<open>
  C19. No byte string makes the decoder panic: reading any payload into any record either
  succeeds or fails with a corruption error, and in both cases every value left in the record
  points inside the payload.
\<close>

theorem read_record_safe:
  "\<exists>r' res. read_record payload r = (r', res) \<and>
    (\<forall>e. res = Inl e \<longrightarrow> is_corrupt e) \<and>
    ir_payload r' = payload \<and> list_all (ref_in (length payload)) (ir_values r')"
  using read_record_bounds [of payload r] by (auto split: prod.splits sum.splits)

theorem read_record_safe_witness:
  "\<exists>r' e. read_record [3, 10, 0] \<lparr>ir_payload = [], ir_values = [], ir_recreating = False\<rparr> = (r', Inl e) \<and> is_corrupt e"
proof -
  have "read_record [3, 10, 0] \<lparr>ir_payload = [], ir_values = [], ir_recreating = False\<rparr> =
    (\<lparr>ir_payload = [3, 10, 0], ir_values = [], ir_recreating = True\<rparr>, Inl (Corrupt ''Invalid serial type: ''))"
    by code_simp
  then show ?thesis
    using read_record_safe [of "[3, 10, 0]" "\<lparr>ir_payload = [], ir_values = [], ir_recreating = False\<rparr>"] by auto
qed

text \<open>
  \<open>serialize_serial\<close> appends what the record encoder appends, except for the integers 0 and 1,
  whose serial types carry no content: there it runs into its unreachable branch.
\<close>

theorem serialize_serial_spec:
  "serialize_serial v out =
    (if v = VInteger 0 \<or> v = VInteger 1 then Inl Panic else write_content v out)"
proof (cases v)
  case (VInteger i)
  have "sint (1 :: i64) = 1" by simp
  then have "sint i = 0 \<longleftrightarrow> i = 0" "sint i = 1 \<longleftrightarrow> i = 1"
    by (metis of_int_0 of_int_sint scast_id sint_0) (metis \<open>sint (1 :: i64) = 1\<close> of_int_1 of_int_sint scast_id)
  then show ?thesis using VInteger
    by (simp add: serialize_serial_def write_content_def int_bytes_const)
qed (simp_all add: serialize_serial_def write_content_def)

end
