(* ===== verification/WalLock.thy ===== *)
theory WalLock
  imports Prelude
begin

text \<open>
  \<open>LimboRwLock\<close> (\<open>storage/wal.rs\<close>): the read/write lock of the write-ahead log, first with each
  operation as one step, then as the sequence of its atomic accesses, so that the operations of
  several threads interleave. The field \<open>lock\<close> only ever holds the three named constants.
\<close>

section \<open>Operations as one step\<close>

datatype lock_word = NO_LOCK | SHARED_LOCK | WRITE_LOCK

definition READMARK_NOT_USED :: u32 where
  "READMARK_NOT_USED = 0xffffffff"

record rw_lock =
  lk_lock :: lock_word
  lk_nreads :: u32
  lk_value :: u32

definition rw_new :: rw_lock where
  "rw_new = \<lparr>lk_lock = NO_LOCK, lk_nreads = 0, lk_value = READMARK_NOT_USED\<rparr>"

definition rw_read :: "rw_lock \<Rightarrow> rw_lock \<times> bool" where
  "rw_read l = (case lk_lock l of
     NO_LOCK \<Rightarrow> (l\<lparr>lk_lock := SHARED_LOCK, lk_nreads := lk_nreads l + 1\<rparr>, True)
   | SHARED_LOCK \<Rightarrow> (l\<lparr>lk_nreads := lk_nreads l + 1\<rparr>, True)
   | WRITE_LOCK \<Rightarrow> (l, False))"

definition rw_write :: "rw_lock \<Rightarrow> rw_lock \<times> bool" where
  "rw_write l = (case lk_lock l of
     NO_LOCK \<Rightarrow> (l\<lparr>lk_lock := WRITE_LOCK\<rparr>, True)
   | SHARED_LOCK \<Rightarrow> (l, False)
   | WRITE_LOCK \<Rightarrow> (l, False))"

definition rw_unlock :: "rw_lock \<Rightarrow> rw_lock" where
  "rw_unlock l = (case lk_lock l of
     NO_LOCK \<Rightarrow> l
   | SHARED_LOCK \<Rightarrow>
       if lk_nreads l = 1 then l\<lparr>lk_lock := NO_LOCK, lk_nreads := 0\<rparr>
       else l\<lparr>lk_nreads := lk_nreads l - 1\<rparr>
   | WRITE_LOCK \<Rightarrow> l\<lparr>lk_lock := NO_LOCK\<rparr>)"

section \<open>The contract of a read/write lock\<close>

text \<open>
  The abstract lock counts its readers and knows whether it has a writer. A provider relates its
  states to the abstract ones and implements the three operations.
\<close>

locale rw_contract =
  fixes held :: "'l \<Rightarrow> nat \<Rightarrow> bool \<Rightarrow> bool"
    and rd :: "'l \<Rightarrow> 'l \<times> bool" and wr :: "'l \<Rightarrow> 'l \<times> bool" and un :: "'l \<Rightarrow> 'l"
    and room :: "nat \<Rightarrow> bool"
  assumes exclusive: "held l n w \<Longrightarrow> \<not> (w \<and> 0 < n)"
    and rd_law: "held l n w \<Longrightarrow> room n \<Longrightarrow> rd l = (l', b) \<Longrightarrow> b = (\<not> w) \<and> held l' (if b then n + 1 else n) w"
    and wr_law: "held l n w \<Longrightarrow> wr l = (l', b) \<Longrightarrow> b = (n = 0 \<and> \<not> w) \<and> held l' n (w \<or> b)"
    and un_law: "held l n w \<Longrightarrow> held (un l) (n - 1) False"
    and room_law: "room (Suc n) \<Longrightarrow> room n"
begin

text \<open>A writer that got the lock and releases it leaves the lock free.\<close>

lemma write_then_unlock:
  assumes "held l n w" "wr l = (l', True)"
  shows "n = 0 \<and> \<not> w \<and> held (un l') 0 False"
  using wr_law [OF assms] un_law [of l' n "w \<or> True"] by auto

text \<open>While a reader holds the lock, no writer gets it.\<close>

lemma reader_blocks_writer:
  assumes "held l n w" "0 < n"
  shows "\<not> snd (wr l)"
  using wr_law [OF assms(1), of "fst (wr l)" "snd (wr l)"] assms(2) by auto

end

definition rw_held :: "rw_lock \<Rightarrow> nat \<Rightarrow> bool \<Rightarrow> bool" where
  "rw_held l n w =
     ((case lk_lock l of
         NO_LOCK \<Rightarrow> n = 0 \<and> \<not> w
       | SHARED_LOCK \<Rightarrow> 0 < n \<and> \<not> w
       | WRITE_LOCK \<Rightarrow> n = 0 \<and> w) \<and> n < 2 ^ 32 \<and> lk_nreads l = word_of_nat n)"

lemma nreads_one:
  assumes "n < 2 ^ 32"
  shows "(word_of_nat n = (1 :: u32)) = (n = 1)" "(word_of_nat n = (0 :: u32)) = (n = 0)"
proof -
  have u: "unat (word_of_nat n :: u32) = n" using assms by (simp only: unsigned_of_nat take_bit_eq_mod) simp
  show "(word_of_nat n = (1 :: u32)) = (n = 1)" "(word_of_nat n = (0 :: u32)) = (n = 0)"
    by (simp_all only: word_unat_eq_iff u unat_1 unat_0)
qed

interpretation lk: rw_contract rw_held rw_read rw_write rw_unlock "\<lambda>n. n + 1 < 2 ^ 32"
proof
  show "\<not> (w \<and> 0 < n)" if "rw_held l n w" for l n w
    using that by (auto simp: rw_held_def split: lock_word.splits)
  show "b = (\<not> w) \<and> rw_held l' (if b then n + 1 else n) w"
    if "rw_held l n w" "n + 1 < 2 ^ 32" "rw_read l = (l', b)" for l n w l' b
    using that by (auto simp: rw_held_def rw_read_def split: lock_word.splits)
  show "b = (n = 0 \<and> \<not> w) \<and> rw_held l' n (w \<or> b)" if "rw_held l n w" "rw_write l = (l', b)" for l n w l' b
    using that by (auto simp: rw_held_def rw_write_def split: lock_word.splits)
  show "rw_held (rw_unlock l) (n - 1) False" if "rw_held l n w" for l n w
    using that by (auto simp: rw_held_def rw_unlock_def nreads_one split: lock_word.splits)
qed simp

section \<open>Operations as atomic accesses\<close>

text \<open>
  Where a thread stands: outside, in one of the accesses of \<open>read\<close>, \<open>write\<close> or \<open>unlock\<close>, or
  holding the lock because its \<open>read\<close> or \<open>write\<close> returned true.
\<close>

datatype lock_pc =
    Outside
  | ReadLoad | ReadCas | ReadInc | ReadAdd | ReadReload | ReadRetake lock_word | ReadSub
  | Reading
  | WriteLoad | WriteCas
  | Writing
  | UnlockLoad | UnlockSub | UnlockCasShared | UnlockCasWrite
  | Panicked

record lock_sys =
  ls_lock :: lock_word
  ls_nreads :: u32
  ls_pc :: "nat \<Rightarrow> lock_pc"

definition cas :: "lock_word \<Rightarrow> lock_word \<Rightarrow> lock_word \<Rightarrow> lock_word \<times> bool" where
  "cas old new cur = (if cur = old then (new, True) else (cur, False))"

text \<open>One atomic access of thread \<open>t\<close>; an idle thread may start \<open>read\<close> or \<open>write\<close>, a holder \<open>unlock\<close>.\<close>

definition lock_access :: "nat \<Rightarrow> lock_sys \<Rightarrow> lock_sys" where
  "lock_access t s =
     (let goto = (\<lambda>pc s. s\<lparr>ls_pc := (ls_pc s)(t := pc)\<rparr>) in
      case ls_pc s t of
        Outside \<Rightarrow> s
      | ReadLoad \<Rightarrow> (case ls_lock s of
            NO_LOCK \<Rightarrow> goto ReadCas s | SHARED_LOCK \<Rightarrow> goto ReadAdd s | WRITE_LOCK \<Rightarrow> goto Outside s)
      | ReadCas \<Rightarrow> (case cas NO_LOCK SHARED_LOCK (ls_lock s) of
            (l, ok) \<Rightarrow> goto (if ok then ReadInc else Outside) (s\<lparr>ls_lock := l\<rparr>))
      | ReadInc \<Rightarrow> goto Reading (s\<lparr>ls_nreads := ls_nreads s + 1\<rparr>)
      | ReadAdd \<Rightarrow> goto ReadReload (s\<lparr>ls_nreads := ls_nreads s + 1\<rparr>)
      | ReadReload \<Rightarrow> goto (if ls_lock s \<noteq> SHARED_LOCK then ReadRetake (ls_lock s) else Reading) s
      | ReadRetake seen \<Rightarrow> (case cas seen SHARED_LOCK (ls_lock s) of
            (l, ok) \<Rightarrow> goto (if ok then Reading else ReadSub) (s\<lparr>ls_lock := l\<rparr>))
      | ReadSub \<Rightarrow> goto Outside (s\<lparr>ls_nreads := ls_nreads s - 1\<rparr>)
      | Reading \<Rightarrow> s
      | WriteLoad \<Rightarrow> (case ls_lock s of NO_LOCK \<Rightarrow> goto WriteCas s | _ \<Rightarrow> goto Outside s)
      | WriteCas \<Rightarrow> (case cas NO_LOCK WRITE_LOCK (ls_lock s) of
            (l, ok) \<Rightarrow> goto (if ok then Writing else Outside) (s\<lparr>ls_lock := l\<rparr>))
      | Writing \<Rightarrow> s
      | UnlockLoad \<Rightarrow> (case ls_lock s of
            NO_LOCK \<Rightarrow> goto Outside s | SHARED_LOCK \<Rightarrow> goto UnlockSub s | WRITE_LOCK \<Rightarrow> goto UnlockCasWrite s)
      | UnlockSub \<Rightarrow> goto (if ls_nreads s = 1 then UnlockCasShared else Outside) (s\<lparr>ls_nreads := ls_nreads s - 1\<rparr>)
      | UnlockCasShared \<Rightarrow> (case cas SHARED_LOCK NO_LOCK (ls_lock s) of
            (l, ok) \<Rightarrow> goto (if ok then Outside else Panicked) (s\<lparr>ls_lock := l\<rparr>))
      | UnlockCasWrite \<Rightarrow> (case cas WRITE_LOCK NO_LOCK (ls_lock s) of
            (l, ok) \<Rightarrow> goto (if ok then Outside else Panicked) (s\<lparr>ls_lock := l\<rparr>))
      | Panicked \<Rightarrow> s)"

inductive lock_step :: "lock_sys \<Rightarrow> lock_sys \<Rightarrow> bool" where
  start_read: "ls_pc s t = Outside \<Longrightarrow> lock_step s (s\<lparr>ls_pc := (ls_pc s)(t := ReadLoad)\<rparr>)"
| start_write: "ls_pc s t = Outside \<Longrightarrow> lock_step s (s\<lparr>ls_pc := (ls_pc s)(t := WriteLoad)\<rparr>)"
| start_unlock: "ls_pc s t = Reading \<or> ls_pc s t = Writing \<Longrightarrow> lock_step s (s\<lparr>ls_pc := (ls_pc s)(t := UnlockLoad)\<rparr>)"
| access: "lock_step s (lock_access t s)"

definition lock_init :: lock_sys where
  "lock_init = \<lparr>ls_lock = NO_LOCK, ls_nreads = 0, ls_pc = (\<lambda>_. Outside)\<rparr>"

section \<open>Runs\<close>

datatype rw_op = OpRead | OpWrite | OpUnlock

text \<open>One operation with the number of readers and the writer it leaves; only a holder unlocks.\<close>

definition rw_exec :: "rw_op \<Rightarrow> rw_lock \<times> nat \<times> bool \<Rightarrow> rw_lock \<times> nat \<times> bool" where
  "rw_exec op s = (case s of (l, n, w) \<Rightarrow> (case op of
     OpRead \<Rightarrow> (case rw_read l of (l', ok) \<Rightarrow> (l', if ok then n + 1 else n, w))
   | OpWrite \<Rightarrow> (case rw_write l of (l', ok) \<Rightarrow> (l', n, w \<or> ok))
   | OpUnlock \<Rightarrow> if 0 < n \<or> w then (rw_unlock l, n - 1, False) else s))"

lemma rw_exec_held:
  assumes "rw_held l n w" "n + 1 < 2 ^ 32" "rw_exec op (l, n, w) = (l', n', w')"
  shows "rw_held l' n' w' \<and> n' \<le> n + 1"
proof (cases op)
  case OpRead
  obtain k ok where r: "rw_read l = (k, ok)" by fastforce
  then show ?thesis using lk.rd_law [OF assms(1,2) r] assms(3) OpRead by (auto simp: rw_exec_def)
next
  case OpWrite
  obtain k ok where r: "rw_write l = (k, ok)" by fastforce
  then show ?thesis using lk.wr_law [OF assms(1) r] assms(3) OpWrite by (auto simp: rw_exec_def)
next
  case OpUnlock
  then show ?thesis using lk.un_law [OF assms(1)] assms by (auto simp: rw_exec_def split: if_splits)
qed

lemma rw_run_held:
  assumes "rw_held l n w" "n + length ops < 2 ^ 32" "fold rw_exec ops (l, n, w) = (l', n', w')"
  shows "rw_held l' n' w' \<and> n' \<le> n + length ops"
  using assms
proof (induction ops arbitrary: l n w)
  case (Cons op ops)
  obtain k m v where e: "rw_exec op (l, n, w) = (k, m, v)" by (metis prod_cases3)
  have "rw_held k m v \<and> m \<le> n + 1" using rw_exec_held [OF Cons.prems(1) _ e] Cons.prems(2) by simp
  then show ?case using Cons.IH [of k m v] Cons.prems(2,3) e by fastforce
qed simp

datatype lock_action = StartRead nat | StartWrite nat | StartUnlock nat | Access nat

definition lock_act :: "lock_action \<Rightarrow> lock_sys \<Rightarrow> lock_sys" where
  "lock_act a s = (case a of
     StartRead t \<Rightarrow> if ls_pc s t = Outside then s\<lparr>ls_pc := (ls_pc s)(t := ReadLoad)\<rparr> else s
   | StartWrite t \<Rightarrow> if ls_pc s t = Outside then s\<lparr>ls_pc := (ls_pc s)(t := WriteLoad)\<rparr> else s
   | StartUnlock t \<Rightarrow> if ls_pc s t = Reading \<or> ls_pc s t = Writing then s\<lparr>ls_pc := (ls_pc s)(t := UnlockLoad)\<rparr> else s
   | Access t \<Rightarrow> lock_access t s)"

lemma lock_act_steps: "lock_step\<^sup>*\<^sup>* s (lock_act a s)"
  by (auto simp: lock_act_def intro: lock_step.intros split: lock_action.splits)

lemma lock_acts_steps: "lock_step\<^sup>*\<^sup>* s (fold lock_act as s)"
proof (induction as arbitrary: s)
  case (Cons a as)
  then show ?case using lock_act_steps [of s a] by (auto intro: rtranclp_trans)
qed simp

section \<open>Properties\<close>

text \<open>
  C31. Exclusion when operations do not overlap: after any sequence of lock operations the lock
  word and the reader count agree with the holders, so that a writer excludes every reader and
  every other writer, a read succeeds exactly when there is no writer and a write exactly when
  the lock is free.
\<close>

theorem rw_lock_exclusion:
  assumes "length ops < 2 ^ 32 - 1" "fold rw_exec ops (rw_new, 0, False) = (l, n, w)"
  shows "\<not> (w \<and> 0 < n) \<and> snd (rw_read l) = (\<not> w) \<and> snd (rw_write l) = (n = 0 \<and> \<not> w) \<and>
    unat (lk_nreads l) = n"
proof -
  have "rw_held rw_new 0 False" by (simp add: rw_held_def rw_new_def)
  then have h: "rw_held l n w" "n \<le> length ops"
    using rw_run_held [of rw_new 0 False ops l n w] assms by auto
  have "unat (lk_nreads l) = n"
    using h(1) unfolding rw_held_def by (simp only: unsigned_of_nat take_bit_eq_mod) simp
  moreover have "n + 1 < 2 ^ 32" using h(2) assms(1) by simp
  ultimately show ?thesis
    using lk.exclusive [OF h(1)] lk.rd_law [OF h(1), of "fst (rw_read l)" "snd (rw_read l)"]
      lk.wr_law [OF h(1), of "fst (rw_write l)" "snd (rw_write l)"] by simp
qed

theorem rw_lock_exclusion_witness:
  "length [OpRead, OpWrite, OpRead, OpUnlock] < 2 ^ 32 - 1 \<and>
   (\<exists>l. fold rw_exec [OpRead, OpWrite, OpRead, OpUnlock] (rw_new, 0, False) = (l, 1, False) \<and>
     snd (rw_read l) \<and> \<not> snd (rw_write l) \<and> unat (lk_nreads l) = 1)"
proof -
  let ?l = "\<lparr>lk_lock = SHARED_LOCK, lk_nreads = 1, lk_value = READMARK_NOT_USED\<rparr>"
  have "fold rw_exec [OpRead, OpWrite, OpRead, OpUnlock] (rw_new, 0, False) = (?l, 1, False)"
    by (simp add: rw_exec_def rw_new_def rw_read_def rw_write_def rw_unlock_def)
  then show ?thesis
    using rw_lock_exclusion [of "[OpRead, OpWrite, OpRead, OpUnlock]" ?l 1 False] by auto
qed

text \<open>
  C32. The lock does not exclude when its accesses interleave: a reader that saw the lock shared,
  and finds it write-locked when it looks again, takes it from the writer. From the free lock a
  state is reachable in which one thread reads while another writes.
\<close>

theorem rw_lock_race:
  "\<exists>s. lock_step\<^sup>*\<^sup>* lock_init s \<and> ls_pc s 1 = Reading \<and> ls_pc s 2 = Writing"
proof -
  let ?as = "[StartRead 0, Access 0, Access 0, Access 0, StartRead 1, Access 1,
    StartUnlock 0, Access 0, Access 0, Access 0, StartWrite 2, Access 2, Access 2, Access 1, Access 1, Access 1]"
  have "ls_pc (fold lock_act ?as lock_init) 1 = Reading" "ls_pc (fold lock_act ?as lock_init) 2 = Writing"
    by code_simp+
  then show ?thesis using lock_acts_steps by blast
qed

end
