(* ===== verification/WalFormat.thy ===== *)
theory WalFormat
  imports WalLock
begin

text \<open>
  The write-ahead log on disk (\<open>storage/sqlite3_ondisk/mod.rs\<close>): its header, the cumulative
  checksum, the writers of header and frames, and the reader that rebuilds the shared state when
  the log is opened. The byte order of the target is the parameter \<open>be\<close>. A file is its bytes; a
  write past the end pads with zeros. Frame numbers, page numbers and offsets are natural
  numbers, cut to 32 bits where the code does so. File operations are taken to succeed.
\<close>

section \<open>Files\<close>

definition pwrite :: "nat \<Rightarrow> bytes \<Rightarrow> bytes \<Rightarrow> bytes" where
  "pwrite pos data file =
     (if data = [] then file
      else take pos file @ replicate (pos - length file) 0 @ data @ drop (pos + length data) file)"

definition pread :: "nat \<Rightarrow> nat \<Rightarrow> bytes \<Rightarrow> bytes" where
  "pread pos n file = take n (drop pos file)"

section \<open>Byte order\<close>

definition to_ne :: "bool \<Rightarrow> u32 \<Rightarrow> bytes" where
  "to_ne be w = (if be then to_be 4 w else rev (to_be 4 w))"

definition from_ne :: "bool \<Rightarrow> bytes \<Rightarrow> u32" where
  "from_ne be bs = from_be (if be then bs else rev bs)"

definition swap_bytes :: "u32 \<Rightarrow> u32" where
  "swap_bytes w = from_be (rev (to_be 4 w))"

section \<open>Headers\<close>

record wal_header =
  wh_magic :: u32
  wh_file_format :: u32
  wh_page_size :: u32
  wh_checkpoint_seq :: u32
  wh_salt_1 :: u32
  wh_salt_2 :: u32
  wh_checksum_1 :: u32
  wh_checksum_2 :: u32

record wal_frame_header =
  fh_page_number :: u32
  fh_db_size :: u32
  fh_salt_1 :: u32
  fh_salt_2 :: u32
  fh_checksum_1 :: u32
  fh_checksum_2 :: u32

definition WAL_HEADER_SIZE :: nat where "WAL_HEADER_SIZE = 32"
definition WAL_FRAME_HEADER_SIZE :: nat where "WAL_FRAME_HEADER_SIZE = 24"
definition WAL_MAGIC_LE :: u32 where "WAL_MAGIC_LE = 0x377f0682"
definition WAL_MAGIC_BE :: u32 where "WAL_MAGIC_BE = 0x377f0683"
definition MIN_PAGE_SIZE :: u32 where "MIN_PAGE_SIZE = 512"
definition MAX_PAGE_SIZE :: u32 where "MAX_PAGE_SIZE = 65536"

text \<open>\<open>WalHeader::as_bytes\<close>: the fields of the \<open>repr(C)\<close> struct as they lie in memory.\<close>

definition wh_as_bytes :: "bool \<Rightarrow> wal_header \<Rightarrow> bytes" where
  "wh_as_bytes be h = to_ne be (wh_magic h) @ to_ne be (wh_file_format h) @ to_ne be (wh_page_size h) @
     to_ne be (wh_checkpoint_seq h) @ to_ne be (wh_salt_1 h) @ to_ne be (wh_salt_2 h) @
     to_ne be (wh_checksum_1 h) @ to_ne be (wh_checksum_2 h)"

section \<open>Checksum\<close>

definition checksum_word :: "bool \<Rightarrow> bool \<Rightarrow> bytes \<Rightarrow> u32" where
  "checksum_word be native_endian bs = (if native_endian then from_ne be bs else swap_bytes (from_ne be bs))"

function checksum_loop :: "bool \<Rightarrow> bool \<Rightarrow> bytes \<Rightarrow> nat \<Rightarrow> u32 \<Rightarrow> u32 \<Rightarrow> u32 \<times> u32" where
  "checksum_loop be native_endian buf i s0 s1 =
     (if i < length buf then
        let v0 = checksum_word be native_endian (take 4 (drop i buf));
            v1 = checksum_word be native_endian (take 4 (drop (i + 4) buf));
            s0 = s0 + (v0 + s1);
            s1 = s1 + (v1 + s0)
        in checksum_loop be native_endian buf (i + 8) s0 s1
      else (s0, s1))"
  by pat_completeness auto
termination
  by (relation "measure (\<lambda>(_, _, buf, i, _). length buf - i)") auto

declare checksum_loop.simps [simp del]

definition checksum_wal :: "bool \<Rightarrow> bytes \<Rightarrow> u32 \<times> u32 \<Rightarrow> bool \<Rightarrow> (u32 \<times> u32) res" where
  "checksum_wal be buf input native_endian =
     (if length buf mod 8 = 0 then Inr (checksum_loop be native_endian buf 0 (fst input) (snd input))
      else Inl Panic)"

section \<open>Writing\<close>

text \<open>\<open>begin_write_wal_header\<close>: the buffer has 512 bytes, and all of them are written.\<close>

definition wal_header_buffer :: "wal_header \<Rightarrow> bytes" where
  "wal_header_buffer h =
     to_be 4 (wh_magic h) @ to_be 4 (wh_file_format h) @ to_be 4 (wh_page_size h) @ to_be 4 (wh_checkpoint_seq h) @
     to_be 4 (wh_salt_1 h) @ to_be 4 (wh_salt_2 h) @ to_be 4 (wh_checksum_1 h) @ to_be 4 (wh_checksum_2 h) @
     replicate 480 0"

definition begin_write_wal_header :: "wal_header \<Rightarrow> bytes \<Rightarrow> bytes" where
  "begin_write_wal_header h file = pwrite 0 (wal_header_buffer h) file"

text \<open>
  \<open>begin_write_wal_frame\<close>: the page size comes as 16 bits; filling a short page up writes past the
  buffer, which was allocated for the contents. The file and the new checksums are returned.
\<close>

definition begin_write_wal_frame ::
  "bool \<Rightarrow> nat \<Rightarrow> nat \<Rightarrow> bytes \<Rightarrow> u16 \<Rightarrow> u32 \<Rightarrow> wal_header \<Rightarrow> u32 \<times> u32 \<Rightarrow> bytes \<Rightarrow> (bytes \<times> u32 \<times> u32) res" where
  "begin_write_wal_frame be offset page_id contents page_size db_size wal_header checksums file =
     (let header = \<lparr>fh_page_number = word_of_nat page_id, fh_db_size = db_size, fh_salt_1 = wh_salt_1 wal_header,
            fh_salt_2 = wh_salt_2 wal_header, fh_checksum_1 = 0, fh_checksum_2 = 0\<rparr>;
          meta = to_be 4 (fh_page_number header) @ to_be 4 (fh_db_size header);
          salts = to_be 4 (fh_salt_1 header) @ to_be 4 (fh_salt_2 header)
      in if length contents < unat page_size then Inl Panic
         else
           let expects_be = (wh_magic wal_header AND 1 \<noteq> 0);
               use_native_endian = (be = expects_be)
           in res_bind (checksum_wal be meta checksums use_native_endian) (\<lambda>header_checksum.
              res_bind (checksum_wal be (take (unat page_size) contents) header_checksum use_native_endian) (\<lambda>final_checksum.
                let header = header\<lparr>fh_checksum_1 := fst final_checksum, fh_checksum_2 := snd final_checksum\<rparr>;
                    buf = meta @ salts @ to_be 4 (fh_checksum_1 header) @ to_be 4 (fh_checksum_2 header) @ contents
                in Inr (pwrite offset buf file, final_checksum))))"

section \<open>The shared state\<close>

record wal_shared =
  sh_wal_header :: wal_header
  sh_min_frame :: nat
  sh_max_frame :: nat
  sh_nbackfills :: nat
  sh_frame_cache :: "nat \<rightharpoonup> nat list"
  sh_pages_in_frames :: "nat list"
  sh_last_checksum :: "u32 \<times> u32"
  sh_file :: bytes
  sh_read_locks :: "rw_lock list"
  sh_write_lock :: rw_lock
  sh_loaded :: bool

section \<open>Reading the log back\<close>

definition be32 :: "bytes \<Rightarrow> nat \<Rightarrow> u32" where
  "be32 bs i = from_be [bs ! i, bs ! (i + 1), bs ! (i + 2), bs ! (i + 3)]"

definition count_ones :: "u32 \<Rightarrow> nat" where
  "count_ones w = length (filter (bit w) [0..<32])"

definition parse_wal_header :: "bytes \<Rightarrow> wal_header" where
  "parse_wal_header buf = \<lparr>wh_magic = be32 buf 0, wh_file_format = be32 buf 4, wh_page_size = be32 buf 8,
     wh_checkpoint_seq = be32 buf 12, wh_salt_1 = be32 buf 16, wh_salt_2 = be32 buf 20,
     wh_checksum_1 = be32 buf 24, wh_checksum_2 = be32 buf 28\<rparr>"

definition parse_frame_header :: "bytes \<Rightarrow> wal_frame_header" where
  "parse_frame_header b = \<lparr>fh_page_number = be32 b 0, fh_db_size = be32 b 4, fh_salt_1 = be32 b 8,
     fh_salt_2 = be32 b 12, fh_checksum_1 = be32 b 16, fh_checksum_2 = be32 b 20\<rparr>"

definition cache_push :: "nat \<Rightarrow> nat \<Rightarrow> (nat \<rightharpoonup> nat list) \<Rightarrow> (nat \<rightharpoonup> nat list)" where
  "cache_push page frame fc = fc(page \<mapsto> (case fc page of None \<Rightarrow> [] | Some fs \<Rightarrow> fs) @ [frame])"

text \<open>The loop over the frames; the page size of the header has been checked to be positive.\<close>

function frames_loop :: "bool \<Rightarrow> bool \<Rightarrow> bytes \<Rightarrow> wal_header \<Rightarrow> nat \<Rightarrow> nat \<Rightarrow> nat \<Rightarrow> u32 \<times> u32 \<Rightarrow> (nat \<rightharpoonup> nat list) \<Rightarrow> nat list \<Rightarrow>
    (nat \<times> (u32 \<times> u32) \<times> (nat \<rightharpoonup> nat list) \<times> nat list) res" where
  "frames_loop be native buf h page_size current_offset frame_idx cumulative fc pages =
     (if current_offset + WAL_FRAME_HEADER_SIZE + page_size \<le> length buf then
        let frame_header_slice = take WAL_FRAME_HEADER_SIZE (drop current_offset buf);
            page_data_slice = take page_size (drop (current_offset + WAL_FRAME_HEADER_SIZE) buf);
            fh = parse_frame_header frame_header_slice
        in if fh_salt_1 fh \<noteq> wh_salt_1 h \<or> fh_salt_2 fh \<noteq> wh_salt_2 h then Inr (frame_idx, cumulative, fc, pages)
           else
             res_bind (checksum_wal be (take 8 frame_header_slice) cumulative native) (\<lambda>after_meta.
             res_bind (checksum_wal be page_data_slice after_meta native) (\<lambda>calculated.
               if calculated \<noteq> (fh_checksum_1 fh, fh_checksum_2 fh) then Inl (Corrupt ''WAL frame checksum mismatch'')
               else frames_loop be native buf h page_size (current_offset + (WAL_FRAME_HEADER_SIZE + page_size)) (frame_idx + 1)
                      calculated (cache_push (unat (fh_page_number fh)) frame_idx fc)
                      (pages @ [unat (fh_page_number fh)])))
      else Inr (frame_idx, cumulative, fc, pages))"
  by pat_completeness auto
termination
  by (relation "measure (\<lambda>(_, _, buf, _, _, off, _). length buf - off)") (auto simp: WAL_FRAME_HEADER_SIZE_def)

declare frames_loop.simps [simp del]

text \<open>\<open>read_entire_wal_dumb\<close> with the wait of \<open>open_shared_inner\<close> for its completion.\<close>

definition read_entire_wal_dumb :: "bool \<Rightarrow> bytes \<Rightarrow> wal_shared res" where
  "read_entire_wal_dumb be file =
     (if length file < WAL_HEADER_SIZE then Inl (Corrupt ''WAL file too small for header'')
      else
        let h = parse_wal_header file;
            native = (be = (wh_magic h AND 1 \<noteq> 0))
        in res_bind (checksum_wal be (take 24 file) (0, 0) native) (\<lambda>calculated.
           if calculated \<noteq> (wh_checksum_1 h, wh_checksum_2 h) then Inl (Corrupt ''WAL header checksum mismatch'')
           else if wh_page_size h < MIN_PAGE_SIZE \<or> MAX_PAGE_SIZE < wh_page_size h \<or> count_ones (wh_page_size h) \<noteq> 1
           then Inl (Corrupt ''Invalid page size in WAL header'')
           else
             res_bind (frames_loop be native file h (unat (wh_page_size h)) WAL_HEADER_SIZE 1
                        (wh_checksum_1 h, wh_checksum_2 h) Map.empty []) (\<lambda>(frame_idx, cumulative, fc, pages).
               Inr \<lparr>sh_wal_header = h, sh_min_frame = 0, sh_max_frame = frame_idx - 1, sh_nbackfills = 0,
                    sh_frame_cache = fc, sh_pages_in_frames = pages, sh_last_checksum = cumulative,
                    sh_file = file, sh_read_locks = replicate 5 rw_new, sh_write_lock = rw_new, sh_loaded = True\<rparr>)))"

text \<open>
  \<open>WalFileShared::open_shared_inner\<close>; the two random numbers are arguments.
\<close>

definition with_checksum :: "bool \<Rightarrow> wal_header \<Rightarrow> wal_header res" where
  "with_checksum be h =
     res_bind (checksum_wal be (take (WAL_HEADER_SIZE - 2 * 4) (wh_as_bytes be h)) (0, 0) be) (\<lambda>c.
       Inr (h\<lparr>wh_checksum_1 := fst c, wh_checksum_2 := snd c\<rparr>))"

definition open_shared_inner :: "bool \<Rightarrow> u32 \<Rightarrow> bool \<Rightarrow> u32 \<Rightarrow> u32 \<Rightarrow> bytes \<Rightarrow> wal_shared res" where
  "open_shared_inner be page_size db_freshly_created random_1 random_2 file =
     (let orphaned_wal = (db_freshly_created \<and> length file > 0) in
      if \<not> orphaned_wal \<and> length file > 0 then read_entire_wal_dumb be file
      else
        res_bind (with_checksum be \<lparr>wh_magic = (if be then WAL_MAGIC_BE else WAL_MAGIC_LE), wh_file_format = 3007000,
            wh_page_size = page_size, wh_checkpoint_seq = 0, wh_salt_1 = random_1, wh_salt_2 = random_2,
            wh_checksum_1 = 0, wh_checksum_2 = 0\<rparr>) (\<lambda>h.
          Inr \<lparr>sh_wal_header = h, sh_min_frame = 0, sh_max_frame = 0, sh_nbackfills = 0, sh_frame_cache = Map.empty,
               sh_pages_in_frames = [], sh_last_checksum = (wh_checksum_1 h, wh_checksum_2 h),
               sh_file = begin_write_wal_header h file, sh_read_locks = replicate 5 rw_new,
               sh_write_lock = rw_new, sh_loaded = True\<rparr>))"

end
