(* ===== verification/Wal.thy ===== *)
theory Wal
  imports WalFormat
begin

text \<open>
  The write-ahead log of a connection (\<open>WalFile\<close> in \<open>storage/wal.rs\<close>) over the shared state:
  transactions and their read marks, frame lookup, appending, rollback, and the checkpoint state
  machine with the loop of the pager that drives it. A connection is a record next to the shared
  state; every operation takes and returns both. The reads and page writes a checkpoint issues
  are requests that \<open>run_once\<close> completes, oldest first; writes to the log itself take effect when
  they are issued.
\<close>

section \<open>State\<close>

datatype limbo_result = LOk | LBusy

datatype checkpoint_mode = Passive | Full | Restart | Truncate

datatype checkpoint_state = CStart | CReadFrame | CWaitReadFrame | CWritePage | CWaitWritePage | CDone

datatype sync_state = NotSyncing | Syncing

datatype wal_fsync_status = SyncDone | SyncIO

record checkpoint_result =
  cr_num_wal_frames :: nat
  cr_num_checkpointed_frames :: nat
  cr_checkpointed_page_ids :: "nat list"

datatype checkpoint_status = CkDone checkpoint_result | CkIO

record ongoing_checkpoint =
  oc_page_id :: nat
  oc_page :: bytes
  oc_locked :: bool
  oc_state :: checkpoint_state
  oc_min_frame :: nat
  oc_max_frame :: nat
  oc_current_page :: nat
  oc_touched_pages :: "nat list"

record wal_file =
  wf_syncing :: bool
  wf_sync_state :: sync_state
  wf_page_size :: u32
  wf_ongoing :: ongoing_checkpoint
  wf_checkpoint_threshold :: nat
  wf_max_frame_read_lock_index :: nat
  wf_max_frame :: nat
  wf_min_frame :: nat
  wf_txn_start_max_frame :: nat
  wf_txn_start_last_checksum :: "u32 \<times> u32"

datatype io_req = ReadWalFrame nat | WriteDbPage nat bytes

record wal_io =
  io_pending :: "io_req list"
  io_db :: "nat \<rightharpoonup> bytes"
  io_write_counter :: nat

definition wal_file_new :: "u32 \<Rightarrow> wal_file" where
  "wal_file_new page_size =
     \<lparr>wf_syncing = False, wf_sync_state = NotSyncing, wf_page_size = page_size,
      wf_ongoing = \<lparr>oc_page_id = 0, oc_page = [], oc_locked = False, oc_state = CStart, oc_min_frame = 0,
        oc_max_frame = 0, oc_current_page = 0, oc_touched_pages = []\<rparr>,
      wf_checkpoint_threshold = 1000, wf_max_frame_read_lock_index = 0, wf_max_frame = 0, wf_min_frame = 0,
      wf_txn_start_max_frame = 0, wf_txn_start_last_checksum = (0, 0)\<rparr>"

section \<open>Transactions\<close>

text \<open>The largest usable mark; an index of -1 is \<open>None\<close>.\<close>

fun find_mark :: "nat \<Rightarrow> rw_lock list \<Rightarrow> nat \<Rightarrow> u32 \<times> nat option \<Rightarrow> u32 \<times> nat option" where
  "find_mark max_frame_in_wal [] index best = best"
| "find_mark max_frame_in_wal (l # ls) index best =
     find_mark max_frame_in_wal ls (index + 1)
       (if lk_value l > fst best \<and> lk_value l \<le> word_of_nat max_frame_in_wal then (lk_value l, Some index) else best)"

text \<open>Set the mark of the first lock that is free.\<close>

fun claim_mark :: "u32 \<Rightarrow> rw_lock list \<Rightarrow> nat \<Rightarrow> rw_lock list \<times> nat option" where
  "claim_mark mark [] index = ([], None)"
| "claim_mark mark (l # ls) index =
     (case rw_write l of
        (l', True) \<Rightarrow> (rw_unlock (l'\<lparr>lk_value := mark\<rparr>) # ls, Some index)
      | (l', False) \<Rightarrow> (case claim_mark mark ls (index + 1) of (ls', i) \<Rightarrow> (l' # ls', i)))"

definition begin_read_tx :: "wal_file \<Rightarrow> wal_shared \<Rightarrow> wal_file \<times> wal_shared \<times> limbo_result" where
  "begin_read_tx con sh =
     (let max_frame_in_wal = sh_max_frame sh;
          (mark, index) = find_mark max_frame_in_wal (sh_read_locks sh) 0 (0, None);
          (sh, mark, index) =
            (if unat mark < max_frame_in_wal \<or> index = None then
               case claim_mark (word_of_nat max_frame_in_wal) (sh_read_locks sh) 0 of
                 (ls, Some i) \<Rightarrow> (sh\<lparr>sh_read_locks := ls\<rparr>, word_of_nat max_frame_in_wal, Some i)
               | (ls, None) \<Rightarrow> (sh\<lparr>sh_read_locks := ls\<rparr>, mark, index)
             else (sh, mark, index))
      in case index of
           None \<Rightarrow> (con, sh, LBusy)
         | Some i \<Rightarrow>
             (case rw_read (sh_read_locks sh ! i) of
                (l, False) \<Rightarrow> (con, sh, LBusy)
              | (l, True) \<Rightarrow>
                  (con\<lparr>wf_min_frame := sh_nbackfills sh + 1, wf_max_frame_read_lock_index := i, wf_max_frame := unat mark\<rparr>,
                   sh\<lparr>sh_read_locks := (sh_read_locks sh)[i := l]\<rparr>, LOk)))"

definition end_read_tx :: "wal_file \<Rightarrow> wal_shared \<Rightarrow> wal_shared res" where
  "end_read_tx con sh =
     res_bind (slice_idx (sh_read_locks sh) (wf_max_frame_read_lock_index con)) (\<lambda>l.
     res_bind (slice_set (sh_read_locks sh) (wf_max_frame_read_lock_index con) (rw_unlock l)) (\<lambda>ls.
       Inr (sh\<lparr>sh_read_locks := ls\<rparr>)))"

definition begin_write_tx :: "wal_file \<Rightarrow> wal_shared \<Rightarrow> wal_file \<times> wal_shared \<times> limbo_result" where
  "begin_write_tx con sh =
     (case rw_write (sh_write_lock sh) of
        (l, False) \<Rightarrow> (con, sh, LBusy)
      | (l, True) \<Rightarrow>
          (con\<lparr>wf_txn_start_max_frame := sh_max_frame sh, wf_txn_start_last_checksum := sh_last_checksum sh\<rparr>,
           sh\<lparr>sh_write_lock := l\<rparr>, LOk))"

definition end_write_tx :: "wal_shared \<Rightarrow> wal_shared" where
  "end_write_tx sh = sh\<lparr>sh_write_lock := rw_unlock (sh_write_lock sh)\<rparr>"

section \<open>Frames\<close>

definition find_frame :: "wal_file \<Rightarrow> wal_shared \<Rightarrow> nat \<Rightarrow> nat option" where
  "find_frame con sh page_id =
     (case sh_frame_cache sh page_id of
        None \<Rightarrow> None
      | Some frames \<Rightarrow> find (\<lambda>frame. frame \<le> wf_max_frame con) (rev frames))"

definition frame_offset :: "wal_file \<Rightarrow> nat \<Rightarrow> nat res" where
  "frame_offset con frame_id =
     (if frame_id > 0
      then Inr (WAL_HEADER_SIZE + (frame_id - 1) * (unat (wf_page_size con) + WAL_FRAME_HEADER_SIZE))
      else Inl Panic)"

text \<open>\<open>read_frame\<close> and \<open>read_frame_raw\<close>: where the page of a frame is read from.\<close>

definition frame_data_offset :: "wal_file \<Rightarrow> nat \<Rightarrow> nat res" where
  "frame_data_offset con frame_id =
     res_bind (frame_offset con frame_id) (\<lambda>offset. Inr (offset + WAL_FRAME_HEADER_SIZE))"

definition append_frame :: "bool \<Rightarrow> nat \<Rightarrow> bytes \<Rightarrow> u32 \<Rightarrow> wal_file \<Rightarrow> wal_shared \<Rightarrow> wal_shared res" where
  "append_frame be page_id contents db_size con sh =
     (let max_frame = sh_max_frame sh;
          frame_id = (if max_frame = 0 then 1 else max_frame + 1)
      in res_bind (frame_offset con frame_id) (\<lambda>offset.
         res_bind (begin_write_wal_frame be offset page_id contents (ucast (wf_page_size con)) db_size
                     (sh_wal_header sh) (sh_last_checksum sh) (sh_file sh)) (\<lambda>(file, checksums).
           let sh = sh\<lparr>sh_file := file, sh_last_checksum := checksums, sh_max_frame := frame_id\<rparr>
           in case sh_frame_cache sh page_id of
                Some frames \<Rightarrow> Inr (sh\<lparr>sh_frame_cache := (sh_frame_cache sh)(page_id \<mapsto> frames @ [frame_id])\<rparr>)
              | None \<Rightarrow> Inr (sh\<lparr>sh_frame_cache := (sh_frame_cache sh)(page_id \<mapsto> [frame_id]),
                               sh_pages_in_frames := sh_pages_in_frames sh @ [page_id]\<rparr>))))"

definition should_checkpoint :: "wal_file \<Rightarrow> wal_shared \<Rightarrow> bool" where
  "should_checkpoint con sh = (sh_max_frame sh \<ge> wf_checkpoint_threshold con)"

text \<open>\<open>HashMap::retain\<close> on the frame cache with \<open>Vec::retain\<close> on each list, as two operations do.\<close>

definition retain_frames :: "(nat \<Rightarrow> bool) \<Rightarrow> wal_shared \<Rightarrow> wal_shared" where
  "retain_frames P sh =
     (let fc = (\<lambda>p. case sh_frame_cache sh p of
            None \<Rightarrow> None
          | Some frames \<Rightarrow> (let frames = filter P frames in if frames = [] then None else Some frames))
      in sh\<lparr>sh_frame_cache := fc, sh_pages_in_frames := filter (\<lambda>p. fc p \<noteq> None) (sh_pages_in_frames sh)\<rparr>)"

definition rollback_to_frame :: "nat \<Rightarrow> u32 \<times> u32 \<Rightarrow> wal_shared \<Rightarrow> wal_shared" where
  "rollback_to_frame target_frame target_checksum sh =
     (retain_frames (\<lambda>frame. frame \<le> target_frame) sh)
       \<lparr>sh_max_frame := target_frame, sh_last_checksum := target_checksum\<rparr>"

definition wal_rollback :: "wal_file \<Rightarrow> wal_shared \<Rightarrow> wal_shared" where
  "wal_rollback con sh = rollback_to_frame (wf_txn_start_max_frame con) (wf_txn_start_last_checksum con) sh"

definition current_frame_state :: "wal_shared \<Rightarrow> nat \<times> (u32 \<times> u32)" where
  "current_frame_state sh = (sh_max_frame sh, sh_last_checksum sh)"

definition set_reader_max_frame :: "nat \<Rightarrow> wal_file \<Rightarrow> wal_file" where
  "set_reader_max_frame frame con = con\<lparr>wf_max_frame := frame\<rparr>"

definition trim_backfilled_frames :: "nat \<Rightarrow> wal_shared \<Rightarrow> wal_shared" where
  "trim_backfilled_frames backfilled_up_to sh =
     (if backfilled_up_to = 0 then sh else retain_frames (\<lambda>frame. frame > backfilled_up_to) sh)"

definition reset_wal_file :: "bool \<Rightarrow> bool \<Rightarrow> u32 \<Rightarrow> wal_shared \<Rightarrow> wal_shared res" where
  "reset_wal_file be trunc random sh =
     (let h = sh_wal_header sh;
          h = h\<lparr>wh_checkpoint_seq := wh_checkpoint_seq h + 1, wh_salt_1 := wh_salt_1 h + 1, wh_salt_2 := random\<rparr>
      in res_bind (with_checksum be h) (\<lambda>h.
           let sh = sh\<lparr>sh_wal_header := h, sh_last_checksum := (wh_checksum_1 h, wh_checksum_2 h)\<rparr>;
               file = (if trunc then [] else sh_file sh)
           in Inr (sh\<lparr>sh_file := begin_write_wal_header h file\<rparr>)))"

section \<open>Checkpoint\<close>

text \<open>The highest frame no reader still needs the predecessor of, and the marks taken over on the way.\<close>

fun safe_loop :: "nat \<Rightarrow> rw_lock list \<Rightarrow> nat \<Rightarrow> rw_lock list \<times> nat" where
  "safe_loop idx [] max_safe_frame = ([], max_safe_frame)"
| "safe_loop idx (l # ls) max_safe_frame =
     (let this_mark = lk_value l;
          (l, max_safe_frame) =
            (if this_mark < word_of_nat max_safe_frame then
               case rw_write l of
                 (l', True) \<Rightarrow>
                   (rw_unlock (l'\<lparr>lk_value := (if idx = 0 then word_of_nat max_safe_frame else READMARK_NOT_USED)\<rparr>), max_safe_frame)
               | (l', False) \<Rightarrow> (l', unat this_mark)
             else (l, max_safe_frame))
      in case safe_loop (idx + 1) ls max_safe_frame of (ls, m) \<Rightarrow> (l # ls, m))"

datatype step_outcome = Continue | Return checkpoint_status

type_synonym wal_world = "wal_file \<times> wal_shared \<times> wal_io"

definition upd_ongoing :: "(ongoing_checkpoint \<Rightarrow> ongoing_checkpoint) \<Rightarrow> wal_file \<Rightarrow> wal_file" where
  "upd_ongoing f con = con\<lparr>wf_ongoing := f (wf_ongoing con)\<rparr>"

definition ck_start :: "wal_world \<Rightarrow> wal_world" where
  "ck_start w = (case w of (con, sh, io) \<Rightarrow>
     (case safe_loop 0 (sh_read_locks sh) (sh_max_frame sh) of (locks, max_safe_frame) \<Rightarrow>
       (upd_ongoing (\<lambda>oc. oc\<lparr>oc_min_frame := wf_min_frame con, oc_max_frame := max_safe_frame, oc_current_page := 0,
          oc_touched_pages := [], oc_state := CReadFrame\<rparr>) con,
        sh\<lparr>sh_read_locks := locks\<rparr>, io)))"

definition ck_read_frame :: "wal_world \<Rightarrow> wal_world res" where
  "ck_read_frame w = (case w of (con, sh, io) \<Rightarrow>
     (let oc = wf_ongoing con;
          pages = sh_pages_in_frames sh
      in if \<not> oc_current_page oc \<le> length pages then Inl Panic
         else if oc_current_page oc = length pages then Inr (upd_ongoing (\<lambda>oc. oc\<lparr>oc_state := CDone\<rparr>) con, sh, io)
         else
           let page = pages ! oc_current_page oc in
           (case sh_frame_cache sh page of
              None \<Rightarrow> Inl Panic
            | Some frames \<Rightarrow>
                (case find (\<lambda>frame. frame \<ge> oc_min_frame oc \<and> frame \<le> oc_max_frame oc) (rev frames) of
                   None \<Rightarrow> Inr (upd_ongoing (\<lambda>oc. oc\<lparr>oc_current_page := oc_current_page oc + 1\<rparr>) con, sh, io)
                 | Some frame \<Rightarrow>
                     res_bind (frame_data_offset con frame) (\<lambda>offset.
                       Inr (upd_ongoing (\<lambda>oc. oc\<lparr>oc_page_id := page, oc_touched_pages := oc_touched_pages oc @ [page],
                              oc_locked := True, oc_state := CWaitReadFrame\<rparr>) con,
                            sh, io\<lparr>io_pending := io_pending io @ [ReadWalFrame offset]\<rparr>))))))"

definition ck_write_page :: "wal_world \<Rightarrow> wal_world" where
  "ck_write_page w = (case w of (con, sh, io) \<Rightarrow>
     (upd_ongoing (\<lambda>oc. oc\<lparr>oc_state := CWaitWritePage\<rparr>) con, sh,
      io\<lparr>io_write_counter := io_write_counter io + 1,
         io_pending := io_pending io @ [WriteDbPage (oc_page_id (wf_ongoing con)) (oc_page (wf_ongoing con))]\<rparr>))"

definition ck_done :: "bool \<Rightarrow> checkpoint_mode \<Rightarrow> u32 \<Rightarrow> wal_world \<Rightarrow> (wal_world \<times> step_outcome) res" where
  "ck_done be mode random w = (case w of (con, sh, io) \<Rightarrow>
     (let oc = wf_ongoing con;
          result = \<lparr>cr_num_wal_frames = sh_max_frame sh, cr_num_checkpointed_frames = oc_max_frame oc,
                    cr_checkpointed_page_ids = oc_touched_pages oc\<rparr>;
          con' = upd_ongoing (\<lambda>oc. oc\<lparr>oc_touched_pages := [], oc_state := CStart\<rparr>) con
      in if sh_max_frame sh = oc_max_frame oc then
           res_bind (reset_wal_file be (mode = Truncate) random
             (sh\<lparr>sh_frame_cache := Map.empty, sh_pages_in_frames := [], sh_max_frame := 0, sh_nbackfills := 0\<rparr>)) (\<lambda>sh.
             Inr ((con', sh, io), Return (CkDone result)))
         else
           Inr ((con', trim_backfilled_frames (oc_max_frame oc) (sh\<lparr>sh_nbackfills := oc_max_frame oc\<rparr>), io),
                Return (CkDone result))))"

text \<open>One turn of the checkpoint loop.\<close>

definition checkpoint_step :: "bool \<Rightarrow> checkpoint_mode \<Rightarrow> u32 \<Rightarrow> wal_world \<Rightarrow> (wal_world \<times> step_outcome) res" where
  "checkpoint_step be mode random w = (case w of (con, sh, io) \<Rightarrow>
     (case oc_state (wf_ongoing con) of
        CStart \<Rightarrow> Inr (ck_start w, Continue)
      | CReadFrame \<Rightarrow> res_bind (ck_read_frame w) (\<lambda>w. Inr (w, Continue))
      | CWaitReadFrame \<Rightarrow>
          if oc_locked (wf_ongoing con) then Inr (w, Return CkIO)
          else Inr ((upd_ongoing (\<lambda>oc. oc\<lparr>oc_state := CWritePage\<rparr>) con, sh, io), Continue)
      | CWritePage \<Rightarrow> Inr (ck_write_page w, Continue)
      | CWaitWritePage \<Rightarrow>
          if io_write_counter io > 0 then Inr (w, Return CkIO)
          else if oc_current_page (wf_ongoing con) < length (sh_pages_in_frames sh)
          then Inr ((upd_ongoing (\<lambda>oc. oc\<lparr>oc_current_page := oc_current_page oc + 1, oc_state := CReadFrame\<rparr>) con, sh, io), Continue)
          else Inr ((upd_ongoing (\<lambda>oc. oc\<lparr>oc_state := CDone\<rparr>) con, sh, io), Continue)
      | CDone \<Rightarrow> if io_write_counter io > 0 then Inr (w, Return CkIO) else ck_done be mode random w))"

partial_function (option) wal_checkpoint_loop ::
  "bool \<Rightarrow> checkpoint_mode \<Rightarrow> u32 \<Rightarrow> wal_world \<Rightarrow> (wal_world \<times> checkpoint_status) res option" where
  "wal_checkpoint_loop be mode random w =
     (case checkpoint_step be mode random w of
        Inl e \<Rightarrow> Some (Inl e)
      | Inr (w, Continue) \<Rightarrow> wal_checkpoint_loop be mode random w
      | Inr (w, Return status) \<Rightarrow> Some (Inr (w, status)))"

text \<open>The completion of the oldest request.\<close>

definition run_once :: "wal_world \<Rightarrow> wal_world" where
  "run_once w = (case w of (con, sh, io) \<Rightarrow>
     (case io_pending io of
        [] \<Rightarrow> w
      | ReadWalFrame offset # rest \<Rightarrow>
          (upd_ongoing (\<lambda>oc. oc\<lparr>oc_page := pread offset (unat (wf_page_size con)) (sh_file sh), oc_locked := False\<rparr>) con,
           sh, io\<lparr>io_pending := rest\<rparr>)
      | WriteDbPage page contents # rest \<Rightarrow>
          (con, sh, io\<lparr>io_pending := rest, io_db := (io_db io)(page \<mapsto> contents), io_write_counter := io_write_counter io - 1\<rparr>)))"

text \<open>\<open>Pager::wal_checkpoint_mode\<close>: every call of \<open>checkpoint\<close> gets a fresh write counter.\<close>

definition fresh_counter :: "wal_world \<Rightarrow> wal_world" where
  "fresh_counter w = (case w of (con, sh, io) \<Rightarrow> (con, sh, io\<lparr>io_write_counter := 0\<rparr>))"

partial_function (option) wal_checkpoint_mode ::
  "bool \<Rightarrow> checkpoint_mode \<Rightarrow> u32 \<Rightarrow> wal_world \<Rightarrow> (wal_world \<times> checkpoint_result) res option" where
  "wal_checkpoint_mode be mode random w =
     (case wal_checkpoint_loop be mode random (fresh_counter w) of
        None \<Rightarrow> None
      | Some (Inl e) \<Rightarrow> Some (Inl e)
      | Some (Inr (w, CkIO)) \<Rightarrow> wal_checkpoint_mode be mode random (run_once w)
      | Some (Inr (w, CkDone res)) \<Rightarrow> Some (Inr (w, res)))"

section \<open>Sync\<close>

definition wal_sync :: "wal_file \<Rightarrow> wal_file \<times> wal_fsync_status" where
  "wal_sync con = (case wf_sync_state con of
     NotSyncing \<Rightarrow> (con\<lparr>wf_syncing := True, wf_sync_state := Syncing\<rparr>, SyncIO)
   | Syncing \<Rightarrow> if wf_syncing con then (con, SyncIO) else (con\<lparr>wf_sync_state := NotSyncing\<rparr>, SyncDone))"

definition sync_complete :: "wal_file \<Rightarrow> wal_file" where
  "sync_complete con = con\<lparr>wf_syncing := False\<rparr>"

end
