(* ===== verification/WalRecover.thy ===== *)
theory WalRecover
  imports Wal
begin

text \<open>
  Recovery: what the log file holds after any sequence of appended frames, and that opening the
  file rebuilds the frame index, the frame count and the running checksum from it.
\<close>

section \<open>Words in files\<close>

lemma be32_to_be [simp]: "be32 (to_be 4 w @ ys) 0 = w"
proof -
  obtain a b c d where e: "to_be 4 w = [a, b, c, d]"
    using length_bytes_cases(3) [of "to_be 4 w"] by auto
  then show ?thesis using from_be_to_be [of 4 w] by (simp add: be32_def)
qed

lemma be32_skip [simp]: "4 \<le> i \<Longrightarrow> be32 (to_be 4 w @ ys) i = be32 ys (i - 4)"
proof -
  assume "4 \<le> i"
  then obtain k where "i = 4 + k" by (auto simp: le_iff_add)
  then show ?thesis by (simp add: be32_def nth_append add.commute)
qed

lemma be32_take [simp]: "i + 4 \<le> n \<Longrightarrow> be32 (take n bs) i = be32 bs i"
  by (simp add: be32_def)

lemma rev_rev_word: "from_be (rev (rev (to_be 4 w))) = (w :: u32)"
  by (simp add: from_be_to_be)

lemma from_ne_to_ne: "from_ne be (to_ne be w) = w"
  by (simp add: from_ne_def to_ne_def from_be_to_be)

section \<open>The image of a log\<close>

type_synonym frame = "nat \<times> bytes \<times> u32"

definition native_of :: "bool \<Rightarrow> wal_header \<Rightarrow> bool" where
  "native_of be h = (be = (wh_magic h AND 1 \<noteq> 0))"

definition cks :: "bool \<Rightarrow> wal_header \<Rightarrow> bytes \<Rightarrow> u32 \<times> u32 \<Rightarrow> u32 \<times> u32" where
  "cks be h bs c = checksum_loop be (native_of be h) bs 0 (fst c) (snd c)"

definition frame_sum :: "bool \<Rightarrow> wal_header \<Rightarrow> frame \<Rightarrow> u32 \<times> u32 \<Rightarrow> u32 \<times> u32" where
  "frame_sum be h f c = (case f of (p, b, d) \<Rightarrow> cks be h b (cks be h (to_be 4 (word_of_nat p :: u32) @ to_be 4 d) c))"

definition frame_image :: "bool \<Rightarrow> wal_header \<Rightarrow> frame \<Rightarrow> u32 \<times> u32 \<Rightarrow> bytes" where
  "frame_image be h f c = (case f of (p, b, d) \<Rightarrow> case frame_sum be h f c of (c1, c2) \<Rightarrow>
     to_be 4 (word_of_nat p :: u32) @ to_be 4 d @ to_be 4 (wh_salt_1 h) @ to_be 4 (wh_salt_2 h) @ to_be 4 c1 @ to_be 4 c2 @ b)"

fun log_image :: "bool \<Rightarrow> wal_header \<Rightarrow> frame list \<Rightarrow> u32 \<times> u32 \<Rightarrow> bytes" where
  "log_image be h [] c = []"
| "log_image be h (f # fs) c = frame_image be h f c @ log_image be h fs (frame_sum be h f c)"

definition header_image :: "wal_header \<Rightarrow> bytes" where
  "header_image h = take 32 (wal_header_buffer h)"

definition header_sum :: "wal_header \<Rightarrow> u32 \<times> u32" where
  "header_sum h = (wh_checksum_1 h, wh_checksum_2 h)"

fun cache_from :: "nat \<Rightarrow> nat list \<Rightarrow> (nat \<rightharpoonup> nat list) \<Rightarrow> (nat \<rightharpoonup> nat list)" where
  "cache_from n [] fc = fc"
| "cache_from n (p # ps) fc = cache_from (n + 1) ps (cache_push p n fc)"

lemma cache_from_snoc: "cache_from n (ps @ [p]) fc = cache_push p (n + length ps) (cache_from n ps fc)"
  by (induction ps arbitrary: n fc) auto

lemma log_image_append:
  "log_image be h (fs @ gs) c = log_image be h fs c @ log_image be h gs (fold (frame_sum be h) fs c)"
  by (induction fs arbitrary: c) auto

definition page_ok :: "nat \<Rightarrow> frame \<Rightarrow> bool" where
  "page_ok ps f = (length (fst (snd f)) = ps \<and> fst f < 2 ^ 32)"

lemma length_frame_image: "page_ok ps f \<Longrightarrow> length (frame_image be h f c) = 24 + ps"
  by (auto simp: frame_image_def page_ok_def split: prod.splits)

lemma length_log_image: "list_all (page_ok ps) fs \<Longrightarrow> length (log_image be h fs c) = length fs * (24 + ps)"
  by (induction fs arbitrary: c) (auto simp: length_frame_image)

text \<open>What follows the frames: no complete slot there carries the salts of the header.\<close>

definition stale :: "wal_header \<Rightarrow> nat \<Rightarrow> bytes \<Rightarrow> bool" where
  "stale h ps rest = (\<forall>j. (j + 1) * (24 + ps) \<le> length rest \<longrightarrow>
     (let fh = parse_frame_header (drop (j * (24 + ps)) rest)
      in fh_salt_1 fh \<noteq> wh_salt_1 h \<or> fh_salt_2 fh \<noteq> wh_salt_2 h))"

lemma stale_drop:
  assumes "stale h ps rest"
  shows "stale h ps (drop (24 + ps) rest)"
  unfolding stale_def
proof (intro allI impI)
  fix j assume "(j + 1) * (24 + ps) \<le> length (drop (24 + ps) rest)"
  then have "(Suc j + 1) * (24 + ps) \<le> length rest" by simp
  moreover have "drop (j * (24 + ps)) (drop (24 + ps) rest) = drop (Suc j * (24 + ps)) rest" by (simp add: add.commute)
  ultimately show "let fh = parse_frame_header (drop (j * (24 + ps)) (drop (24 + ps) rest))
      in fh_salt_1 fh \<noteq> wh_salt_1 h \<or> fh_salt_2 fh \<noteq> wh_salt_2 h"
    using assms unfolding stale_def by metis
qed

lemma stale_short: "length rest < 24 + ps \<Longrightarrow> stale h ps rest"
  by (auto simp: stale_def)

lemma parse_frame_image:
  "page_ok ps f \<Longrightarrow> parse_frame_header (take 24 (frame_image be h f c @ rest)) =
    \<lparr>fh_page_number = word_of_nat (fst f), fh_db_size = snd (snd f), fh_salt_1 = wh_salt_1 h, fh_salt_2 = wh_salt_2 h,
     fh_checksum_1 = fst (frame_sum be h f c), fh_checksum_2 = snd (frame_sum be h f c)\<rparr>"
  by (simp add: parse_frame_header_def frame_image_def split: prod.splits)

section \<open>Reading a log image\<close>

lemma checksum_wal_cks:
  "length bs mod 8 = 0 \<Longrightarrow> checksum_wal be bs c (native_of be h) = Inr (cks be h bs c)"
  by (simp add: checksum_wal_def cks_def)

lemma frames_loop_stale:
  assumes "stale h ps rest"
  shows "frames_loop be n (pre @ rest) h ps (length pre) idx c fc pages = Inr (idx, c, fc, pages)"
proof (cases "24 + ps \<le> length rest")
  case True
  then have "let fh = parse_frame_header (take 24 rest) in fh_salt_1 fh \<noteq> wh_salt_1 h \<or> fh_salt_2 fh \<noteq> wh_salt_2 h"
    using assms [unfolded stale_def, rule_format, of 0] by (simp add: parse_frame_header_def)
  then show ?thesis using True
    by (subst frames_loop.simps) (auto simp: WAL_FRAME_HEADER_SIZE_def Let_def)
next
  case False
  then show ?thesis by (subst frames_loop.simps) (simp add: WAL_FRAME_HEADER_SIZE_def)
qed

lemma unat_u32_of_nat: "k < 2 ^ 32 \<Longrightarrow> unat (word_of_nat k :: u32) = k"
  by (simp only: unsigned_of_nat take_bit_eq_mod) simp

lemma frames_loop_step:
  assumes "off + (24 + ps) \<le> length buf" "parse_frame_header (take 24 (drop off buf)) = fh"
    "fh_salt_1 fh = wh_salt_1 h" "fh_salt_2 fh = wh_salt_2 h"
    "checksum_wal be (take 8 (take 24 (drop off buf))) c n = Inr c'"
    "checksum_wal be (take ps (drop (off + 24) buf)) c' n = Inr (fh_checksum_1 fh, fh_checksum_2 fh)"
  shows "frames_loop be n buf h ps off idx c fc pages =
    frames_loop be n buf h ps (off + (24 + ps)) (idx + 1) (fh_checksum_1 fh, fh_checksum_2 fh)
      (cache_push (unat (fh_page_number fh)) idx fc) (pages @ [unat (fh_page_number fh)])"
  using assms by (subst frames_loop.simps) (simp add: WAL_FRAME_HEADER_SIZE_def Let_def)

lemma frames_loop_image:
  assumes "list_all (page_ok ps) fs" "ps mod 8 = 0" "stale h ps rest"
  shows "frames_loop be (native_of be h) (pre @ log_image be h fs c @ rest) h ps (length pre) idx c fc pages =
    Inr (idx + length fs, fold (frame_sum be h) fs c, cache_from idx (map fst fs) fc, pages @ map fst fs)"
  using assms(1)
proof (induction fs arbitrary: pre idx c fc pages)
  case Nil
  then show ?case using frames_loop_stale [OF assms(3)] by simp
next
  case (Cons f fs)
  obtain p b d where f: "f = (p, b, d)" by (cases f)
  have ok: "page_ok ps f" "length b = ps" "p < 2 ^ 32" using Cons.prems by (auto simp: page_ok_def f)
  let ?img = "frame_image be h f c" and ?c = "frame_sum be h f c"
  let ?buf = "pre @ ?img @ log_image be h fs ?c @ rest"
  let ?fh = "\<lparr>fh_page_number = word_of_nat p, fh_db_size = d, fh_salt_1 = wh_salt_1 h, fh_salt_2 = wh_salt_2 h,
     fh_checksum_1 = fst ?c, fh_checksum_2 = snd ?c\<rparr>"
  have len: "length ?img = 24 + ps" by (rule length_frame_image) (rule ok)
  have head: "drop (length pre) ?buf = ?img @ log_image be h fs ?c @ rest" by simp
  have meta: "take 8 (take 24 (?img @ log_image be h fs ?c @ rest)) = to_be 4 (word_of_nat p :: u32) @ to_be 4 d"
    by (simp add: frame_image_def f split: prod.splits)
  have data: "take ps (drop (length pre + 24) ?buf) = b"
    using ok(2) by (simp add: frame_image_def f split: prod.splits)
  have sum: "checksum_wal be b (cks be h (to_be 4 (word_of_nat p :: u32) @ to_be 4 d) c) (native_of be h) = Inr ?c"
    using ok(2) assms(2) by (simp add: checksum_wal_cks frame_sum_def f)
  have m8: "checksum_wal be (to_be 4 (word_of_nat p :: u32) @ to_be 4 d) c (native_of be h) =
      Inr (cks be h (to_be 4 (word_of_nat p :: u32) @ to_be 4 d) c)"
    by (rule checksum_wal_cks) simp
  have "frames_loop be (native_of be h) ?buf h ps (length pre) idx c fc pages =
     frames_loop be (native_of be h) ?buf h ps (length pre + (24 + ps)) (idx + 1) (fh_checksum_1 ?fh, fh_checksum_2 ?fh)
       (cache_push (unat (fh_page_number ?fh)) idx fc) (pages @ [unat (fh_page_number ?fh)])"
  proof (rule frames_loop_step)
    show "length pre + (24 + ps) \<le> length ?buf" by (simp add: len)
    show "parse_frame_header (take 24 (drop (length pre) ?buf)) = ?fh"
      unfolding head parse_frame_image [OF ok(1)] by (simp add: f)
    show "checksum_wal be (take 8 (take 24 (drop (length pre) ?buf))) c (native_of be h) =
        Inr (cks be h (to_be 4 (word_of_nat p :: u32) @ to_be 4 d) c)"
      unfolding head meta by (rule m8)
    show "checksum_wal be (take ps (drop (length pre + 24) ?buf)) (cks be h (to_be 4 (word_of_nat p :: u32) @ to_be 4 d) c) (native_of be h) =
        Inr (fh_checksum_1 ?fh, fh_checksum_2 ?fh)"
      unfolding data sum by simp
  qed simp_all
  then have "frames_loop be (native_of be h) ?buf h ps (length pre) idx c fc pages =
     frames_loop be (native_of be h) ?buf h ps (length (pre @ ?img)) (idx + 1) ?c (cache_push p idx fc) (pages @ [p])"
    by (simp add: len unat_u32_of_nat [OF ok(3)])
  then show ?case
    using Cons.IH [of "pre @ ?img" ?c "idx + 1" "cache_push p idx fc" "pages @ [p]"] Cons.prems by (simp add: f)
qed

section \<open>The state of a log\<close>

lemma checksum_24:
  "length a = 4 \<Longrightarrow> length b = 4 \<Longrightarrow> length c = 4 \<Longrightarrow> length d = 4 \<Longrightarrow> length e = 4 \<Longrightarrow> length f = 4 \<Longrightarrow>
   checksum_loop be n (a @ b @ c @ d @ e @ f) 0 s0 s1 =
   (let w = checksum_word be n; s0 = s0 + (w a + s1); s1 = s1 + (w b + s0); s0 = s0 + (w c + s1); s1 = s1 + (w d + s0);
        s0 = s0 + (w e + s1); s1 = s1 + (w f + s0) in (s0, s1))"
  by (simp add: checksum_loop.simps [of be n _ 0] checksum_loop.simps [of be n _ 8] checksum_loop.simps [of be n _ 16]
      checksum_loop.simps [of be n _ 24] Let_def)

text \<open>
  The header is summed in memory before it is written: the words as they lie there, read in the
  other byte order on a little-endian target, are those of the file read in the native one.
\<close>

lemma header_checksum_agrees:
  assumes "wh_magic h = (if be then WAL_MAGIC_BE else WAL_MAGIC_LE)"
  shows "checksum_loop be be (take 24 (wh_as_bytes be h)) 0 s0 s1 = cks be h (take 24 (header_image h)) (s0, s1)"
    "native_of be h"
proof -
  show n: "native_of be h"
    unfolding native_of_def assms by (simp add: WAL_MAGIC_BE_def WAL_MAGIC_LE_def)
  have w: "checksum_word be be (to_ne be x) = checksum_word be True (to_be 4 x)" for x
    by (simp add: checksum_word_def from_ne_def to_ne_def swap_bytes_def from_be_to_be)
  have l: "length (to_ne be x) = 4" for x by (simp add: to_ne_def)
  have a: "take 24 (wh_as_bytes be h) = to_ne be (wh_magic h) @ to_ne be (wh_file_format h) @ to_ne be (wh_page_size h) @
     to_ne be (wh_checkpoint_seq h) @ to_ne be (wh_salt_1 h) @ to_ne be (wh_salt_2 h)"
    by (simp add: wh_as_bytes_def l)
  have b: "take 24 (header_image h) = to_be 4 (wh_magic h) @ to_be 4 (wh_file_format h) @ to_be 4 (wh_page_size h) @
     to_be 4 (wh_checkpoint_seq h) @ to_be 4 (wh_salt_1 h) @ to_be 4 (wh_salt_2 h)"
    by (simp add: header_image_def wal_header_buffer_def)
  show "checksum_loop be be (take 24 (wh_as_bytes be h)) 0 s0 s1 = cks be h (take 24 (header_image h)) (s0, s1)"
    unfolding a b cks_def using n by (simp add: checksum_24 l w Let_def)
qed

definition valid_page_size :: "u32 \<Rightarrow> bool" where
  "valid_page_size ps = (ps \<in> {512, 1024, 2048, 4096, 8192, 16384, 32768})"

lemma valid_page_sizeD:
  assumes "valid_page_size ps"
  shows "\<not> ps < MIN_PAGE_SIZE" "\<not> MAX_PAGE_SIZE < ps" "count_ones ps = 1" "unat ps mod 8 = 0"
    "512 \<le> unat ps" "unat (ucast ps :: u16) = unat ps"
proof -
  have ps: "ps = 512 \<or> ps = 1024 \<or> ps = 2048 \<or> ps = 4096 \<or> ps = 8192 \<or> ps = 16384 \<or> ps = 32768"
    using assms by (simp add: valid_page_size_def)
  have "count_ones 512 = 1" "count_ones 1024 = 1" "count_ones 2048 = 1" "count_ones 4096 = 1"
    "count_ones 8192 = 1" "count_ones 16384 = 1" "count_ones 32768 = 1"
    by code_simp+
  then show "count_ones ps = 1" using ps by auto
  show "\<not> ps < MIN_PAGE_SIZE" "\<not> MAX_PAGE_SIZE < ps"
    using ps by (auto simp: MIN_PAGE_SIZE_def MAX_PAGE_SIZE_def)
  show "unat ps mod 8 = 0" "512 \<le> unat ps" "unat (ucast ps :: u16) = unat ps"
    using ps by auto
qed

text \<open>
  The log holds the frames \<open>fs\<close>: the shared state and the file agree on them. Page sizes are the
  valid ones that fit in 16 bits.
\<close>

definition log_holds :: "bool \<Rightarrow> u32 \<Rightarrow> frame list \<Rightarrow> wal_shared \<Rightarrow> bool" where
  "log_holds be ps fs sh =
     (let h = sh_wal_header sh in
      wh_magic h = (if be then WAL_MAGIC_BE else WAL_MAGIC_LE) \<and> wh_page_size h = ps \<and> valid_page_size ps \<and>
      header_sum h = cks be h (take 24 (header_image h)) (0, 0) \<and>
      list_all (page_ok (unat ps)) fs \<and>
      sh_max_frame sh = length fs \<and>
      sh_frame_cache sh = cache_from 1 (map fst fs) Map.empty \<and>
      sh_last_checksum sh = fold (frame_sum be h) fs (header_sum h) \<and>
      (\<exists>rest. sh_file sh = header_image h @ log_image be h fs (header_sum h) @ rest \<and> stale h (unat ps) rest))"

lemma parse_header_image: "parse_wal_header (header_image h @ rest) = h"
proof -
  have "header_image h @ rest =
     to_be 4 (wh_magic h) @ to_be 4 (wh_file_format h) @ to_be 4 (wh_page_size h) @ to_be 4 (wh_checkpoint_seq h) @
     to_be 4 (wh_salt_1 h) @ to_be 4 (wh_salt_2 h) @ to_be 4 (wh_checksum_1 h) @ to_be 4 (wh_checksum_2 h) @ rest"
    by (simp add: header_image_def wal_header_buffer_def)
  then show ?thesis by (simp add: parse_wal_header_def)
qed

lemma length_header_image: "length (header_image h) = 32"
  by (simp add: header_image_def wal_header_buffer_def)

lemma recover_log:
  assumes "log_holds be ps fs sh"
  shows "read_entire_wal_dumb be (sh_file sh) =
    Inr \<lparr>sh_wal_header = sh_wal_header sh, sh_min_frame = 0, sh_max_frame = sh_max_frame sh, sh_nbackfills = 0,
         sh_frame_cache = sh_frame_cache sh, sh_pages_in_frames = map fst fs, sh_last_checksum = sh_last_checksum sh,
         sh_file = sh_file sh, sh_read_locks = replicate 5 rw_new, sh_write_lock = rw_new, sh_loaded = True\<rparr>"
proof -
  let ?h = "sh_wal_header sh"
  obtain rest where img: "sh_file sh = header_image ?h @ log_image be ?h fs (header_sum ?h) @ rest" and st: "stale ?h (unat ps) rest"
    and m: "wh_magic ?h = (if be then WAL_MAGIC_BE else WAL_MAGIC_LE)" and ps: "wh_page_size ?h = ps" "valid_page_size ps"
    and hs: "header_sum ?h = cks be ?h (take 24 (header_image ?h)) (0, 0)" and ok: "list_all (page_ok (unat ps)) fs"
    and sh: "sh_max_frame sh = length fs" "sh_frame_cache sh = cache_from 1 (map fst fs) Map.empty"
      "sh_last_checksum sh = fold (frame_sum be ?h) fs (header_sum ?h)"
    using assms unfolding log_holds_def Let_def by blast
  have n: "(be = (wh_magic ?h AND 1 \<noteq> 0)) = native_of be ?h" by (simp add: native_of_def)
  have p8: "unat ps mod 8 = 0" by (rule valid_page_sizeD) (rule ps)
  have loop: "frames_loop be (native_of be ?h) (sh_file sh) ?h (unat ps) 32 1 (header_sum ?h) Map.empty [] =
      Inr (1 + length fs, sh_last_checksum sh, sh_frame_cache sh, map fst fs)"
    using frames_loop_image [OF ok p8 st, of be "header_image ?h" "header_sum ?h" 1 Map.empty "[]"]
    unfolding img sh length_header_image by simp
  have c: "checksum_wal be (take 24 (sh_file sh)) (0, 0) (native_of be ?h) = Inr (header_sum ?h)"
    unfolding img hs by (simp add: length_header_image checksum_wal_cks)
  have ps2: "\<not> ps < MIN_PAGE_SIZE" "\<not> MAX_PAGE_SIZE < ps" "count_ones ps = 1"
    by (rule valid_page_sizeD [OF ps(2)])+
  have par: "parse_wal_header (sh_file sh) = ?h" unfolding img by (rule parse_header_image)
  have len: "\<not> length (sh_file sh) < 32" unfolding img by (simp add: length_header_image)
  show ?thesis
    unfolding read_entire_wal_dumb_def par Let_def n WAL_HEADER_SIZE_def
    using loop c ps2 len by (simp add: ps(1) header_sum_def sh(1))
qed

section \<open>Operations keep the log\<close>

lemma pwrite_after: "data \<noteq> [] \<Longrightarrow> pwrite (length a) data (a @ rest) = a @ data @ drop (length data) rest"
  by (simp add: pwrite_def)

lemma append_frame_holds:
  assumes holds: "log_holds be ps fs sh" and con: "wf_page_size con = ps"
    and ok: "page_ok (unat ps) (p, b, d)"
  obtains sh' where "append_frame be p b d con sh = Inr sh'" "log_holds be ps (fs @ [(p, b, d)]) sh'"
    "sh_wal_header sh' = sh_wal_header sh" "sh_nbackfills sh' = sh_nbackfills sh"
    "sh_read_locks sh' = sh_read_locks sh" "sh_write_lock sh' = sh_write_lock sh"
    "length (sh_file sh') = max (length (sh_file sh)) (32 + Suc (length fs) * (24 + unat ps))"
proof -
  let ?h = "sh_wal_header sh"
  obtain rest where img: "sh_file sh = header_image ?h @ log_image be ?h fs (header_sum ?h) @ rest" and st: "stale ?h (unat ps) rest"
    and sh: "sh_max_frame sh = length fs" "sh_frame_cache sh = cache_from 1 (map fst fs) Map.empty"
      "sh_last_checksum sh = fold (frame_sum be ?h) fs (header_sum ?h)" and fs: "list_all (page_ok (unat ps)) fs"
    and v: "valid_page_size ps"
    using holds unfolding log_holds_def Let_def by blast
  note psD = valid_page_sizeD [OF v]
  let ?pre = "header_image ?h @ log_image be ?h fs (header_sum ?h)"
  let ?c = "sh_last_checksum sh"
  let ?img = "frame_image be ?h (p, b, d) ?c"
  have blen: "length b = unat ps" using ok by (simp add: page_ok_def)
  have off: "frame_offset con (Suc (length fs)) = Inr (length ?pre)"
    by (simp add: frame_offset_def con length_header_image length_log_image [OF fs] WAL_HEADER_SIZE_def WAL_FRAME_HEADER_SIZE_def add.commute)
  have ilen: "length ?img = 24 + unat ps" by (rule length_frame_image) (rule ok)
  have nat_of: "(be = (wh_magic ?h AND 1 \<noteq> 0)) = native_of be ?h" by (simp add: native_of_def)
  let ?m = "to_be 4 (word_of_nat p :: u32) @ to_be 4 d"
  have m8: "checksum_wal be ?m ?c (native_of be ?h) = Inr (cks be ?h ?m ?c)" by (rule checksum_wal_cks) simp
  have sum: "checksum_wal be b (cks be ?h ?m ?c) (native_of be ?h) = Inr (frame_sum be ?h (p, b, d) ?c)"
    using psD(4) blen by (simp add: checksum_wal_cks frame_sum_def)
  have new: "pwrite (length ?pre) ?img (sh_file sh) = ?pre @ ?img @ drop (24 + unat ps) rest"
    using pwrite_after [of ?img ?pre rest] ilen unfolding img by fastforce
  have w: "begin_write_wal_frame be (length ?pre) p b (ucast ps) d ?h ?c (sh_file sh) =
      Inr (?pre @ ?img @ drop (24 + unat ps) rest, frame_sum be ?h (p, b, d) ?c)"
    unfolding begin_write_wal_frame_def Let_def nat_of psD(6)
    using new by (simp add: blen m8 sum frame_image_def split: prod.splits)
  let ?sh = "sh\<lparr>sh_file := ?pre @ ?img @ drop (24 + unat ps) rest, sh_last_checksum := frame_sum be ?h (p, b, d) ?c,
    sh_max_frame := Suc (length fs), sh_frame_cache := cache_push p (Suc (length fs)) (sh_frame_cache sh)\<rparr>"
  let ?pages = "case sh_frame_cache sh p of None \<Rightarrow> sh_pages_in_frames sh @ [p] | Some _ \<Rightarrow> sh_pages_in_frames sh"
  have fid: "(if sh_max_frame sh = 0 then 1 else sh_max_frame sh + 1) = Suc (length fs)" by (simp add: sh(1))
  have "append_frame be p b d con sh = Inr (?sh\<lparr>sh_pages_in_frames := ?pages\<rparr>)"
    unfolding append_frame_def Let_def fid off con res_bind_simps w
    by (cases "sh_frame_cache sh p") (simp_all add: cache_push_def)
  moreover have "log_holds be ps (fs @ [(p, b, d)]) (?sh\<lparr>sh_pages_in_frames := ?pages\<rparr>)"
    using holds stale_drop [OF st] ok fs
    by (auto simp: log_holds_def Let_def log_image_append cache_from_snoc sh)
  moreover have "length (?pre @ ?img @ drop (24 + unat ps) rest) = max (length (sh_file sh)) (32 + Suc (length fs) * (24 + unat ps))"
    unfolding img by (simp add: length_header_image length_log_image [OF fs] ilen)
  ultimately show thesis using that [of "?sh\<lparr>sh_pages_in_frames := ?pages\<rparr>"] by simp
qed

lemma with_checksum_sum:
  assumes "wh_magic h = (if be then WAL_MAGIC_BE else WAL_MAGIC_LE)"
  obtains h' where "with_checksum be h = Inr h'" "header_sum h' = cks be h' (take 24 (header_image h')) (0, 0)"
    "wh_magic h' = wh_magic h" "wh_page_size h' = wh_page_size h" "wh_salt_1 h' = wh_salt_1 h" "wh_salt_2 h' = wh_salt_2 h"
proof -
  let ?c = "cks be h (take 24 (header_image h)) (0, 0)"
  let ?h = "h\<lparr>wh_checksum_1 := fst ?c, wh_checksum_2 := snd ?c\<rparr>"
  have "length (take 24 (wh_as_bytes be h)) mod 8 = 0" by (simp add: wh_as_bytes_def to_ne_def)
  then have "with_checksum be h = Inr ?h"
    using header_checksum_agrees(1) [OF assms, of 0 0]
    unfolding with_checksum_def checksum_wal_def WAL_HEADER_SIZE_def by simp
  moreover have "take 24 (header_image ?h) = take 24 (header_image h)"
    by (simp add: header_image_def wal_header_buffer_def)
  then have "header_sum ?h = cks be ?h (take 24 (header_image ?h)) (0, 0)"
    by (simp add: header_sum_def cks_def native_of_def)
  ultimately show thesis using that by force
qed

lemma write_header_image: "begin_write_wal_header h f = header_image h @ replicate 480 0 @ drop 512 f"
  by (simp add: begin_write_wal_header_def pwrite_def header_image_def wal_header_buffer_def to_be_def)

lemma open_shared_holds:
  assumes "valid_page_size ps"
  obtains sh where "open_shared_inner be ps fresh r1 r2 [] = Inr sh" "log_holds be ps [] sh"
proof -
  obtain h where h: "with_checksum be \<lparr>wh_magic = (if be then WAL_MAGIC_BE else WAL_MAGIC_LE), wh_file_format = 3007000,
            wh_page_size = ps, wh_checkpoint_seq = 0, wh_salt_1 = r1, wh_salt_2 = r2, wh_checksum_1 = 0, wh_checksum_2 = 0\<rparr> = Inr h"
    "header_sum h = cks be h (take 24 (header_image h)) (0, 0)" "wh_magic h = (if be then WAL_MAGIC_BE else WAL_MAGIC_LE)"
    "wh_page_size h = ps"
    using with_checksum_sum [of "\<lparr>wh_magic = (if be then WAL_MAGIC_BE else WAL_MAGIC_LE), wh_file_format = 3007000,
            wh_page_size = ps, wh_checkpoint_seq = 0, wh_salt_1 = r1, wh_salt_2 = r2, wh_checksum_1 = 0, wh_checksum_2 = 0\<rparr>" be]
    by auto
  have "stale h (unat ps) (replicate 480 0)" using valid_page_sizeD(5) [OF assms] by (intro stale_short) simp
  then show thesis
    using h assms that by (simp add: open_shared_inner_def log_holds_def header_sum_def write_header_image)
qed

section \<open>A new generation\<close>

lemma log_image_slot:
  assumes "list_all (page_ok ps) fs" "j < length fs"
  obtains c' tail where "drop (j * (24 + ps)) (log_image be h fs c) = frame_image be h (fs ! j) c' @ tail"
proof -
  have fs: "fs = take j fs @ fs ! j # drop (Suc j) fs" using assms(2) by (rule id_take_nth_drop)
  have l: "length (log_image be h (take j fs) c) = j * (24 + ps)"
    using length_log_image [of ps "take j fs" be h c] assms by (metis fs length_take list_all_append min.absorb4)
  have "log_image be h fs c = log_image be h (take j fs) c @ frame_image be h (fs ! j) (fold (frame_sum be h) (take j fs) c) @
      log_image be h (drop (Suc j) fs) (frame_sum be h (fs ! j) (fold (frame_sum be h) (take j fs) c))"
    by (subst fs) (simp only: log_image_append log_image.simps)
  then show thesis using that l by (metis append_eq_conv_conj)
qed

lemma drop_cleared:
  assumes "length a = 32" "480 \<le> n"
  shows "drop n (replicate 480 z @ drop 512 (a @ x)) = drop n x"
proof -
  have "drop 512 (a @ x) = drop 480 x" using assms(1) by simp
  then have "drop n (replicate 480 z @ drop 512 (a @ x)) = drop (n - 480) (drop 480 x)"
    using assms(2) by (simp only: drop_append length_replicate drop_replicate) simp
  then show ?thesis using assms(2) by simp
qed

text \<open>
  After a reset that keeps the file, no slot behind the new header carries its salts: the first
  slot was cleared with the header, the others carry the first salt of the old generation.
\<close>

lemma reset_stale:
  assumes holds: "log_holds be ps fs sh"
    and old: "\<And>rest. sh_file sh = header_image (sh_wal_header sh) @ log_image be (sh_wal_header sh) fs (header_sum (sh_wal_header sh)) @ rest \<Longrightarrow>
      stale h' (unat ps) rest"
    and salt: "wh_salt_1 h' = wh_salt_1 (sh_wal_header sh) + 1" and nz: "wh_salt_1 h' \<noteq> 0 \<or> wh_salt_2 h' \<noteq> 0"
  shows "stale h' (unat ps) (replicate 480 0 @ drop 512 (sh_file sh))"
  unfolding stale_def
proof (intro allI impI)
  let ?h = "sh_wal_header sh" and ?S = "24 + unat ps"
  fix j
  let ?new = "replicate 480 0 @ drop 512 (sh_file sh)"
  let ?fh = "parse_frame_header (drop (j * ?S) ?new)"
  assume j: "(j + 1) * ?S \<le> length ?new"
  obtain rest where img: "sh_file sh = header_image ?h @ log_image be ?h fs (header_sum ?h) @ rest"
    and ok: "list_all (page_ok (unat ps)) fs" and v: "valid_page_size ps"
    using holds unfolding log_holds_def Let_def by blast
  have S: "536 \<le> ?S" using valid_page_sizeD(5) [OF v] by simp
  have old': "stale h' (unat ps) rest" by (rule old) (rule img)
  have "fh_salt_1 ?fh \<noteq> wh_salt_1 h' \<or> fh_salt_2 ?fh \<noteq> wh_salt_2 h'"
  proof (cases j)
    case 0
    have z: "be32 (replicate 480 0 @ xs) i = 0" if "i \<le> 400" for i and xs :: bytes
      using that by (simp add: be32_def nth_append from_be_def be_nat_def)
    show ?thesis using nz 0 by (simp add: parse_frame_header_def z)
  next
    case (Suc k)
    have jS: "480 \<le> j * ?S" using Suc S by simp
    then have "?S \<le> length (sh_file sh) - 512 + 480 - j * ?S" and big: "512 < length (sh_file sh)"
      using j S by auto
    have d: "drop (j * ?S) ?new = drop (j * ?S) (log_image be ?h fs (header_sum ?h) @ rest)"
      unfolding img by (rule drop_cleared [OF length_header_image jS])
    show ?thesis
    proof (cases "j < length fs")
      case True
      obtain c' tail where "drop (j * ?S) (log_image be ?h fs (header_sum ?h)) = frame_image be ?h (fs ! j) c' @ tail"
        using log_image_slot [OF ok True] .
      then have "drop (j * ?S) ?new = frame_image be ?h (fs ! j) c' @ tail @ rest"
        unfolding d using True length_log_image [OF ok, of be ?h "header_sum ?h"] by simp
      then have "fh_salt_1 ?fh = wh_salt_1 ?h"
        by (simp add: parse_frame_header_def frame_image_def split: prod.splits)
      then show ?thesis using salt by simp
    next
      case False
      have len: "length (log_image be ?h fs (header_sum ?h)) = length fs * ?S" by (rule length_log_image) (rule ok)
      then have "drop (j * ?S) ?new = drop ((j - length fs) * ?S) rest"
        using False unfolding d by (simp add: diff_mult_distrib)
      moreover have "(j - length fs + 1) * ?S \<le> length rest"
      proof -
        have "(j + 1) * ?S \<le> length fs * ?S + length rest"
          using j big len unfolding img by (simp add: length_header_image)
        then show ?thesis using False by (simp add: diff_mult_distrib add_mult_distrib)
      qed
      ultimately show ?thesis using old' unfolding stale_def Let_def by metis
    qed
  qed
  then show "let fh = ?fh in fh_salt_1 fh \<noteq> wh_salt_1 h' \<or> fh_salt_2 fh \<noteq> wh_salt_2 h'" by simp
qed

lemma reset_holds:
  assumes holds: "log_holds be ps fs sh"
    and old: "\<not> trunc \<Longrightarrow> (\<And>rest h'. sh_file sh = header_image (sh_wal_header sh) @ log_image be (sh_wal_header sh) fs (header_sum (sh_wal_header sh)) @ rest \<Longrightarrow>
      wh_salt_1 h' = wh_salt_1 (sh_wal_header sh) + 1 \<Longrightarrow> wh_salt_2 h' = random \<Longrightarrow> stale h' (unat ps) rest)"
    and nz: "wh_salt_1 (sh_wal_header sh) + 1 \<noteq> 0 \<or> random \<noteq> 0"
  obtains sh' where "reset_wal_file be trunc random (sh\<lparr>sh_frame_cache := Map.empty, sh_pages_in_frames := [], sh_max_frame := 0, sh_nbackfills := 0\<rparr>) = Inr sh'"
    "log_holds be ps [] sh'"
proof -
  let ?h = "sh_wal_header sh"
  let ?g = "?h\<lparr>wh_checkpoint_seq := wh_checkpoint_seq ?h + 1, wh_salt_1 := wh_salt_1 ?h + 1, wh_salt_2 := random\<rparr>"
  have m: "wh_magic ?g = (if be then WAL_MAGIC_BE else WAL_MAGIC_LE)" and ps: "wh_page_size ?g = ps" and v: "valid_page_size ps"
    using holds by (simp_all add: log_holds_def Let_def)
  obtain h' where h0: "with_checksum be ?g = Inr h'" "header_sum h' = cks be h' (take 24 (header_image h')) (0, 0)"
    "wh_magic h' = wh_magic ?g" "wh_page_size h' = wh_page_size ?g" "wh_salt_1 h' = wh_salt_1 ?g" "wh_salt_2 h' = wh_salt_2 ?g"
    by (rule with_checksum_sum [OF m])
  note h = h0(1,2) h0(3) [unfolded m] h0(4) [unfolded ps]
  have h5: "wh_salt_1 h' = wh_salt_1 ?h + 1" "wh_salt_2 h' = random" using h0(5,6) by simp_all
  let ?f = "if trunc then [] else sh_file sh"
  have "stale h' (unat ps) (replicate 480 0 @ drop 512 ?f)"
  proof (cases trunc)
    case True
    then show ?thesis using valid_page_sizeD(5) [OF v] by (intro stale_short) simp
  next
    case False
    have "stale h' (unat ps) (replicate 480 0 @ drop 512 (sh_file sh))"
      using old [OF False _ h5] nz h5 by (intro reset_stale [OF holds]) simp_all
    then show ?thesis using False by simp
  qed
  then show thesis
    using h v that by (cases trunc) (simp_all add: reset_wal_file_def log_holds_def header_sum_def write_header_image Let_def)
qed

section \<open>Properties\<close>

fun append_all :: "bool \<Rightarrow> wal_file \<Rightarrow> frame list \<Rightarrow> wal_shared \<Rightarrow> wal_shared res" where
  "append_all be con [] sh = Inr sh"
| "append_all be con ((p, b, d) # fs) sh = res_bind (append_frame be p b d con sh) (append_all be con fs)"

lemma append_all_holds:
  assumes "log_holds be ps gs sh" "wf_page_size con = ps" "list_all (page_ok (unat ps)) fs"
  obtains sh' where "append_all be con fs sh = Inr sh'" "log_holds be ps (gs @ fs) sh'"
  using assms
proof (induction fs arbitrary: gs sh thesis)
  case (Cons f fs)
  obtain p b d where f: "f = (p, b, d)" by (cases f)
  have "page_ok (unat ps) (p, b, d)" using Cons.prems(4) by (simp add: f)
  from append_frame_holds [OF Cons.prems(2,3) this] obtain sh1 where
    a: "append_frame be p b d con sh = Inr sh1" "log_holds be ps (gs @ [f]) sh1" unfolding f by metis
  have "list_all (page_ok (unat ps)) fs" using Cons.prems(4) by simp
  from Cons.IH [OF _ a(2) Cons.prems(3) this] obtain sh2 where
    "append_all be con fs sh1 = Inr sh2" "log_holds be ps ((gs @ [f]) @ fs) sh2" by blast
  then show ?case using Cons.prems(1) a(1) by (simp add: f)
qed simp


definition demo_frames :: "frame list" where
  "demo_frames = [(3, replicate 512 7, 0), (5, replicate 512 1, 0), (3, replicate 512 9, 5)]"


text \<open>
  C25. Frames of an old generation are never replayed: after a reset of the log, which bumps the
  first salt, opening the file finds an empty log, whether the file was truncated or still holds
  all frames of the generation before, provided that what lies behind those frames does not
  carry the new salts and the new salts are not both zero.
\<close>

theorem reset_forgets_frames:
  assumes "log_holds be ps fs sh" "wh_salt_1 (sh_wal_header sh) + 1 \<noteq> 0 \<or> random \<noteq> 0"
    and "\<And>rest h'. sh_file sh = header_image (sh_wal_header sh) @ log_image be (sh_wal_header sh) fs (header_sum (sh_wal_header sh)) @ rest \<Longrightarrow>
      wh_salt_1 h' = wh_salt_1 (sh_wal_header sh) + 1 \<Longrightarrow> wh_salt_2 h' = random \<Longrightarrow> stale h' (unat ps) rest"
  shows "\<exists>sh' sh''. reset_wal_file be trunc random (sh\<lparr>sh_frame_cache := Map.empty, sh_pages_in_frames := [],
      sh_max_frame := 0, sh_nbackfills := 0\<rparr>) = Inr sh' \<and>
    read_entire_wal_dumb be (sh_file sh') = Inr sh'' \<and>
    sh_max_frame sh'' = 0 \<and> sh_frame_cache sh'' = Map.empty \<and> sh_last_checksum sh'' = sh_last_checksum sh'"
proof -
  obtain sh' where "reset_wal_file be trunc random (sh\<lparr>sh_frame_cache := Map.empty, sh_pages_in_frames := [],
      sh_max_frame := 0, sh_nbackfills := 0\<rparr>) = Inr sh'" "log_holds be ps [] sh'"
    using reset_holds [OF assms(1) _ assms(2), of trunc] assms(3) by metis
  moreover from this(2) have "sh_max_frame sh' = 0" "sh_frame_cache sh' = Map.empty"
    by (simp_all add: log_holds_def Let_def)
  ultimately show ?thesis using recover_log [of be ps "[]" sh'] by fastforce
qed

text \<open>A log with one frame behind which the file ends.\<close>

lemma one_frame_log:
  obtains sh where "log_holds False 512 [(1, replicate 512 0, 0)] sh" "wh_salt_1 (sh_wal_header sh) = 1"
    "length (sh_file sh) = 568"
proof -
  have v: "valid_page_size 512" by (simp add: valid_page_size_def)
  obtain h where h: "with_checksum False \<lparr>wh_magic = WAL_MAGIC_LE, wh_file_format = 3007000, wh_page_size = 512,
      wh_checkpoint_seq = 0, wh_salt_1 = 1, wh_salt_2 = 2, wh_checksum_1 = 0, wh_checksum_2 = 0\<rparr> = Inr h" "wh_salt_1 h = 1"
    using with_checksum_sum [of "\<lparr>wh_magic = WAL_MAGIC_LE, wh_file_format = 3007000, wh_page_size = 512,
      wh_checkpoint_seq = 0, wh_salt_1 = 1, wh_salt_2 = 2, wh_checksum_1 = 0, wh_checksum_2 = 0\<rparr>" False] by auto
  obtain sh where o: "open_shared_inner False 512 False 1 2 [] = Inr sh" "log_holds False 512 [] sh"
    using open_shared_holds [OF v] by metis
  have s: "wh_salt_1 (sh_wal_header sh) = 1" "length (sh_file sh) = 512"
    using o(1) h by (auto simp: open_shared_inner_def write_header_image length_header_image)
  have ok: "page_ok (unat (512 :: u32)) (1, replicate 512 0, 0)" by (simp add: page_ok_def)
  have c: "wf_page_size (wal_file_new 512) = 512" by (simp add: wal_file_new_def)
  obtain sh' where a: "append_frame False 1 (replicate 512 0) 0 (wal_file_new 512) sh = Inr sh'"
      "log_holds False 512 ([] @ [(1, replicate 512 0, 0)]) sh'" "sh_wal_header sh' = sh_wal_header sh"
      "sh_nbackfills sh' = sh_nbackfills sh" "sh_read_locks sh' = sh_read_locks sh" "sh_write_lock sh' = sh_write_lock sh"
      "length (sh_file sh') = max (length (sh_file sh)) (32 + Suc (length ([] :: frame list)) * (24 + unat (512 :: u32)))"
    by (rule append_frame_holds [OF o(2) c ok])
  then show thesis using that a s by simp
qed

theorem reset_forgets_frames_witness:
  "\<exists>sh sh' sh''. log_holds False 512 [(1, replicate 512 0, 0)] sh \<and>
    reset_wal_file False False 7 (sh\<lparr>sh_frame_cache := Map.empty, sh_pages_in_frames := [],
      sh_max_frame := 0, sh_nbackfills := 0\<rparr>) = Inr sh' \<and>
    read_entire_wal_dumb False (sh_file sh') = Inr sh'' \<and> sh_max_frame sh'' = 0"
proof -
  obtain sh where sh: "log_holds False 512 [(1, replicate 512 0, 0)] sh" "wh_salt_1 (sh_wal_header sh) = 1" "length (sh_file sh) = 568"
    by (rule one_frame_log)
  have st: "stale h' (unat (512 :: u32)) rest"
    if "sh_file sh = header_image (sh_wal_header sh) @
      log_image False (sh_wal_header sh) [(1, replicate 512 0, 0)] (header_sum (sh_wal_header sh)) @ rest" for h' rest
  proof -
    have "length (log_image False (sh_wal_header sh) [(1, replicate 512 0, 0)] (header_sum (sh_wal_header sh))) = 536"
      using length_log_image [of 512 "[(1, replicate 512 0, 0)]"] by (simp add: page_ok_def)
    then have "length rest = 0" using sh(3) that by (simp add: length_header_image)
    then show ?thesis by (intro stale_short) simp
  qed
  have "wh_salt_1 (sh_wal_header sh) + 1 \<noteq> 0 \<or> (7 :: u32) \<noteq> 0" by simp
  from reset_forgets_frames [OF sh(1) this st, of False] sh(1) show ?thesis by blast
qed

text \<open>
  C35. Recovery does not know about rollbacks: it replays every frame in the file, without looking
  for the mark of a commit. After a rollback of a transaction that had already written frames,
  the running process has forgotten them, and opening the file brings all of them back.
\<close>

theorem rolled_back_frames_recovered:
  assumes "log_holds be ps fs sh" "wf_txn_start_max_frame con < length fs"
  shows "\<exists>sh''. read_entire_wal_dumb be (sh_file (wal_rollback con sh)) = Inr sh'' \<and>
    sh_max_frame sh'' = length fs \<and> sh_max_frame (wal_rollback con sh) < sh_max_frame sh'' \<and>
    sh_frame_cache sh'' = sh_frame_cache sh"
proof -
  have "sh_file (wal_rollback con sh) = sh_file sh" "sh_max_frame (wal_rollback con sh) = wf_txn_start_max_frame con"
    by (simp_all add: wal_rollback_def rollback_to_frame_def retain_frames_def Let_def)
  moreover have "sh_max_frame sh = length fs" using assms(1) by (simp add: log_holds_def Let_def)
  ultimately show ?thesis using recover_log [OF assms(1)] assms(2) by fastforce
qed

theorem rolled_back_frames_recovered_witness:
  "\<exists>sh sh''. log_holds False 512 [(1, replicate 512 0, 0)] sh \<and>
    read_entire_wal_dumb False (sh_file (wal_rollback (wal_file_new 512) sh)) = Inr sh'' \<and>
    sh_max_frame (wal_rollback (wal_file_new 512) sh) = 0 \<and> sh_max_frame sh'' = 1"
proof -
  obtain sh where sh: "log_holds False 512 [(1, replicate 512 0, 0)] sh"
    by (rule one_frame_log)
  have "wf_txn_start_max_frame (wal_file_new 512) < length [(1 :: nat, replicate 512 (0 :: u8), 0 :: u32)]"
    by (simp add: wal_file_new_def)
  from rolled_back_frames_recovered [OF sh this] sh show ?thesis
    by (auto simp: wal_rollback_def rollback_to_frame_def wal_file_new_def)
qed

text \<open>
  C36. With pages of 64 KiB the frame checksum does not cover the page: the page size is cut to 16
  bits before the frame is written, and any two contents give the same running checksum.
\<close>

theorem wide_page_checksum:
  assumes "wf_page_size con = 65536"
  shows "\<exists>sh1 sh2. append_frame be p b1 d con sh = Inr sh1 \<and> append_frame be p b2 d con sh = Inr sh2 \<and>
    sh_last_checksum sh1 = sh_last_checksum sh2"
proof -
  have u: "(ucast (65536 :: u32) :: u16) = 0" by simp
  show ?thesis
    unfolding append_frame_def assms u
    by (cases "sh_frame_cache sh p")
      (simp_all add: frame_offset_def begin_write_wal_frame_def checksum_wal_def Let_def)
qed

theorem wide_page_checksum_witness:
  "\<exists>sh sh1 sh2. append_frame False 1 (replicate 65536 0) 1 (wal_file_new 65536) sh = Inr sh1 \<and>
    append_frame False 1 (replicate 65536 255) 1 (wal_file_new 65536) sh = Inr sh2 \<and>
    sh_last_checksum sh1 = sh_last_checksum sh2"
proof -
  have "wf_page_size (wal_file_new 65536) = 65536" by (simp add: wal_file_new_def)
  from wide_page_checksum [OF this] show ?thesis by blast
qed

end
