(* ===== verification/WalSnap.thy ===== *)
theory WalSnap
  imports WalRecover
begin

text \<open>
  Snapshots: frame lookup, rollback, and what a complete checkpoint does to the database file, to
  the frame index and to the pages that a reader with an older snapshot sees.
\<close>

section \<open>The frame index\<close>

definition index_ok :: "wal_shared \<Rightarrow> bool" where
  "index_ok sh =
     ((\<forall>p frames. sh_frame_cache sh p = Some frames \<longrightarrow> frames \<noteq> [] \<and> sorted_wrt (<) frames \<and>
        (\<forall>f\<in>set frames. sh_nbackfills sh < f \<and> f \<le> sh_max_frame sh)) \<and>
      set (sh_pages_in_frames sh) = dom (sh_frame_cache sh))"

definition frames_of :: "wal_shared \<Rightarrow> nat \<Rightarrow> nat list" where
  "frames_of sh p = (case sh_frame_cache sh p of None \<Rightarrow> [] | Some frames \<Rightarrow> frames)"

text \<open>The newest element of a list of frames with a property.\<close>

definition newest :: "(nat \<Rightarrow> bool) \<Rightarrow> nat list \<Rightarrow> nat option" where
  "newest P frames = find P (rev frames)"

lemma newest_Some:
  assumes "sorted_wrt (<) frames"
  shows "newest P frames = Some f \<longleftrightarrow> f \<in> set frames \<and> P f \<and> (\<forall>g\<in>set frames. P g \<longrightarrow> g \<le> f)"
  using assms unfolding newest_def
proof (induction frames rule: rev_induct)
  case (snoc x xs)
  then have x: "\<forall>g\<in>set xs. g < x" and s: "sorted_wrt (<) xs" by (auto simp: sorted_wrt_append)
  show ?case
  proof (cases "P x")
    case True
    then show ?thesis using x by (auto intro: order.strict_implies_order)
  next
    case False
    then show ?thesis using snoc.IH [OF s] by auto
  qed
qed simp

lemma newest_None: "newest P frames = None \<longleftrightarrow> (\<forall>f\<in>set frames. \<not> P f)"
  by (auto simp: newest_def find_None_iff)

lemma newest_cong: "(\<And>f. f \<in> set frames \<Longrightarrow> P f = Q f) \<Longrightarrow> newest P frames = newest Q frames"
  unfolding newest_def by (rule find_cong) auto

lemma find_frame_newest: "find_frame con sh p = newest (\<lambda>f. f \<le> wf_max_frame con) (frames_of sh p)"
  by (simp add: find_frame_def newest_def frames_of_def split: option.splits)

lemma index_okD:
  assumes "index_ok sh"
  shows "sorted_wrt (<) (frames_of sh p)" "f \<in> set (frames_of sh p) \<Longrightarrow> sh_nbackfills sh < f \<and> f \<le> sh_max_frame sh"
    "p \<in> set (sh_pages_in_frames sh) \<longleftrightarrow> frames_of sh p \<noteq> []"
  using assms by (cases "sh_frame_cache sh p"; auto simp: index_ok_def frames_of_def)+

section \<open>Rollback\<close>

lemma append_frame_index:
  assumes "append_frame be p b d con sh = Inr sh'"
  shows "sh_max_frame sh' = Suc (sh_max_frame sh)"
    "sh_frame_cache sh' = cache_push p (Suc (sh_max_frame sh)) (sh_frame_cache sh)"
    "sh_pages_in_frames sh' = sh_pages_in_frames sh @ (if sh_frame_cache sh p = None then [p] else [])"
    "sh_nbackfills sh' = sh_nbackfills sh" "sh_read_locks sh' = sh_read_locks sh"
proof -
  have fid: "(if sh_max_frame sh = 0 then 1 else sh_max_frame sh + 1) = Suc (sh_max_frame sh)" by simp
  note a = assms [unfolded append_frame_def Let_def fid]
  show "sh_max_frame sh' = Suc (sh_max_frame sh)"
    "sh_frame_cache sh' = cache_push p (Suc (sh_max_frame sh)) (sh_frame_cache sh)"
    "sh_pages_in_frames sh' = sh_pages_in_frames sh @ (if sh_frame_cache sh p = None then [p] else [])"
    "sh_nbackfills sh' = sh_nbackfills sh" "sh_read_locks sh' = sh_read_locks sh"
    using a by (auto simp: cache_push_def split: option.splits)
qed

lemma append_frame_index_ok:
  assumes "append_frame be p b d con sh = Inr sh'" "index_ok sh" "sh_nbackfills sh \<le> sh_max_frame sh"
  shows "index_ok sh'" "sh_nbackfills sh' \<le> sh_max_frame sh'"
proof -
  note a = append_frame_index [OF assms(1)]
  have "sorted_wrt (<) (frames_of sh p @ [Suc (sh_max_frame sh)])"
    using index_okD(1,2) [OF assms(2)] by (auto simp: sorted_wrt_append less_Suc_eq_le)
  then show "index_ok sh'"
    using assms(2,3) unfolding index_ok_def a
    by (auto simp: cache_push_def frames_of_def le_Suc_eq split: option.splits if_splits)
  show "sh_nbackfills sh' \<le> sh_max_frame sh'" using assms(3) by (simp add: a)
qed

lemma retain_append:
  assumes "append_frame be p b d con sh = Inr sh'" "m \<le> sh_max_frame sh"
  shows "sh_frame_cache (retain_frames (\<lambda>f. f \<le> m) sh') = sh_frame_cache (retain_frames (\<lambda>f. f \<le> m) sh)"
    "sh_pages_in_frames (retain_frames (\<lambda>f. f \<le> m) sh') = sh_pages_in_frames (retain_frames (\<lambda>f. f \<le> m) sh)"
proof -
  note a = append_frame_index [OF assms(1)]
  show fc: "sh_frame_cache (retain_frames (\<lambda>f. f \<le> m) sh') = sh_frame_cache (retain_frames (\<lambda>f. f \<le> m) sh)"
    using assms(2) by (auto simp: retain_frames_def a cache_push_def Let_def split: option.splits)
  have "sh_pages_in_frames (retain_frames P s) = filter (\<lambda>p. sh_frame_cache (retain_frames P s) p \<noteq> None) (sh_pages_in_frames s)" for P s
    by (simp add: retain_frames_def Let_def)
  moreover have "sh_frame_cache sh p = None \<Longrightarrow> sh_frame_cache (retain_frames (\<lambda>f. f \<le> m) sh) p = None"
    by (simp add: retain_frames_def Let_def)
  ultimately show "sh_pages_in_frames (retain_frames (\<lambda>f. f \<le> m) sh') = sh_pages_in_frames (retain_frames (\<lambda>f. f \<le> m) sh)"
    by (simp add: fc a(3))
qed

lemma retain_append_all:
  assumes "append_all be con fs sh = Inr sh'" "m \<le> sh_max_frame sh"
  shows "sh_frame_cache (retain_frames (\<lambda>f. f \<le> m) sh') = sh_frame_cache (retain_frames (\<lambda>f. f \<le> m) sh) \<and>
    sh_pages_in_frames (retain_frames (\<lambda>f. f \<le> m) sh') = sh_pages_in_frames (retain_frames (\<lambda>f. f \<le> m) sh)"
  using assms
proof (induction fs arbitrary: sh)
  case (Cons f fs)
  obtain p b d where f: "f = (p, b, d)" by (cases f)
  obtain sh1 where a: "append_frame be p b d con sh = Inr sh1" "append_all be con fs sh1 = Inr sh'"
    using Cons.prems(1) by (auto simp: f)
  have "m \<le> sh_max_frame sh1" using append_frame_index(1) [OF a(1)] Cons.prems(2) by simp
  then show ?case using Cons.IH [OF a(2)] retain_append [OF a(1) Cons.prems(2)] by simp
qed simp

lemma retain_all:
  assumes "index_ok sh"
  shows "sh_frame_cache (retain_frames (\<lambda>f. f \<le> sh_max_frame sh) sh) = sh_frame_cache sh"
    "sh_pages_in_frames (retain_frames (\<lambda>f. f \<le> sh_max_frame sh) sh) = sh_pages_in_frames sh"
proof -
  have f: "filter (\<lambda>f. f \<le> sh_max_frame sh) fs = fs \<and> fs \<noteq> []" if "sh_frame_cache sh p = Some fs" for p fs
    using assms that by (auto simp: index_ok_def filter_id_conv)
  show fc: "sh_frame_cache (retain_frames (\<lambda>f. f \<le> sh_max_frame sh) sh) = sh_frame_cache sh"
    by (rule ext) (auto simp: retain_frames_def Let_def dest: f split: option.splits)
  have "set (sh_pages_in_frames sh) = dom (sh_frame_cache sh)" using assms by (simp add: index_ok_def)
  then have "filter (\<lambda>p. sh_frame_cache sh p \<noteq> None) (sh_pages_in_frames sh) = sh_pages_in_frames sh"
    by (auto simp: filter_id_conv)
  then show "sh_pages_in_frames (retain_frames (\<lambda>f. f \<le> sh_max_frame sh) sh) = sh_pages_in_frames sh"
    using fc by (simp add: retain_frames_def Let_def)
qed

section \<open>The checkpoint, page by page\<close>

definition frame_page :: "wal_file \<Rightarrow> wal_shared \<Rightarrow> nat \<Rightarrow> bytes" where
  "frame_page con sh f = pread (32 + (f - 1) * (unat (wf_page_size con) + 24) + 24) (unat (wf_page_size con)) (sh_file sh)"

definition in_range :: "nat \<Rightarrow> nat \<Rightarrow> wal_shared \<Rightarrow> nat \<Rightarrow> nat option" where
  "in_range mn mx sh p = newest (\<lambda>f. mn \<le> f \<and> f \<le> mx) (frames_of sh p)"

definition backfill :: "nat \<Rightarrow> nat \<Rightarrow> wal_file \<Rightarrow> wal_shared \<Rightarrow> nat \<Rightarrow> (nat \<rightharpoonup> bytes) \<Rightarrow> (nat \<rightharpoonup> bytes)" where
  "backfill mn mx con sh p db = (case in_range mn mx sh p of None \<Rightarrow> db | Some f \<Rightarrow> db(p \<mapsto> frame_page con sh f))"

lemma loop_continue:
  "checkpoint_step be mode r w = Inr (w', Continue) \<Longrightarrow> wal_checkpoint_loop be mode r w = wal_checkpoint_loop be mode r w'"
  by (subst wal_checkpoint_loop.simps) simp

lemma loop_return:
  "checkpoint_step be mode r w = Inr (w', Return st) \<Longrightarrow> wal_checkpoint_loop be mode r w = Some (Inr (w', st))"
  by (subst wal_checkpoint_loop.simps) simp

lemma upd_ongoing_upd [simp]: "upd_ongoing f (con\<lparr>wf_ongoing := oc\<rparr>) = con\<lparr>wf_ongoing := f oc\<rparr>"
  by (simp add: upd_ongoing_def)

lemmas ck_step_defs = checkpoint_step_def ck_read_frame_def ck_write_page_def frame_data_offset_def frame_offset_def
  WAL_HEADER_SIZE_def WAL_FRAME_HEADER_SIZE_def

definition backfill_all :: "nat \<Rightarrow> nat \<Rightarrow> wal_file \<Rightarrow> wal_shared \<Rightarrow> (nat \<rightharpoonup> bytes) \<Rightarrow> (nat \<rightharpoonup> bytes)" where
  "backfill_all mn mx con sh db = (\<lambda>p. case in_range mn mx sh p of None \<Rightarrow> db p | Some f \<Rightarrow> Some (frame_page con sh f))"

lemma fold_backfill:
  "fold (backfill mn mx con sh) ps db =
     (\<lambda>p. if p \<in> set ps then backfill_all mn mx con sh db p else db p)"
proof (induction ps arbitrary: db)
  case (Cons q ps)
  then show ?case by (auto simp: backfill_def backfill_all_def fun_eq_iff split: option.splits)
qed simp

definition ck_shared :: "bool \<Rightarrow> checkpoint_mode \<Rightarrow> u32 \<Rightarrow> nat \<Rightarrow> wal_shared \<Rightarrow> wal_shared res" where
  "ck_shared be mode r mx sh =
     (if sh_max_frame sh = mx then reset_wal_file be (mode = Truncate) r
        (sh\<lparr>sh_frame_cache := Map.empty, sh_pages_in_frames := [], sh_max_frame := 0, sh_nbackfills := 0\<rparr>)
      else Inr (trim_backfilled_frames mx (sh\<lparr>sh_nbackfills := mx\<rparr>)))"

lemma reset_total: "\<exists>sh'. reset_wal_file be trunc r sh = Inr sh'"
proof -
  have "length (take 24 (wh_as_bytes be h)) mod 8 = 0" for h by (simp add: wh_as_bytes_def to_ne_def)
  then show ?thesis by (simp add: reset_wal_file_def with_checksum_def checksum_wal_def WAL_HEADER_SIZE_def Let_def)
qed

text \<open>
  A driver of the checkpoint: it calls the loop of the log again after each turn of the I/O loop. What it returns depends only on
  where the loop of the log goes. The checkpoint a client asks for and the one inside of a commit are such drivers.
\<close>

locale checkpoint_driver =
  fixes be :: bool and mode :: checkpoint_mode and r :: u32
    and idle :: "wal_file \<Rightarrow> bool" and drive :: "wal_world \<Rightarrow> 'a"
  assumes idle_upd: "idle (con\<lparr>wf_ongoing := oc\<rparr>) = idle con"
    and drive_same: "wal_checkpoint_loop be mode r (con, sh, io) = wal_checkpoint_loop be mode r (con', sh', io') \<Longrightarrow>
      idle con \<Longrightarrow> idle con' \<Longrightarrow> io_write_counter io = 0 \<Longrightarrow> io_write_counter io' = 0 \<Longrightarrow> drive (con, sh, io) = drive (con', sh', io')"
    and drive_io: "wal_checkpoint_loop be mode r (con, sh, io) = Some (Inr ((con', sh', io'), CkIO)) \<Longrightarrow>
      idle con \<Longrightarrow> idle con' \<Longrightarrow> io_write_counter io = 0 \<Longrightarrow> drive (con, sh, io) = drive (run_once (con', sh', io'))"
begin

text \<open>A page without a frame in range is passed over.\<close>

lemma ck_skip_page:
  assumes "idle con" "oc_state oc = CReadFrame" "oc_current_page oc < length (sh_pages_in_frames sh)"
    "io_write_counter io = 0" "index_ok sh" "p = sh_pages_in_frames sh ! oc_current_page oc"
    "in_range (oc_min_frame oc) (oc_max_frame oc) sh p = None"
  shows "drive (con\<lparr>wf_ongoing := oc\<rparr>, sh, io) = drive (con\<lparr>wf_ongoing := oc\<lparr>oc_current_page := oc_current_page oc + 1\<rparr>\<rparr>, sh, io)"
proof (rule drive_same)
  have "p \<in> set (sh_pages_in_frames sh)" using assms(3,6) by simp
  then obtain frames where fr: "sh_frame_cache sh p = Some frames" using assms(5) by (auto simp: index_ok_def)
  then have n: "find (\<lambda>f. oc_min_frame oc \<le> f \<and> f \<le> oc_max_frame oc) (rev frames) = None"
    using assms(7) by (simp add: in_range_def newest_def frames_of_def)
  show "wal_checkpoint_loop be mode r (con\<lparr>wf_ongoing := oc\<rparr>, sh, io) =
    wal_checkpoint_loop be mode r (con\<lparr>wf_ongoing := oc\<lparr>oc_current_page := oc_current_page oc + 1\<rparr>\<rparr>, sh, io)"
    using assms(2-4) fr n assms(6) by (intro loop_continue) (simp add: ck_step_defs Let_def)
qed (use assms(1,4) in \<open>simp_all add: idle_upd\<close>)

text \<open>A page with a frame in range is read from the log and written to the database.\<close>

lemma ck_copy_page:
  assumes "idle con" "oc_state oc = CReadFrame" "oc_current_page oc < length (sh_pages_in_frames sh)"
    "io_pending io = []" "io_write_counter io = 0" "index_ok sh" "p = sh_pages_in_frames sh ! oc_current_page oc"
    "in_range (oc_min_frame oc) (oc_max_frame oc) sh p = Some f"
  shows "drive (con\<lparr>wf_ongoing := oc\<rparr>, sh, io) =
    drive (con\<lparr>wf_ongoing := oc\<lparr>oc_page_id := p, oc_page := frame_page con sh f, oc_locked := False,
         oc_touched_pages := oc_touched_pages oc @ [p], oc_current_page := oc_current_page oc + 1\<rparr>\<rparr>, sh,
       io\<lparr>io_db := (io_db io)(p \<mapsto> frame_page con sh f)\<rparr>)"
proof -
  have "p \<in> set (sh_pages_in_frames sh)" using assms(3,7) by simp
  then obtain frames where fr: "sh_frame_cache sh p = Some frames" using assms(6) by (auto simp: index_ok_def)
  then have n: "find (\<lambda>f. oc_min_frame oc \<le> f \<and> f \<le> oc_max_frame oc) (rev frames) = Some f"
    using assms(8) by (simp add: in_range_def newest_def frames_of_def)
  have "f \<in> set (frames_of sh p)"
    using assms(8) newest_Some [OF index_okD(1) [OF assms(6)]] by (auto simp: in_range_def)
  then have f: "0 < f" using index_okD(2) [OF assms(6)] by fastforce
  let ?off = "32 + (f - 1) * (unat (wf_page_size con) + 24) + 24"
  let ?oc1 = "oc\<lparr>oc_page_id := p, oc_touched_pages := oc_touched_pages oc @ [p], oc_locked := True, oc_state := CWaitReadFrame\<rparr>"
  let ?w1 = "(con\<lparr>wf_ongoing := ?oc1\<rparr>, sh, io\<lparr>io_pending := [ReadWalFrame ?off]\<rparr>)"
  have "wal_checkpoint_loop be mode r (con\<lparr>wf_ongoing := oc\<rparr>, sh, io) = wal_checkpoint_loop be mode r ?w1"
    using assms(2-5) fr n assms(7) f by (intro loop_continue) (simp add: ck_step_defs Let_def)
  also have "\<dots> = Some (Inr (?w1, CkIO))" by (rule loop_return) (simp add: ck_step_defs)
  finally have 1: "drive (con\<lparr>wf_ongoing := oc\<rparr>, sh, io) = drive (run_once ?w1)"
    by (rule drive_io) (use assms(1,5) in \<open>simp_all add: idle_upd\<close>)
  let ?oc2 = "?oc1\<lparr>oc_page := frame_page con sh f, oc_locked := False\<rparr>"
  have r1: "run_once ?w1 = (con\<lparr>wf_ongoing := ?oc2\<rparr>, sh, io)"
    using assms(4) by (simp add: run_once_def frame_page_def)
  let ?oc3 = "?oc2\<lparr>oc_state := CWaitWritePage\<rparr>"
  let ?w3 = "(con\<lparr>wf_ongoing := ?oc3\<rparr>, sh, io\<lparr>io_write_counter := 1, io_pending := [WriteDbPage p (frame_page con sh f)]\<rparr>)"
  have "wal_checkpoint_loop be mode r (con\<lparr>wf_ongoing := ?oc2\<rparr>, sh, io) =
      wal_checkpoint_loop be mode r (con\<lparr>wf_ongoing := ?oc2\<lparr>oc_state := CWritePage\<rparr>\<rparr>, sh, io)"
    by (intro loop_continue) (simp add: ck_step_defs)
  also have "\<dots> = wal_checkpoint_loop be mode r ?w3"
    using assms(4,5) by (intro loop_continue) (simp add: ck_step_defs)
  also have "\<dots> = Some (Inr (?w3, CkIO))" by (rule loop_return) (simp add: ck_step_defs)
  finally have 2: "drive (con\<lparr>wf_ongoing := ?oc2\<rparr>, sh, io) = drive (run_once ?w3)"
    by (rule drive_io) (use assms(1,5) in \<open>simp_all add: idle_upd\<close>)
  let ?io = "io\<lparr>io_db := (io_db io)(p \<mapsto> frame_page con sh f)\<rparr>"
  have r3: "run_once ?w3 = (con\<lparr>wf_ongoing := ?oc3\<rparr>, sh, ?io)"
    using assms(4,5) by (simp add: run_once_def)
  have 3: "drive (con\<lparr>wf_ongoing := ?oc3\<rparr>, sh, ?io) =
      drive (con\<lparr>wf_ongoing := ?oc3\<lparr>oc_current_page := oc_current_page oc + 1, oc_state := CReadFrame\<rparr>\<rparr>, sh, ?io)"
    using assms(1,3,5) by (intro drive_same loop_continue) (simp_all add: idle_upd ck_step_defs)
  show ?thesis unfolding 1 r1 2 r3 3 using assms(2) by (cases oc) simp
qed

lemma ck_pages:
  assumes "idle con" "index_ok sh" "oc_state oc = CReadFrame" "oc_current_page oc \<le> length (sh_pages_in_frames sh)"
    "io_pending io = []" "io_write_counter io = 0"
  defines "todo \<equiv> drop (oc_current_page oc) (sh_pages_in_frames sh)"
  shows "\<exists>oc'. drive (con\<lparr>wf_ongoing := oc\<rparr>, sh, io) =
      drive (con\<lparr>wf_ongoing := oc'\<rparr>, sh, io\<lparr>io_db := fold (backfill (oc_min_frame oc) (oc_max_frame oc) con sh) todo (io_db io)\<rparr>) \<and>
    oc_state oc' = CDone \<and> oc_max_frame oc' = oc_max_frame oc"
  using assms(1-6) unfolding todo_def
proof (induction "length (sh_pages_in_frames sh) - oc_current_page oc" arbitrary: oc io)
  case 0
  then have e: "oc_current_page oc = length (sh_pages_in_frames sh)" by simp
  have "drive (con\<lparr>wf_ongoing := oc\<rparr>, sh, io) = drive (con\<lparr>wf_ongoing := oc\<lparr>oc_state := CDone\<rparr>\<rparr>, sh, io)"
    using 0 e by (intro drive_same loop_continue) (simp_all add: idle_upd ck_step_defs Let_def)
  then show ?case using e by (intro exI [of _ "oc\<lparr>oc_state := CDone\<rparr>"]) simp
next
  case (Suc n)
  then have lt: "oc_current_page oc < length (sh_pages_in_frames sh)" by simp
  let ?p = "sh_pages_in_frames sh ! oc_current_page oc"
  have d: "drop (oc_current_page oc) (sh_pages_in_frames sh) = ?p # drop (oc_current_page oc + 1) (sh_pages_in_frames sh)"
    using lt by (simp add: Cons_nth_drop_Suc)
  show ?case
  proof (cases "in_range (oc_min_frame oc) (oc_max_frame oc) sh ?p")
    case None
    let ?oc = "oc\<lparr>oc_current_page := oc_current_page oc + 1\<rparr>"
    have "drive (con\<lparr>wf_ongoing := oc\<rparr>, sh, io) = drive (con\<lparr>wf_ongoing := ?oc\<rparr>, sh, io)"
      by (rule ck_skip_page [OF Suc.prems(1,3) lt Suc.prems(6,2) refl None])
    then show ?thesis
      using Suc.hyps(1) [of ?oc io] Suc.hyps(2) Suc.prems lt None unfolding d by (simp add: backfill_def)
  next
    case (Some f)
    let ?oc = "oc\<lparr>oc_page_id := ?p, oc_page := frame_page con sh f, oc_locked := False,
         oc_touched_pages := oc_touched_pages oc @ [?p], oc_current_page := oc_current_page oc + 1\<rparr>"
    let ?io = "io\<lparr>io_db := (io_db io)(?p \<mapsto> frame_page con sh f)\<rparr>"
    have "drive (con\<lparr>wf_ongoing := oc\<rparr>, sh, io) = drive (con\<lparr>wf_ongoing := ?oc\<rparr>, sh, ?io)"
      by (rule ck_copy_page [OF Suc.prems(1,3) lt Suc.prems(5,6,2) refl Some])
    then show ?thesis
      using Suc.hyps(1) [of ?oc ?io] Suc.hyps(2) Suc.prems lt Some unfolding d by (simp add: backfill_def)
  qed
qed

text \<open>From the start of a checkpoint to the call that returns its result.\<close>

lemma drive_checkpoint:
  assumes "idle con" "index_ok sh" "oc_state (wf_ongoing con) = CStart" "io_pending io = []" "io_write_counter io = 0"
    and safe: "safe_loop 0 (sh_read_locks sh) (sh_max_frame sh) = (locks, mx)"
  obtains oc1 sh1 io1 oc sh' io' res where "drive (con, sh, io) = drive (con\<lparr>wf_ongoing := oc1\<rparr>, sh1, io1)"
    "wal_checkpoint_loop be mode r (con\<lparr>wf_ongoing := oc1\<rparr>, sh1, io1) = Some (Inr ((con\<lparr>wf_ongoing := oc\<rparr>, sh', io'), CkDone res))"
    "io_write_counter io1 = 0" "oc_state oc = CStart" "io_pending io' = []" "io_write_counter io' = 0"
    "io_db io' = backfill_all (wf_min_frame con) mx con sh (io_db io)"
    "ck_shared be mode r mx (sh\<lparr>sh_read_locks := locks\<rparr>) = Inr sh'"
    "cr_num_wal_frames res = sh_max_frame sh" "cr_num_checkpointed_frames res = mx"
proof -
  let ?oc = "(wf_ongoing con)\<lparr>oc_min_frame := wf_min_frame con, oc_max_frame := mx, oc_current_page := 0,
          oc_touched_pages := [], oc_state := CReadFrame\<rparr>"
  let ?sh = "sh\<lparr>sh_read_locks := locks\<rparr>"
  have ok: "index_ok ?sh" using assms(2) by (simp add: index_ok_def)
  have 1: "drive (con, sh, io) = drive (con\<lparr>wf_ongoing := ?oc\<rparr>, ?sh, io)"
    using assms(1,3,5) safe by (intro drive_same loop_continue) (simp_all add: idle_upd ck_step_defs ck_start_def upd_ongoing_def)
  let ?db = "fold (backfill (wf_min_frame con) mx con ?sh) (sh_pages_in_frames sh) (io_db io)"
  obtain oc where oc: "drive (con\<lparr>wf_ongoing := ?oc\<rparr>, ?sh, io) = drive (con\<lparr>wf_ongoing := oc\<rparr>, ?sh, io\<lparr>io_db := ?db\<rparr>)"
    "oc_state oc = CDone" "oc_max_frame oc = mx"
    using ck_pages [OF assms(1) ok, of ?oc io] assms(4,5) by auto
  have same: "in_range mn mx ?sh p = in_range mn mx sh p" "frame_page con ?sh f = frame_page con sh f" for mn p f
    by (simp_all add: in_range_def frames_of_def frame_page_def)
  have "in_range mn mx sh p = None" if "p \<notin> set (sh_pages_in_frames sh)" for mn p
    using that index_okD(3) [OF assms(2), of p] by (simp add: in_range_def newest_def)
  then have db: "?db = backfill_all (wf_min_frame con) mx con sh (io_db io)"
    by (auto simp: fold_backfill fun_eq_iff backfill_all_def same split: option.splits)
  obtain sh' where sh': "ck_shared be mode r mx ?sh = Inr sh'"
    using reset_total [of be "mode = Truncate" r] by (fastforce simp: ck_shared_def)
  let ?res = "\<lparr>cr_num_wal_frames = sh_max_frame sh, cr_num_checkpointed_frames = mx, cr_checkpointed_page_ids = oc_touched_pages oc\<rparr>"
  let ?oc' = "oc\<lparr>oc_touched_pages := [], oc_state := CStart\<rparr>"
  have "wal_checkpoint_loop be mode r (con\<lparr>wf_ongoing := oc\<rparr>, ?sh, io\<lparr>io_db := ?db\<rparr>) =
      Some (Inr ((con\<lparr>wf_ongoing := ?oc'\<rparr>, sh', io\<lparr>io_db := ?db\<rparr>), CkDone ?res))"
    using oc(2,3) sh' assms(5) by (intro loop_return) (auto simp: ck_step_defs ck_done_def ck_shared_def Let_def split: if_splits)
  then show thesis
    using that [of oc ?sh "io\<lparr>io_db := ?db\<rparr>" ?oc' sh' "io\<lparr>io_db := ?db\<rparr>" ?res] sh' db assms(4,5) 1 oc(1) by simp
qed

end

text \<open>The checkpoint that a client asks for.\<close>

lemma fresh_counter_idle: "io_write_counter io = 0 \<Longrightarrow> fresh_counter (con, sh, io) = (con, sh, io)"
  by (simp add: fresh_counter_def)

interpretation mode_drive: checkpoint_driver be mode r "\<lambda>_. True" "wal_checkpoint_mode be mode r" for be mode r
proof unfold_locales
  show "wal_checkpoint_mode be mode r (con, sh, io) = wal_checkpoint_mode be mode r (con', sh', io')"
    if "wal_checkpoint_loop be mode r (con, sh, io) = wal_checkpoint_loop be mode r (con', sh', io')"
      "io_write_counter io = 0" "io_write_counter io' = 0" for con sh io con' sh' io'
    using that by (subst (1 2) wal_checkpoint_mode.simps) (simp add: fresh_counter_idle)
  show "wal_checkpoint_mode be mode r (con, sh, io) = wal_checkpoint_mode be mode r (run_once (con', sh', io'))"
    if "wal_checkpoint_loop be mode r (con, sh, io) = Some (Inr ((con', sh', io'), CkIO))" "io_write_counter io = 0" for con sh io con' sh' io'
    using that by (subst wal_checkpoint_mode.simps) (simp add: fresh_counter_idle)
qed simp

text \<open>What a complete checkpoint does, from its start to its result.\<close>

lemma checkpoint_result:
  assumes "index_ok sh" "oc_state (wf_ongoing con) = CStart" "io_pending io = []"
    and safe: "safe_loop 0 (sh_read_locks sh) (sh_max_frame sh) = (locks, mx)"
  obtains oc res io' sh' where
    "wal_checkpoint_mode be mode r (con, sh, io) = Some (Inr ((con\<lparr>wf_ongoing := oc\<rparr>, sh', io'), res))"
    "oc_state oc = CStart" "io_pending io' = []"
    "io_db io' = backfill_all (wf_min_frame con) mx con sh (io_db io)"
    "ck_shared be mode r mx (sh\<lparr>sh_read_locks := locks\<rparr>) = Inr sh'"
    "cr_num_wal_frames res = sh_max_frame sh" "cr_num_checkpointed_frames res = mx"
proof -
  let ?io = "io\<lparr>io_write_counter := 0\<rparr>"
  have fresh: "wal_checkpoint_mode be mode r (con, sh, io) = wal_checkpoint_mode be mode r (con, sh, ?io)"
    by (subst (1 2) wal_checkpoint_mode.simps) (simp add: fresh_counter_def)
  have io: "io_pending ?io = []" "io_write_counter ?io = 0" using assms(3) by simp_all
  show thesis
    using TrueI assms(1,2) io safe
  proof (cases rule: mode_drive.drive_checkpoint [where be = be and mode = mode and r = r])
    case (1 oc1 sh1 io1 oc sh' io' res)
    have "wal_checkpoint_mode be mode r (con\<lparr>wf_ongoing := oc1\<rparr>, sh1, io1) = Some (Inr ((con\<lparr>wf_ongoing := oc\<rparr>, sh', io'), res))"
      using 1(2,3) by (subst wal_checkpoint_mode.simps) (simp add: fresh_counter_idle)
    then show thesis using that fresh 1 by simp
  qed
qed

section \<open>What readers see\<close>

definition view :: "wal_file \<Rightarrow> wal_shared \<Rightarrow> wal_io \<Rightarrow> nat \<Rightarrow> bytes option" where
  "view con sh io p = (case find_frame con sh p of None \<Rightarrow> io_db io p | Some f \<Rightarrow> Some (frame_page con sh f))"

text \<open>A reader holds the read lock of its mark.\<close>

definition reads_at_mark :: "wal_file \<Rightarrow> wal_shared \<Rightarrow> bool" where
  "reads_at_mark r sh =
     (let i = wf_max_frame_read_lock_index r in
      i < length (sh_read_locks sh) \<and> lk_lock (sh_read_locks sh ! i) = SHARED_LOCK \<and>
      unat (lk_value (sh_read_locks sh ! i)) = wf_max_frame r)"

lemma safe_loop_bound:
  assumes "safe_loop idx ls m = (ls', m')" "m < 2 ^ 32"
  shows "m' \<le> m \<and> length ls' = length ls \<and>
    (\<forall>i<length ls. lk_lock (ls ! i) = SHARED_LOCK \<longrightarrow> m' \<le> unat (lk_value (ls ! i)) \<and> ls' ! i = ls ! i)"
  using assms
proof (induction ls arbitrary: idx m ls')
  case (Cons l ls)
  let ?lm = "if lk_value l < word_of_nat m then
      case rw_write l of
        (l', True) \<Rightarrow> (rw_unlock (l'\<lparr>lk_value := (if idx = 0 then word_of_nat m else READMARK_NOT_USED)\<rparr>), m)
      | (l', False) \<Rightarrow> (l', unat (lk_value l))
    else (l, m)"
  obtain l1 m1 where lm: "?lm = (l1, m1)" by fastforce
  obtain ls1 where r: "safe_loop (idx + 1) ls m1 = (ls1, m')" "ls' = l1 # ls1"
    using Cons.prems(1) unfolding safe_loop.simps Let_def lm by (auto split: prod.splits)
  have w: "unat (word_of_nat m :: u32) = m" using Cons.prems(2) by (rule unat_u32_of_nat)
  have m1: "m1 \<le> m"
    using lm w by (cases "lk_lock l") (auto simp: word_less_nat_alt rw_write_def split: if_splits)
  have busy: "m1 \<le> unat (lk_value l) \<and> l1 = l" if "lk_lock l = SHARED_LOCK"
    using lm w that by (auto simp: word_less_nat_alt rw_write_def split: if_splits)
  have "m1 < 2 ^ 32" using m1 Cons.prems(2) by linarith
  note IH = Cons.IH [OF r(1) this]
  have "m' \<le> unat (lk_value ((l # ls) ! i)) \<and> ls' ! i = (l # ls) ! i"
    if "i < length (l # ls)" "lk_lock ((l # ls) ! i) = SHARED_LOCK" for i
  proof (cases i)
    case 0
    then show ?thesis using that busy IH r(2) by auto
  next
    case (Suc k)
    then show ?thesis using that IH r(2) by simp
  qed
  then show ?case using IH m1 r(2) by simp
qed simp

lemma frames_of_trim:
  "frames_of (trim_backfilled_frames m sh) p = filter (\<lambda>f. m = 0 \<or> f > m) (frames_of sh p)"
  by (simp add: trim_backfilled_frames_def retain_frames_def frames_of_def Let_def split: option.splits)

lemma newest_filter: "newest P (filter Q frames) = newest (\<lambda>f. P f \<and> Q f) frames"
proof -
  have "find P (filter Q xs) = find (\<lambda>f. P f \<and> Q f) xs" for xs by (induction xs) auto
  then show ?thesis by (simp add: newest_def rev_filter)
qed

lemma checkpoint_view:
  assumes ok: "index_ok sh"
    and min: "wf_min_frame con \<le> sh_nbackfills sh + 1"
    and rd: "mx \<le> wf_max_frame r" "wf_max_frame r \<le> sh_max_frame sh" "wf_page_size r = wf_page_size con"
    and sh': "ck_shared be mode rnd mx (sh\<lparr>sh_read_locks := locks\<rparr>) = Inr sh'"
    and db: "io_db io' = backfill_all (wf_min_frame con) mx con sh (io_db io)"
  shows "view r sh' io' p = view r sh io p"
proof -
  let ?fr = "frames_of sh p" and ?R = "wf_max_frame r"
  note srt = index_okD(1) [OF ok, of p]
  have all: "wf_min_frame con \<le> f" "0 < f" "f \<le> sh_max_frame sh" if "f \<in> set ?fr" for f
    using index_okD(2) [OF ok that] min by linarith+
  note mx = rd(1)
  have db_p: "io_db io' p = (case newest (\<lambda>f. f \<le> mx) ?fr of None \<Rightarrow> io_db io p | Some f \<Rightarrow> Some (frame_page con sh f))"
    unfolding db backfill_all_def in_range_def using newest_cong [of ?fr "\<lambda>f. wf_min_frame con \<le> f \<and> f \<le> mx" "\<lambda>f. f \<le> mx"] all(1) by simp
  have fp: "frame_page r s f = frame_page con s f" for s f by (simp add: frame_page_def rd(3))
  show ?thesis
  proof (cases "sh_max_frame sh = mx")
    case True
    then have R: "?R = mx" using mx rd(2) by simp
    have "frames_of sh' p = []"
      using sh' True by (auto simp: ck_shared_def reset_wal_file_def frames_of_def Let_def)
    then have "view r sh' io' p = io_db io' p" by (simp add: view_def find_frame_newest newest_def)
    then show ?thesis by (simp add: db_p view_def find_frame_newest R fp split: option.splits)
  next
    case False
    then have s': "sh' = trim_backfilled_frames mx (sh\<lparr>sh_read_locks := locks, sh_nbackfills := mx\<rparr>)"
      using sh' by (simp add: ck_shared_def)
    have fr': "frames_of sh' p = filter (\<lambda>f. f > mx) ?fr"
      unfolding s' frames_of_trim using all(2) by (auto simp: frames_of_def intro!: filter_cong)
    have fl: "sh_file sh' = sh_file sh"
      by (simp add: s' trim_backfilled_frames_def retain_frames_def Let_def)
    then have fp': "frame_page con sh' f = frame_page con sh f" for f by (simp add: frame_page_def)
    show ?thesis
    proof (cases "newest (\<lambda>f. f \<le> ?R \<and> mx < f) ?fr")
      case (Some f)
      then have f: "f \<in> set ?fr" "f \<le> ?R" "mx < f" "\<forall>g\<in>set ?fr. g \<le> ?R \<and> mx < g \<longrightarrow> g \<le> f"
        by (simp_all add: newest_Some [OF srt])
      have "g \<le> f" if "g \<in> set ?fr" "g \<le> ?R" for g
        using f that by (cases "mx < g") auto
      then have "newest (\<lambda>f. f \<le> ?R) ?fr = Some f"
        using f(1,2) by (simp add: newest_Some [OF srt])
      then show ?thesis using Some by (simp add: view_def find_frame_newest fr' newest_filter fp fp')
    next
      case None
      then have "newest (\<lambda>f. f \<le> ?R) ?fr = newest (\<lambda>f. f \<le> mx) ?fr"
        using mx by (intro newest_cong) (auto simp: newest_None)
      then show ?thesis using None by (simp add: view_def find_frame_newest fr' newest_filter db_p fp split: option.splits)
    qed
  qed
qed

text \<open>A reader that takes the newest snapshot.\<close>

lemma checkpoint_newest:
  assumes "index_ok sh" "wf_min_frame con \<le> sh_nbackfills sh + 1" "mx \<le> sh_max_frame sh"
    and sh': "ck_shared be mode rnd mx (sh\<lparr>sh_read_locks := locks\<rparr>) = Inr sh'"
    and db: "io_db io' = backfill_all (wf_min_frame con) mx con sh (io_db io)"
  shows "view (set_reader_max_frame (sh_max_frame sh') con) sh' io' p = view (set_reader_max_frame (sh_max_frame sh) con) sh io p"
proof -
  let ?now = "set_reader_max_frame (sh_max_frame sh) con"
  have now: "view ?now sh' io' p = view ?now sh io p"
    using assms(3) by (intro checkpoint_view [OF assms(1,2) _ _ _ sh' db]) (simp_all add: set_reader_max_frame_def)
  have "view (set_reader_max_frame (sh_max_frame sh') con) sh' io' p = view ?now sh' io' p"
  proof (cases "sh_max_frame sh = mx")
    case True
    then have "frames_of sh' p = []"
      using sh' by (auto simp: ck_shared_def reset_wal_file_def frames_of_def Let_def)
    then show ?thesis by (simp add: view_def find_frame_newest newest_def)
  next
    case False
    then have "sh_max_frame sh' = sh_max_frame sh"
      using sh' by (auto simp: ck_shared_def trim_backfilled_frames_def retain_frames_def Let_def)
    then show ?thesis by simp
  qed
  then show ?thesis using now by simp
qed

end
