(* ===== verification/WalProps.thy ===== *)
theory WalProps
  imports WalSnap
begin

text \<open>
  The properties of the write-ahead log in memory: rollback, the checkpoint and the snapshots of
  readers, and two ways in which a checkpoint breaks them.
\<close>

section \<open>A small log\<close>

text \<open>One page with one frame; a reader that began on it.\<close>

definition demo_file :: bytes where
  "demo_file = replicate 568 0"

definition demo_shared :: wal_shared where
  "demo_shared =
     \<lparr>sh_wal_header = \<lparr>wh_magic = WAL_MAGIC_LE, wh_file_format = 3007000, wh_page_size = 512, wh_checkpoint_seq = 0,
        wh_salt_1 = 1, wh_salt_2 = 2, wh_checksum_1 = 3, wh_checksum_2 = 4\<rparr>,
      sh_min_frame = 0, sh_max_frame = 1, sh_nbackfills = 0, sh_frame_cache = [1 \<mapsto> [1]], sh_pages_in_frames = [1],
      sh_last_checksum = (5, 6), sh_file = demo_file, sh_read_locks = [rw_new, rw_new, rw_new, rw_new, rw_new],
      sh_write_lock = rw_new, sh_loaded = True\<rparr>"

definition demo_io :: wal_io where
  "demo_io = \<lparr>io_pending = [], io_db = [1 \<mapsto> [9]], io_write_counter = 0\<rparr>"

definition demo_reader :: wal_file where
  "demo_reader = fst (begin_read_tx (wal_file_new 512) demo_shared)"

definition demo_reading :: wal_shared where
  "demo_reading = fst (snd (begin_read_tx (wal_file_new 512) demo_shared))"

lemma demo_marks:
  "find_mark 1 [rw_new, rw_new, rw_new, rw_new, rw_new] 0 (0, None) = (0, None)"
  "claim_mark 1 [rw_new, rw_new, rw_new, rw_new, rw_new] 0 = (\<lparr>lk_lock = NO_LOCK, lk_nreads = 0, lk_value = 1\<rparr> # [rw_new, rw_new, rw_new, rw_new], Some 0)"
  "safe_loop 0 (\<lparr>lk_lock = SHARED_LOCK, lk_nreads = 1, lk_value = 1\<rparr> # [rw_new, rw_new, rw_new, rw_new]) 1 =
    (\<lparr>lk_lock = SHARED_LOCK, lk_nreads = 1, lk_value = 1\<rparr> # [rw_new, rw_new, rw_new, rw_new], 1)"
  "safe_loop 0 [rw_new, rw_new, rw_new, rw_new, rw_new] 1 = ([rw_new, rw_new, rw_new, rw_new, rw_new], 1)"
  by code_simp+

lemma demo_begin:
  "begin_read_tx (wal_file_new 512) demo_shared =
    ((wal_file_new 512)\<lparr>wf_min_frame := 1, wf_max_frame_read_lock_index := 0, wf_max_frame := 1\<rparr>,
     demo_shared\<lparr>sh_read_locks := \<lparr>lk_lock = SHARED_LOCK, lk_nreads = 1, lk_value = 1\<rparr> # [rw_new, rw_new, rw_new, rw_new]\<rparr>, LOk)"
proof -
  have s: "sh_max_frame demo_shared = 1" "sh_read_locks demo_shared = [rw_new, rw_new, rw_new, rw_new, rw_new]"
    "sh_nbackfills demo_shared = 0"
    by (simp_all add: demo_shared_def)
  have one: "(word_of_nat 1 :: u32) = 1" by simp
  show ?thesis
    unfolding begin_read_tx_def Let_def s demo_marks(1) one demo_marks(2) by (simp add: rw_read_def s)
qed

lemma demo_locks:
  "demo_reader = (wal_file_new 512)\<lparr>wf_min_frame := 1, wf_max_frame_read_lock_index := 0, wf_max_frame := 1\<rparr>"
  "demo_reading = demo_shared\<lparr>sh_read_locks := \<lparr>lk_lock = SHARED_LOCK, lk_nreads = 1, lk_value = 1\<rparr> # [rw_new, rw_new, rw_new, rw_new]\<rparr>"
  by (simp_all add: demo_reader_def demo_reading_def demo_begin)

lemma demo_ok:
  "index_ok demo_shared" "index_ok demo_reading" "sh_max_frame demo_reading = 1" "sh_nbackfills demo_reading = 0"
  "sh_max_frame demo_shared = 1" "io_pending demo_io = []" "io_db demo_io = [1 \<mapsto> [9]]"
  "oc_state (wf_ongoing demo_reader) = CStart" "oc_state (wf_ongoing (wal_file_new 512)) = CStart"
  "wf_min_frame (wal_file_new 512) = 0" "wf_max_frame demo_reader = 1" "wf_page_size demo_reader = 512"
  "wf_page_size (wal_file_new 512) = 512"
  by (simp_all add: demo_locks index_ok_def demo_shared_def demo_io_def wal_file_new_def)

lemma demo_reads: "reads_at_mark demo_reader demo_reading"
  by (simp add: reads_at_mark_def demo_locks wal_file_new_def demo_shared_def)

lemma demo_safe:
  "safe_loop 0 (sh_read_locks demo_reading) (sh_max_frame demo_reading) = (sh_read_locks demo_reading, sh_max_frame demo_reading)"
  "safe_loop 0 (sh_read_locks demo_shared) (sh_max_frame demo_shared) = (sh_read_locks demo_shared, sh_max_frame demo_shared)"
  using demo_marks(3,4) by (simp_all add: demo_locks demo_shared_def)

section \<open>Properties\<close>

text \<open>
  C17. Rollback: whatever frames a write transaction appended, rolling it back gives the frame
  index, the list of pages, the frame count and the running checksum that it started from.
\<close>

theorem rollback_restores:
  assumes "index_ok sh" "begin_write_tx con sh = (con', sh1, LOk)" "append_all be con' fs sh1 = Inr sh2"
  shows "sh_frame_cache (wal_rollback con' sh2) = sh_frame_cache sh \<and>
    sh_pages_in_frames (wal_rollback con' sh2) = sh_pages_in_frames sh \<and>
    current_frame_state (wal_rollback con' sh2) = current_frame_state sh"
proof -
  have s: "sh_max_frame sh1 = sh_max_frame sh" "sh_frame_cache sh1 = sh_frame_cache sh" "sh_pages_in_frames sh1 = sh_pages_in_frames sh"
    "sh_nbackfills sh1 = sh_nbackfills sh"
    "wf_txn_start_max_frame con' = sh_max_frame sh" "wf_txn_start_last_checksum con' = sh_last_checksum sh"
    using assms(2) by (auto simp: begin_write_tx_def split: prod.splits bool.splits)
  have "index_ok sh1" using assms(1) by (simp add: index_ok_def s)
  note r = retain_append_all [OF assms(3), of "sh_max_frame sh1"] retain_all [OF this]
  show ?thesis
    using r by (simp add: wal_rollback_def rollback_to_frame_def current_frame_state_def s)
qed

theorem rollback_restores_witness:
  "index_ok demo_shared \<and> (\<exists>con' sh1 sh2. begin_write_tx (wal_file_new 512) demo_shared = (con', sh1, LOk) \<and>
     append_all False con' [(1, replicate 512 0, 0), (2, replicate 512 0, 2)] sh1 = Inr sh2 \<and>
     sh_frame_cache (wal_rollback con' sh2) = [1 \<mapsto> [1]])"
proof -
  let ?fs = "[(1, replicate 512 0, 0), (2, replicate 512 0, 2)] :: frame list"
  obtain con' sh1 where b: "begin_write_tx (wal_file_new 512) demo_shared = (con', sh1, LOk)" "wf_page_size con' = 512"
    by (simp add: begin_write_tx_def demo_shared_def rw_new_def rw_write_def wal_file_new_def)
  have step: "\<exists>s'. append_frame False p c d con' s = Inr s'" if "length c = 512" for p c d s
    using b(2) that by (cases "sh_frame_cache s p")
      (simp_all add: append_frame_def frame_offset_def begin_write_wal_frame_def checksum_wal_def Let_def)
  obtain s1 where s1: "append_frame False 1 (replicate 512 0) 0 con' sh1 = Inr s1" using step [OF length_replicate] by blast
  obtain sh2 where s2: "append_frame False 2 (replicate 512 0) 2 con' s1 = Inr sh2" using step [OF length_replicate] by blast
  have a: "append_all False con' ?fs sh1 = Inr sh2" by (simp only: append_all.simps s1 s2 res_bind_simps)
  have "sh_frame_cache demo_shared = [1 \<mapsto> [1]]" by (simp add: demo_shared_def)
  then have "sh_frame_cache (wal_rollback con' sh2) = [1 \<mapsto> [1]]"
    using rollback_restores [OF demo_ok(1) b(1) a] by (simp only:)
  then show ?thesis using demo_ok(1) b(1) a by blast
qed

text \<open>
  C24. A checkpoint always completes: driven by the loop of the pager, with every request
  completed by the I/O loop, it returns after finitely many steps, never panics, leaves no
  request behind and is ready for the next one.
\<close>

theorem checkpoint_completes:
  assumes "index_ok sh" "oc_state (wf_ongoing con) = CStart" "io_pending io = []" "sh_max_frame sh < 2 ^ 32"
  shows "\<exists>con' sh' io' res. wal_checkpoint_mode be mode random (con, sh, io) = Some (Inr ((con', sh', io'), res)) \<and>
    oc_state (wf_ongoing con') = CStart \<and> io_pending io' = [] \<and>
    cr_num_wal_frames res = sh_max_frame sh \<and> cr_num_checkpointed_frames res \<le> sh_max_frame sh"
proof -
  obtain locks mx where safe: "safe_loop 0 (sh_read_locks sh) (sh_max_frame sh) = (locks, mx)" by fastforce
  obtain oc res io' sh' where c:
    "wal_checkpoint_mode be mode random (con, sh, io) = Some (Inr ((con\<lparr>wf_ongoing := oc\<rparr>, sh', io'), res))"
    "oc_state oc = CStart" "io_pending io' = []"
    "io_db io' = backfill_all (wf_min_frame con) mx con sh (io_db io)"
    "ck_shared be mode random mx (sh\<lparr>sh_read_locks := locks\<rparr>) = Inr sh'"
    "cr_num_wal_frames res = sh_max_frame sh" "cr_num_checkpointed_frames res = mx"
    by (rule checkpoint_result [OF assms(1-3) safe])
  then show ?thesis using safe_loop_bound [OF safe assms(4)] by auto
qed

theorem checkpoint_completes_witness:
  "index_ok demo_reading \<and>
   (\<exists>con' sh' io' res. wal_checkpoint_mode False Passive 7 (wal_file_new 512, demo_reading, demo_io) = Some (Inr ((con', sh', io'), res)) \<and>
     oc_state (wf_ongoing con') = CStart \<and> io_pending io' = [] \<and> cr_num_wal_frames res = 1)"
  using checkpoint_completes [OF demo_ok(2,9,6), of False Passive 7] demo_ok by auto



text \<open>
  C33. A reader on the newest snapshot is not protected from a complete checkpoint: the checkpoint
  restarts the frame numbers at 1 while the reader still holds its lock, and the next frame any
  writer appends lies inside the snapshot of that reader, so that the reader sees a page written
  after it began.
\<close>

theorem reader_sees_later_write:
  assumes "index_ok sh" "oc_state (wf_ongoing con) = CStart" "io_pending io = []"
    "reads_at_mark r sh" "wf_max_frame r = sh_max_frame sh" "0 < sh_max_frame sh"
    "safe_loop 0 (sh_read_locks sh) (sh_max_frame sh) = (sh_read_locks sh, sh_max_frame sh)"
  shows "\<exists>con' sh' io' res. wal_checkpoint_mode be mode random (con, sh, io) = Some (Inr ((con', sh', io'), res)) \<and>
    reads_at_mark r sh' \<and>
    (\<forall>p b d w sh''. append_frame be p b d w sh' = Inr sh'' \<longrightarrow> find_frame r sh'' p = Some 1)"
proof -
  obtain oc res io' sh' where c:
    "wal_checkpoint_mode be mode random (con, sh, io) = Some (Inr ((con\<lparr>wf_ongoing := oc\<rparr>, sh', io'), res))"
    "oc_state oc = CStart" "io_pending io' = []"
    "io_db io' = backfill_all (wf_min_frame con) (sh_max_frame sh) con sh (io_db io)"
    "ck_shared be mode random (sh_max_frame sh) (sh\<lparr>sh_read_locks := sh_read_locks sh\<rparr>) = Inr sh'"
    "cr_num_wal_frames res = sh_max_frame sh" "cr_num_checkpointed_frames res = sh_max_frame sh"
    by (rule checkpoint_result [OF assms(1-3,7)])
  then have s: "sh_max_frame sh' = 0" "sh_frame_cache sh' = Map.empty" "sh_read_locks sh' = sh_read_locks sh"
    by (auto simp: ck_shared_def reset_wal_file_def Let_def)
  have "find_frame r sh'' p = Some 1" if "append_frame be p b d w sh' = Inr sh''" for p b d w sh''
    using append_frame_index(2) [OF that] s assms(5,6) by (simp add: find_frame_def cache_push_def)
  then show ?thesis using c(1) assms(4) s(3) by (auto simp: reads_at_mark_def Let_def)
qed

theorem reader_sees_later_write_witness:
  "reads_at_mark demo_reader demo_reading \<and>
   (\<exists>con' sh' io' res. wal_checkpoint_mode False Passive 7 (wal_file_new 512, demo_reading, demo_io) = Some (Inr ((con', sh', io'), res)) \<and>
     reads_at_mark demo_reader sh' \<and>
     (\<forall>p b d w sh''. append_frame False p b d w sh' = Inr sh'' \<longrightarrow> find_frame demo_reader sh'' p = Some 1))"
  using reader_sees_later_write [OF demo_ok(2,9,6) demo_reads _ _ demo_safe(1), of False Passive 7] demo_reads
  by (simp add: demo_ok)

text \<open>
  C34. A connection whose lower frame bound is left from an earlier generation of the log loses
  data when it checkpoints: no frame is copied to the database, and all are dropped.
\<close>

theorem stale_checkpoint_drops_frames:
  assumes "index_ok sh" "oc_state (wf_ongoing con) = CStart" "io_pending io = []"
    "safe_loop 0 (sh_read_locks sh) (sh_max_frame sh) = (sh_read_locks sh, sh_max_frame sh)"
    "sh_max_frame sh < wf_min_frame con"
  shows "\<exists>con' sh' io' res. wal_checkpoint_mode be mode random (con, sh, io) = Some (Inr ((con', sh', io'), res)) \<and>
    io_db io' = io_db io \<and> sh_frame_cache sh' = Map.empty \<and> sh_max_frame sh' = 0"
proof -
  obtain oc res io' sh' where c:
    "wal_checkpoint_mode be mode random (con, sh, io) = Some (Inr ((con\<lparr>wf_ongoing := oc\<rparr>, sh', io'), res))"
    "oc_state oc = CStart" "io_pending io' = []"
    "io_db io' = backfill_all (wf_min_frame con) (sh_max_frame sh) con sh (io_db io)"
    "ck_shared be mode random (sh_max_frame sh) (sh\<lparr>sh_read_locks := sh_read_locks sh\<rparr>) = Inr sh'"
    "cr_num_wal_frames res = sh_max_frame sh" "cr_num_checkpointed_frames res = sh_max_frame sh"
    by (rule checkpoint_result [OF assms(1-4)])
  have "in_range (wf_min_frame con) (sh_max_frame sh) sh p = None" for p
    using assms(5) by (auto simp: in_range_def newest_None)
  then have "io_db io' = io_db io" by (simp add: c(4) backfill_all_def)
  moreover have "sh_max_frame sh' = 0" "sh_frame_cache sh' = Map.empty"
    using c(5) by (auto simp: ck_shared_def reset_wal_file_def Let_def)
  ultimately show ?thesis using c(1) by blast
qed

theorem stale_checkpoint_drops_frames_witness:
  "sh_frame_cache demo_shared 1 = Some [1] \<and>
   (\<exists>con' sh' io' res. wal_checkpoint_mode False Passive 7 ((wal_file_new 512)\<lparr>wf_min_frame := 4\<rparr>, demo_shared, demo_io) =
       Some (Inr ((con', sh', io'), res)) \<and>
     io_db io' = [1 \<mapsto> [9]] \<and> sh_frame_cache sh' = Map.empty)"
proof -
  have "oc_state (wf_ongoing ((wal_file_new 512)\<lparr>wf_min_frame := 4\<rparr>)) = CStart"
    "sh_max_frame demo_shared < wf_min_frame ((wal_file_new 512)\<lparr>wf_min_frame := 4\<rparr>)" "sh_frame_cache demo_shared 1 = Some [1]"
    by (simp_all add: wal_file_new_def demo_ok demo_shared_def)
  then show ?thesis
    using stale_checkpoint_drops_frames [OF demo_ok(1) _ demo_ok(6) demo_safe(2), of "(wal_file_new 512)\<lparr>wf_min_frame := 4\<rparr>" False Passive 7]
    by (metis demo_ok(7))
qed

end
