(* ===== verification/PageCell.thy ===== *)
theory PageCell
  imports RecordFormat
begin

text \<open>
  B-tree pages and their cells: the page accessors, the cell readers and the overflow thresholds
  (\<open>storage/sqlite3_ondisk/mod.rs\<close>), the cell writer \<open>fill_cell_payload\<close> (\<open>storage/btree/page_ops.rs\<close>)
  and the state machine that reads a payload back from its overflow pages
  (\<open>storage/btree/cursor_core.rs\<close>). A page is a byte buffer; a cell that does not fit on its page
  ends in the number of the first page of a chain, and each page of the chain starts with the number
  of the next one. Checked arithmetic on \<open>usize\<close> that leaves the range is a panic.
\<close>

section \<open>Page types and page contents\<close>

datatype page_type = IndexInterior | TableInterior | IndexLeaf | TableLeaf

definition is_table :: "page_type \<Rightarrow> bool" where
  "is_table t = (case t of IndexInterior \<Rightarrow> False | IndexLeaf \<Rightarrow> False | TableInterior \<Rightarrow> True | TableLeaf \<Rightarrow> True)"

definition page_type_try_from :: "u8 \<Rightarrow> page_type res" where
  "page_type_try_from v =
     (if v = 2 then Inr IndexInterior
      else if v = 5 then Inr TableInterior
      else if v = 10 then Inr IndexLeaf
      else if v = 13 then Inr TableLeaf
      else Inl (Corrupt ''Invalid page type: ''))"

record overflow_cell =
  oc_index :: nat
  oc_payload :: bytes

record page_content =
  pgc_offset :: nat
  pgc_buffer :: bytes
  pgc_overflow_cells :: "overflow_cell list"

definition page_content_new :: "nat \<Rightarrow> bytes \<Rightarrow> page_content" where
  "page_content_new off buf = \<lparr>pgc_offset = off, pgc_buffer = buf, pgc_overflow_cells = []\<rparr>"

definition pc_read_u8 :: "page_content \<Rightarrow> nat \<Rightarrow> u8 res" where
  "pc_read_u8 pg pos = slice_idx (pgc_buffer pg) (pgc_offset pg + pos)"

definition pc_read_u16_no_offset :: "page_content \<Rightarrow> nat \<Rightarrow> u16 res" where
  "pc_read_u16_no_offset pg pos =
     res_bind (slice_idx (pgc_buffer pg) pos) (\<lambda>a.
     res_bind (slice_idx (pgc_buffer pg) (pos + 1)) (\<lambda>b. Inr (from_be [a, b])))"

definition pc_read_u16 :: "page_content \<Rightarrow> nat \<Rightarrow> u16 res" where
  "pc_read_u16 pg pos =
     res_bind (slice_idx (pgc_buffer pg) (pgc_offset pg + pos)) (\<lambda>a.
     res_bind (slice_idx (pgc_buffer pg) (pgc_offset pg + pos + 1)) (\<lambda>b. Inr (from_be [a, b])))"

definition slice_u32 :: "bytes \<Rightarrow> nat \<Rightarrow> u32 res" where
  "slice_u32 buf pos =
     res_bind (slice_idx buf pos) (\<lambda>a.
     res_bind (slice_idx buf (pos + 1)) (\<lambda>b.
     res_bind (slice_idx buf (pos + 2)) (\<lambda>c.
     res_bind (slice_idx buf (pos + 3)) (\<lambda>d. Inr (from_be [a, b, c, d])))))"

definition pc_read_u32_no_offset :: "page_content \<Rightarrow> nat \<Rightarrow> u32 res" where
  "pc_read_u32_no_offset pg pos = slice_u32 (pgc_buffer pg) pos"

definition pc_read_u32 :: "page_content \<Rightarrow> nat \<Rightarrow> u32 res" where
  "pc_read_u32 pg pos = slice_u32 (pgc_buffer pg) (pgc_offset pg + pos)"

text \<open>\<open>buf[i..i + s.len()].copy_from_slice(s)\<close>.\<close>

definition slice_write :: "'a list \<Rightarrow> nat \<Rightarrow> 'a list \<Rightarrow> 'a list res" where
  "slice_write xs i ys =
     (if i + length ys \<le> length xs then Inr (take i xs @ ys @ drop (i + length ys) xs) else Inl Panic)"

definition pc_write :: "page_content \<Rightarrow> nat \<Rightarrow> bytes \<Rightarrow> page_content res" where
  "pc_write pg pos bs = res_bind (slice_write (pgc_buffer pg) pos bs) (\<lambda>b. Inr (pg\<lparr>pgc_buffer := b\<rparr>))"

definition pc_write_u8 :: "page_content \<Rightarrow> nat \<Rightarrow> u8 \<Rightarrow> page_content res" where
  "pc_write_u8 pg pos v = res_bind (slice_set (pgc_buffer pg) (pgc_offset pg + pos) v) (\<lambda>b. Inr (pg\<lparr>pgc_buffer := b\<rparr>))"

definition pc_write_u16 :: "page_content \<Rightarrow> nat \<Rightarrow> u16 \<Rightarrow> page_content res" where
  "pc_write_u16 pg pos v = pc_write pg (pgc_offset pg + pos) (to_be 2 v)"

definition pc_write_u16_no_offset :: "page_content \<Rightarrow> nat \<Rightarrow> u16 \<Rightarrow> page_content res" where
  "pc_write_u16_no_offset pg pos v = pc_write pg pos (to_be 2 v)"

definition pc_write_u32 :: "page_content \<Rightarrow> nat \<Rightarrow> u32 \<Rightarrow> page_content res" where
  "pc_write_u32 pg pos v = pc_write pg (pgc_offset pg + pos) (to_be 4 v)"

definition pc_write_u32_no_offset :: "page_content \<Rightarrow> nat \<Rightarrow> u32 \<Rightarrow> page_content res" where
  "pc_write_u32_no_offset pg pos v = pc_write pg pos (to_be 4 v)"

section \<open>The b-tree page header\<close>

text \<open>\<open>page_type\<close> unwraps, so that a byte that is no page type is a panic there.\<close>

definition pc_page_type :: "page_content \<Rightarrow> page_type res" where
  "pc_page_type pg = res_bind (pc_read_u8 pg 0) (\<lambda>b.
     case page_type_try_from b of Inl _ \<Rightarrow> Inl Panic | Inr t \<Rightarrow> Inr t)"

definition maybe_page_type :: "page_content \<Rightarrow> page_type option res" where
  "maybe_page_type pg = res_bind (pc_read_u8 pg 0) (\<lambda>b.
     Inr (case page_type_try_from b of Inl _ \<Rightarrow> None | Inr t \<Rightarrow> Some t))"

definition validate_btree_page_type :: "page_content \<Rightarrow> page_type res" where
  "validate_btree_page_type pg = res_bind (pc_read_u8 pg 0) page_type_try_from"

definition first_freeblock :: "page_content \<Rightarrow> u16 res" where
  "first_freeblock pg = pc_read_u16 pg 1"

definition cell_count :: "page_content \<Rightarrow> nat res" where
  "cell_count pg = res_bind (pc_read_u16 pg 3) (\<lambda>n. Inr (unat n))"

definition cell_pointer_array_size :: "page_content \<Rightarrow> nat res" where
  "cell_pointer_array_size pg = res_bind (cell_count pg) (\<lambda>n. Inr (n * 2))"

definition cell_content_area :: "page_content \<Rightarrow> u16 res" where
  "cell_content_area pg = pc_read_u16 pg 5"

definition num_frag_free_bytes :: "page_content \<Rightarrow> u8 res" where
  "num_frag_free_bytes pg = pc_read_u8 pg 7"

definition header_size_of :: "page_content \<Rightarrow> nat res" where
  "header_size_of pg = res_bind (pc_page_type pg) (\<lambda>t.
     Inr (case t of IndexInterior \<Rightarrow> 12 | TableInterior \<Rightarrow> 12 | IndexLeaf \<Rightarrow> 8 | TableLeaf \<Rightarrow> 8))"

definition cell_pointer_array_offset_and_size :: "page_content \<Rightarrow> (nat \<times> nat) res" where
  "cell_pointer_array_offset_and_size pg =
     res_bind (header_size_of pg) (\<lambda>h.
     res_bind (cell_pointer_array_size pg) (\<lambda>n. Inr (pgc_offset pg + h, n)))"

definition unallocated_region_start :: "page_content \<Rightarrow> nat res" where
  "unallocated_region_start pg = res_bind (cell_pointer_array_offset_and_size pg) (\<lambda>(a, n). Inr (a + n))"

definition usub :: "nat \<Rightarrow> nat \<Rightarrow> nat res" where
  "usub a b = (if b \<le> a then Inr (a - b) else Inl Panic)"

definition unallocated_region_size :: "page_content \<Rightarrow> nat res" where
  "unallocated_region_size pg =
     res_bind (cell_content_area pg) (\<lambda>c.
     res_bind (unallocated_region_start pg) (\<lambda>s. usub (unat c) s))"

definition rightmost_pointer :: "page_content \<Rightarrow> u32 option res" where
  "rightmost_pointer pg = res_bind (pc_page_type pg) (\<lambda>t.
     case t of
       IndexInterior \<Rightarrow> res_bind (pc_read_u32 pg 8) (\<lambda>p. Inr (Some p))
     | TableInterior \<Rightarrow> res_bind (pc_read_u32 pg 8) (\<lambda>p. Inr (Some p))
     | IndexLeaf \<Rightarrow> Inr None
     | TableLeaf \<Rightarrow> Inr None)"

definition pc_is_leaf :: "page_content \<Rightarrow> bool res" where
  "pc_is_leaf pg = res_bind (pc_page_type pg) (\<lambda>t.
     Inr (case t of IndexInterior \<Rightarrow> False | TableInterior \<Rightarrow> False | IndexLeaf \<Rightarrow> True | TableLeaf \<Rightarrow> True))"

section \<open>Overflow thresholds\<close>

definition payload_overflow_threshold_max :: "page_type \<Rightarrow> u16 \<Rightarrow> nat res" where
  "payload_overflow_threshold_max t usable_space =
     (case t of
        IndexInterior \<Rightarrow> res_bind (usub (unat usable_space) 12) (\<lambda>n. usub (n * 64 div 255) 23)
      | IndexLeaf \<Rightarrow> res_bind (usub (unat usable_space) 12) (\<lambda>n. usub (n * 64 div 255) 23)
      | TableInterior \<Rightarrow> usub (unat usable_space) 35
      | TableLeaf \<Rightarrow> usub (unat usable_space) 35)"

definition payload_overflow_threshold_min :: "page_type \<Rightarrow> u16 \<Rightarrow> nat res" where
  "payload_overflow_threshold_min t usable_space =
     res_bind (usub (unat usable_space) 12) (\<lambda>n. usub (n * 32 div 255) 23)"

text \<open>The remainder panics for a usable size of 4.\<close>

definition urem :: "nat \<Rightarrow> nat \<Rightarrow> nat res" where
  "urem a b = (if b = 0 then Inl Panic else Inr (a mod b))"

definition payload_overflows :: "nat \<Rightarrow> nat \<Rightarrow> nat \<Rightarrow> nat \<Rightarrow> (bool \<times> nat) res" where
  "payload_overflows payload_size threshold_max threshold_min usable_size =
     (if payload_size \<le> threshold_max then Inr (False, 0)
      else
        res_bind (usub payload_size threshold_min) (\<lambda>d.
        res_bind (usub usable_size 4) (\<lambda>u.
        res_bind (urem d u) (\<lambda>r.
        let space_left = threshold_min + r;
            space_left = (if space_left > threshold_max then threshold_min else space_left)
        in Inr (True, space_left + 4)))))"

section \<open>Reading cells\<close>

record table_interior_cell =
  ti_left_child_page :: u32
  ti_rowid :: i64

record table_leaf_cell =
  tl_rowid :: i64
  tl_payload :: bytes
  tl_payload_size :: u64
  tl_first_overflow_page :: "u32 option"

record index_interior_cell =
  ii_left_child_page :: u32
  ii_payload :: bytes
  ii_payload_size :: u64
  ii_first_overflow_page :: "u32 option"

record index_leaf_cell =
  il_payload :: bytes
  il_first_overflow_page :: "u32 option"
  il_payload_size :: u64

datatype btree_cell =
    TableInteriorCell table_interior_cell
  | TableLeafCell table_leaf_cell
  | IndexInteriorCell index_interior_cell
  | IndexLeafCell index_leaf_cell

definition read_payload :: "bytes \<Rightarrow> nat \<Rightarrow> (bytes \<times> u32 option) res" where
  "read_payload unread payload_size =
     (if payload_size \<le> length unread
      then res_bind (slice_range unread 0 payload_size) (\<lambda>p. Inr (p, None))
      else if length unread < 4 then Inl (Corrupt ''Cell payload too small for overflow page pointer'')
      else
        let start = length unread - 4 in
        res_bind (slice_u32 unread start) (\<lambda>first.
        res_bind (slice_range unread 0 start) (\<lambda>p. Inr (p, Some first))))"

text \<open>The part the three kinds of cells with a payload share, from the position after the varints.\<close>

definition read_local_payload ::
  "bytes \<Rightarrow> nat \<Rightarrow> u64 \<Rightarrow> nat \<Rightarrow> nat \<Rightarrow> nat \<Rightarrow> (bytes \<times> u32 option) res" where
  "read_local_payload page pos payload_size max_local min_local usable_size =
     res_bind (payload_overflows (unat payload_size) max_local min_local usable_size) (\<lambda>(overflows, to_read).
     res_bind (if overflows then Inr to_read else usub (length page) pos) (\<lambda>to_read.
     if pos + to_read > length page then Inl (Corrupt ''cell payload extends beyond page'')
     else res_bind (slice_range page pos (pos + to_read)) (\<lambda>unread. read_payload unread (unat payload_size))))"

definition read_btree_cell ::
  "bytes \<Rightarrow> page_type \<Rightarrow> nat \<Rightarrow> nat \<Rightarrow> nat \<Rightarrow> nat \<Rightarrow> btree_cell res" where
  "read_btree_cell page t pos max_local min_local usable_size =
     (case t of
        IndexInterior \<Rightarrow>
          if pos + 4 > length page then Inl (Corrupt ''Cell pointer out of range'')
          else res_bind (slice_u32 page pos) (\<lambda>left_child_page.
               let pos = pos + 4 in
               res_bind (slice_from page pos) (\<lambda>s.
               res_bind (read_varint s) (\<lambda>(payload_size, nr).
               let pos = pos + nr in
               res_bind (read_local_payload page pos payload_size max_local min_local usable_size) (\<lambda>(payload, first).
               Inr (IndexInteriorCell \<lparr>ii_left_child_page = left_child_page, ii_payload = payload,
                      ii_payload_size = payload_size, ii_first_overflow_page = first\<rparr>)))))
      | TableInterior \<Rightarrow>
          if pos + 4 > length page then Inl (Corrupt ''Cell pointer out of range'')
          else res_bind (slice_u32 page pos) (\<lambda>left_child_page.
               res_bind (slice_from page (pos + 4)) (\<lambda>s.
               res_bind (read_varint s) (\<lambda>(rowid, _).
               Inr (TableInteriorCell \<lparr>ti_left_child_page = left_child_page, ti_rowid = rowid\<rparr>))))
      | IndexLeaf \<Rightarrow>
          if pos > length page then Inl (Corrupt ''Cell pointer out of range'')
          else res_bind (slice_from page pos) (\<lambda>s.
               res_bind (read_varint s) (\<lambda>(payload_size, nr).
               let pos = pos + nr in
               res_bind (read_local_payload page pos payload_size max_local min_local usable_size) (\<lambda>(payload, first).
               Inr (IndexLeafCell \<lparr>il_payload = payload, il_first_overflow_page = first,
                      il_payload_size = payload_size\<rparr>))))
      | TableLeaf \<Rightarrow>
          if pos > length page then Inl (Corrupt ''Cell pointer out of range'')
          else res_bind (slice_from page pos) (\<lambda>s.
               res_bind (read_varint s) (\<lambda>(payload_size, nr).
               let pos = pos + nr in
               res_bind (slice_from page pos) (\<lambda>s.
               res_bind (read_varint s) (\<lambda>(rowid, nr).
               let pos = pos + nr in
               res_bind (read_local_payload page pos payload_size max_local min_local usable_size) (\<lambda>(payload, first).
               Inr (TableLeafCell \<lparr>tl_rowid = rowid, tl_payload = payload,
                      tl_payload_size = payload_size, tl_first_overflow_page = first\<rparr>)))))))"

definition cell_get :: "page_content \<Rightarrow> nat \<Rightarrow> nat \<Rightarrow> nat \<Rightarrow> nat \<Rightarrow> btree_cell res" where
  "cell_get pg idx threshold_max threshold_min usable_size =
     res_bind (validate_btree_page_type pg) (\<lambda>t.
     res_bind (cell_count pg) (\<lambda>ncells.
     res_bind (header_size_of pg) (\<lambda>cell_pointer_array_start.
     if idx \<ge> ncells then Inl (Corrupt ''cell_get: idx out of bounds: idx='')
     else
       let cell_pointer = cell_pointer_array_start + idx * 2 in
       if pgc_offset pg + cell_pointer + 2 > length (pgc_buffer pg)
       then Inl (Corrupt ''Cell pointer array slot out of range'')
       else res_bind (pc_read_u16 pg cell_pointer) (\<lambda>cell_pointer.
            read_btree_cell (pgc_buffer pg) t (unat cell_pointer) threshold_max threshold_min usable_size))))"

text \<open>The fast paths for row ids; the page type is asserted, the cell pointer slot is not bounds-checked.\<close>

definition assert_page_type :: "page_content \<Rightarrow> page_type \<Rightarrow> unit res" where
  "assert_page_type pg t = res_bind (pc_page_type pg) (\<lambda>t'. if t' = t then Inr () else Inl Panic)"

definition cell_table_interior_read_rowid :: "page_content \<Rightarrow> nat \<Rightarrow> i64 res" where
  "cell_table_interior_read_rowid pg idx =
     res_bind (assert_page_type pg TableInterior) (\<lambda>_.
     res_bind (pc_read_u16 pg (12 + idx * 2)) (\<lambda>cell_pointer.
     if unat cell_pointer + 4 > length (pgc_buffer pg) then Inl (Corrupt ''Cell pointer out of range'')
     else res_bind (slice_from (pgc_buffer pg) (unat cell_pointer + 4)) (\<lambda>s.
          res_bind (read_varint s) (\<lambda>(rowid, _). Inr rowid))))"

definition cell_table_interior_read_left_child_page :: "page_content \<Rightarrow> nat \<Rightarrow> u32 res" where
  "cell_table_interior_read_left_child_page pg idx =
     res_bind (assert_page_type pg TableInterior) (\<lambda>_.
     res_bind (pc_read_u16 pg (12 + idx * 2)) (\<lambda>cell_pointer.
     if unat cell_pointer + 4 > length (pgc_buffer pg) then Inl (Corrupt ''Cell pointer out of range'')
     else slice_u32 (pgc_buffer pg) (unat cell_pointer)))"

definition cell_table_leaf_read_rowid :: "page_content \<Rightarrow> nat \<Rightarrow> i64 res" where
  "cell_table_leaf_read_rowid pg idx =
     res_bind (assert_page_type pg TableLeaf) (\<lambda>_.
     res_bind (pc_read_u16 pg (8 + idx * 2)) (\<lambda>cell_pointer.
     if unat cell_pointer > length (pgc_buffer pg) then Inl (Corrupt ''Cell pointer out of range'')
     else res_bind (slice_from (pgc_buffer pg) (unat cell_pointer)) (\<lambda>s.
          res_bind (read_varint s) (\<lambda>(_, nr).
          res_bind (slice_from (pgc_buffer pg) (unat cell_pointer + nr)) (\<lambda>s.
          res_bind (read_varint s) (\<lambda>(rowid, _). Inr rowid))))))"

definition MINIMUM_CELL_SIZE :: nat where
  "MINIMUM_CELL_SIZE = 4"

definition region_len :: "u64 \<Rightarrow> nat \<Rightarrow> nat \<Rightarrow> nat \<Rightarrow> nat \<Rightarrow> nat res" where
  "region_len len_payload n threshold_max threshold_min usable_size =
     res_bind (payload_overflows (unat len_payload) threshold_max threshold_min usable_size) (\<lambda>(overflows, to_read).
     Inr (if overflows then to_read + n else unat len_payload + n))"

definition raw_cell_len :: "bytes \<Rightarrow> page_type \<Rightarrow> nat \<Rightarrow> nat \<Rightarrow> nat \<Rightarrow> nat \<Rightarrow> nat res" where
  "raw_cell_len buf t start threshold_max threshold_min usable_size =
     (case t of
        IndexInterior \<Rightarrow>
          res_bind (slice_from buf (start + 4)) (\<lambda>s.
          res_bind (read_varint s) (\<lambda>(len_payload, n).
          region_len len_payload (4 + n) threshold_max threshold_min usable_size))
      | TableInterior \<Rightarrow>
          res_bind (slice_from buf (start + 4)) (\<lambda>s.
          res_bind (read_varint s) (\<lambda>(_, n_rowid). Inr (4 + n_rowid)))
      | IndexLeaf \<Rightarrow>
          res_bind (slice_from buf start) (\<lambda>s.
          res_bind (read_varint s) (\<lambda>(len_payload, n).
          region_len len_payload n threshold_max threshold_min usable_size))
      | TableLeaf \<Rightarrow>
          res_bind (slice_from buf start) (\<lambda>s.
          res_bind (read_varint s) (\<lambda>(len_payload, n_payload).
          res_bind (slice_from buf (start + n_payload)) (\<lambda>s.
          res_bind (read_varint s) (\<lambda>(_, n_rowid).
          region_len len_payload (n_payload + n_rowid) threshold_max threshold_min usable_size)))))"

definition cell_get_raw_region :: "page_content \<Rightarrow> nat \<Rightarrow> nat \<Rightarrow> nat \<Rightarrow> nat \<Rightarrow> (nat \<times> nat) res" where
  "cell_get_raw_region pg idx threshold_max threshold_min usable_size =
     res_bind (validate_btree_page_type pg) (\<lambda>t.
     res_bind (cell_count pg) (\<lambda>ncells.
     res_bind (cell_pointer_array_offset_and_size pg) (\<lambda>(cell_pointer_array_start, _).
     if idx \<ge> ncells then Inl (Corrupt ''cell_get: idx out of bounds: idx='')
     else
       let cell_pointer = cell_pointer_array_start + idx * 2 in
       if cell_pointer + 2 > length (pgc_buffer pg) then Inl (Corrupt ''Cell pointer array slot out of range'')
       else res_bind (pc_read_u16_no_offset pg cell_pointer) (\<lambda>cp.
         let start = unat cp in
         if start + 4 > length (pgc_buffer pg) then Inl (Corrupt ''Cell pointer out of range'')
         else res_bind (raw_cell_len (pgc_buffer pg) t start threshold_max threshold_min usable_size)
           (\<lambda>len. Inr (start, max len MINIMUM_CELL_SIZE))))))"

section \<open>Writing a cell\<close>

text \<open>
  The cell under construction, the contents of the pages by number, and the state of the pager. The
  raw pointers of the loop are a destination: the offsets in the cell vector of the data and of the
  next-page number, or an overflow page. A write outside the buffer is a panic here.
\<close>

record 'p fill =
  fl_cell :: bytes
  fl_pages :: "nat \<Rightarrow> bytes option"
  fl_pager :: 'p

datatype dest = InCell nat nat | InPage nat

definition write_page :: "nat \<Rightarrow> nat \<Rightarrow> bytes \<Rightarrow> 'p fill \<Rightarrow> 'p fill res" where
  "write_page n pos bs s = (case fl_pages s n of
     None \<Rightarrow> Inl Panic
   | Some b \<Rightarrow> res_bind (slice_write b pos bs) (\<lambda>b. Inr (s\<lparr>fl_pages := (fl_pages s)(n := Some b)\<rparr>)))"

fun write_data :: "dest \<Rightarrow> bytes \<Rightarrow> 'p fill \<Rightarrow> 'p fill res" where
  "write_data (InCell pos _) bs s = res_bind (slice_write (fl_cell s) pos bs) (\<lambda>c. Inr (s\<lparr>fl_cell := c\<rparr>))"
| "write_data (InPage n) bs s = write_page n 4 bs s"

fun write_next :: "dest \<Rightarrow> bytes \<Rightarrow> 'p fill \<Rightarrow> 'p fill res" where
  "write_next (InCell _ pos) bs s = res_bind (slice_write (fl_cell s) pos bs) (\<lambda>c. Inr (s\<lparr>fl_cell := c\<rparr>))"
| "write_next (InPage n) bs s = write_page n 0 bs s"

text \<open>\<open>alloc\<close> is \<open>Pager::allocate_page\<close>; the page it hands out is filled with zeros.\<close>

definition allocate_overflow_page ::
  "('p \<Rightarrow> nat res \<times> 'p) \<Rightarrow> nat \<Rightarrow> 'p fill \<Rightarrow> nat res \<times> 'p fill" where
  "allocate_overflow_page alloc page_size s = (case alloc (fl_pager s) of
     (Inl e, st) \<Rightarrow> (Inl e, s\<lparr>fl_pager := st\<rparr>)
   | (Inr n, st) \<Rightarrow> (Inr n, s\<lparr>fl_pager := st, fl_pages := (fl_pages s)(n := Some (replicate page_size 0))\<rparr>))"

partial_function (option) fill_loop ::
  "('p \<Rightarrow> nat res \<times> 'p) \<Rightarrow> nat \<Rightarrow> nat \<Rightarrow> dest \<Rightarrow> nat \<Rightarrow> bytes \<Rightarrow> 'p fill \<Rightarrow> (unit res \<times> 'p fill) option" where
  "fill_loop alloc page_size usable_space d space_left buf s =
     (let to_copy = min space_left (length buf) in
      case write_data d (take to_copy buf) s of
        Inl e \<Rightarrow> Some (Inl e, s)
      | Inr s \<Rightarrow>
          if length buf - to_copy = 0 then Some (Inr (), s)
          else (case allocate_overflow_page alloc page_size s of
              (Inl e, s) \<Rightarrow> Some (Inl e, s)
            | (Inr n, s) \<Rightarrow> (case write_next d (to_be 4 (word_of_nat n :: u32)) s of
                Inl e \<Rightarrow> Some (Inl e, s)
              | Inr s \<Rightarrow>
                  fill_loop alloc page_size usable_space (InPage n) (usable_space - 4) (drop to_copy buf) s)))"

definition cell_prefix :: "page_type \<Rightarrow> i64 option \<Rightarrow> bytes \<Rightarrow> bytes \<Rightarrow> bytes res" where
  "cell_prefix t int_key cell_payload record_buf =
     (case t of
        TableLeaf \<Rightarrow>
          (case int_key of
             None \<Rightarrow> Inl Panic
           | Some key \<Rightarrow> res_bind (write_varint_to_vec (word_of_nat (length record_buf)) cell_payload) (write_varint_to_vec key))
      | IndexLeaf \<Rightarrow> write_varint_to_vec (word_of_nat (length record_buf)) cell_payload
      | _ \<Rightarrow> Inl Panic)"

definition vec_resize :: "nat \<Rightarrow> 'a \<Rightarrow> 'a list \<Rightarrow> 'a list" where
  "vec_resize n x xs = take n xs @ replicate (n - length xs) x"

text \<open>The bytes of the payload the cell keeps when it spills.\<close>

definition spill_size :: "page_type \<Rightarrow> u16 \<Rightarrow> nat \<Rightarrow> nat \<Rightarrow> nat res" where
  "spill_size t usable_space threshold_max len =
     res_bind (payload_overflow_threshold_min t usable_space) (\<lambda>threshold_min.
     res_bind (usub len threshold_min) (\<lambda>d.
     res_bind (usub (unat usable_space) 4) (\<lambda>u.
     res_bind (urem d u) (\<lambda>r.
     Inr (if threshold_min + r > threshold_max then threshold_min else threshold_min + r)))))"

definition fill_cell_payload ::
  "('p \<Rightarrow> nat res \<times> 'p) \<Rightarrow> nat \<Rightarrow> page_type \<Rightarrow> i64 option \<Rightarrow> immutable_record \<Rightarrow> u16 \<Rightarrow> 'p fill \<Rightarrow>
   (unit res \<times> 'p fill) option" where
  "fill_cell_payload alloc page_size t int_key rec usable_space s =
     (let record_buf = ir_payload rec in
      case cell_prefix t int_key (fl_cell s) record_buf of
        Inl e \<Rightarrow> Some (Inl e, s)
      | Inr prefix \<Rightarrow>
          (case payload_overflow_threshold_max t usable_space of
             Inl e \<Rightarrow> Some (Inl e, s\<lparr>fl_cell := prefix\<rparr>)
           | Inr threshold_max \<Rightarrow>
               if length record_buf \<le> threshold_max then
                 let cell = prefix @ record_buf;
                     cell = (if length cell < MINIMUM_CELL_SIZE then vec_resize MINIMUM_CELL_SIZE 0 cell else cell)
                 in Some (Inr (), s\<lparr>fl_cell := cell\<rparr>)
               else
                 (case spill_size t usable_space threshold_max (length record_buf) of
                    Inl e \<Rightarrow> Some (Inl e, s\<lparr>fl_cell := prefix\<rparr>)
                  | Inr space_left \<Rightarrow>
                      let cell_size = space_left + length prefix + 4;
                          prev_size = length prefix;
                          cell = vec_resize (prev_size + space_left + 4) 0 prefix
                      in map_option (\<lambda>(r, s).
                           (res_bind r (\<lambda>_. if cell_size = length (fl_cell s) then Inr () else Inl Panic), s))
                           (fill_loop alloc page_size (unat usable_space) (InCell prev_size (prev_size + space_left))
                              space_left record_buf (s\<lparr>fl_cell := cell\<rparr>)))))"

section \<open>Reading a payload back from its overflow pages\<close>

datatype 'a cursor_result = CursorOk 'a | CursorIO

record read_payload_overflow =
  ro_payload :: bytes
  ro_next_page :: u32
  ro_remaining_to_read :: nat
  ro_page :: bytes

text \<open>
  The cursor's reusable record and the state of the reader between two calls. \<open>rd\<close> is what reading a
  page through the pager gives, its contents or an error; \<open>locked\<close> tells that its I/O is pending.
\<close>

record overflow_reader =
  or_state :: "read_payload_overflow option"
  or_record :: immutable_record

definition process_overflow_read ::
  "(nat \<Rightarrow> bytes res) \<Rightarrow> nat \<Rightarrow> bool \<Rightarrow> bytes \<Rightarrow> u32 \<Rightarrow> u64 \<Rightarrow> overflow_reader \<Rightarrow>
   unit cursor_result res \<times> overflow_reader" where
  "process_overflow_read rd usable_space locked payload start_next_page payload_size c =
     (case or_state c of
        None \<Rightarrow>
          (case rd (unat start_next_page) of
             Inl e \<Rightarrow> (Inl e, c)
           | Inr page \<Rightarrow>
               (case usub (unat payload_size) (length payload) of
                  Inl e \<Rightarrow> (Inl e, c)
                | Inr remaining \<Rightarrow>
                    (Inr CursorIO, c\<lparr>or_state := Some \<lparr>ro_payload = payload, ro_next_page = start_next_page,
                       ro_remaining_to_read = remaining, ro_page = page\<rparr>\<rparr>)))
      | Some r \<Rightarrow>
          if locked then (Inr CursorIO, c)
          else
            (case res_bind (slice_u32 (ro_page r) 0) (\<lambda>next.
                  res_bind (usub usable_space 4) (\<lambda>u.
                  let to_read = min (ro_remaining_to_read r) u in
                  res_bind (slice_range (ro_page r) 4 (4 + to_read)) (\<lambda>bs. Inr (next, to_read, bs)))) of
               Inl e \<Rightarrow> (Inl e, c)
             | Inr (next, to_read, bs) \<Rightarrow>
                 let r = r\<lparr>ro_payload := ro_payload r @ bs, ro_remaining_to_read := ro_remaining_to_read r - to_read\<rparr> in
                 if ro_remaining_to_read r \<noteq> 0 \<and> next \<noteq> 0 then
                   (case rd (unat next) of
                      Inl e \<Rightarrow> (Inl e, c\<lparr>or_state := Some r\<rparr>)
                    | Inr page \<Rightarrow> (Inr CursorIO, c\<lparr>or_state := Some (r\<lparr>ro_page := page, ro_next_page := next\<rparr>)\<rparr>))
                 else if \<not> (ro_remaining_to_read r = 0 \<and> next = 0) then (Inl Panic, c\<lparr>or_state := Some r\<rparr>)
                 else
                   (case read_record (ro_payload r) (or_record c) of
                      (rec, Inl e) \<Rightarrow> (Inl e, c\<lparr>or_state := Some (r\<lparr>ro_payload := []\<rparr>), or_record := rec\<rparr>)
                    | (rec, Inr _) \<Rightarrow> (Inr (CursorOk ()), c\<lparr>or_state := None, or_record := rec\<rparr>))))"

definition read_record_w_possible_overflow ::
  "(nat \<Rightarrow> bytes res) \<Rightarrow> nat \<Rightarrow> bool \<Rightarrow> bytes \<Rightarrow> u32 option \<Rightarrow> u64 \<Rightarrow> overflow_reader \<Rightarrow>
   unit cursor_result res \<times> overflow_reader" where
  "read_record_w_possible_overflow rd usable_space locked payload next_page payload_size c =
     (case next_page of
        Some n \<Rightarrow> process_overflow_read rd usable_space locked payload n payload_size c
      | None \<Rightarrow>
          (case read_record payload (or_record c) of
             (rec, Inl e) \<Rightarrow> (Inl e, c\<lparr>or_record := rec\<rparr>)
           | (rec, Inr _) \<Rightarrow> (Inr (CursorOk ()), c\<lparr>or_record := rec\<rparr>)))"

text \<open>The caller runs the pending I/O and calls again while the result is \<open>CursorResult::IO\<close>.\<close>

partial_function (option) read_record_to_end ::
  "(nat \<Rightarrow> bytes res) \<Rightarrow> nat \<Rightarrow> bytes \<Rightarrow> u32 option \<Rightarrow> u64 \<Rightarrow> overflow_reader \<Rightarrow>
   (unit res \<times> overflow_reader) option" where
  "read_record_to_end rd usable_space payload next_page payload_size c =
     (case read_record_w_possible_overflow rd usable_space False payload next_page payload_size c of
        (Inl e, c) \<Rightarrow> Some (Inl e, c)
      | (Inr (CursorOk _), c) \<Rightarrow> Some (Inr (), c)
      | (Inr CursorIO, c) \<Rightarrow> read_record_to_end rd usable_space payload next_page payload_size c)"

section \<open>Accesses in range\<close>

lemma slice_u32_in [simp]:
  "pos + 4 \<le> length buf \<Longrightarrow> slice_u32 buf pos = Inr (from_be [buf ! pos, buf ! (pos + 1), buf ! (pos + 2), buf ! (pos + 3)])"
  by (simp add: slice_u32_def)

lemma usub_in [simp]: "b \<le> a \<Longrightarrow> usub a b = Inr (a - b)"
  by (simp add: usub_def)

lemma urem_in [simp]: "b \<noteq> 0 \<Longrightarrow> urem a b = Inr (a mod b)"
  by (simp add: urem_def)

lemma slice_write_in [simp]:
  "i + length ys \<le> length xs \<Longrightarrow> slice_write xs i ys = Inr (take i xs @ ys @ drop (i + length ys) xs)"
  by (simp add: slice_write_def)

lemma to_be_zero: "to_be n 0 = replicate n 0"
  unfolding to_be_def by (induction n) (simp_all add: replicate_append_same)

lemma slice_u32_append:
  "slice_u32 (A @ to_be 4 w @ B) (length A) = Inr w"
proof -
  obtain a b c d where abcd: "to_be 4 w = [a, b, c, d]"
    using length_bytes_cases(3) [of "to_be 4 w"] by auto
  then have "from_be [a, b, c, d] = w" using from_be_to_be [of 4 w] by simp
  then show ?thesis by (simp add: abcd nth_append)
qed

lemma slice_u32_take:
  assumes "take 4 b = to_be 4 w"
  shows "slice_u32 b 0 = Inr w"
  using slice_u32_append [of "[]" w "drop 4 b"] by (simp flip: assms)

end
