(* ===== verification/DbHeader.thy ===== *)
theory DbHeader
  imports PageCell WalFormat
begin

text \<open>
  The database header, the first 100 bytes of page 1 (\<open>storage/sqlite3_ondisk/mod.rs\<close>): its fields, the
  defaults of a new database, the page size it encodes, and the two routines that decode it from and
  encode it into a buffer.
\<close>

section \<open>Fields\<close>

record database_header =
  dh_magic :: bytes
  dh_page_size :: u16
  dh_write_version :: u8
  dh_read_version :: u8
  dh_reserved_space :: u8
  dh_max_embed_frac :: u8
  dh_min_embed_frac :: u8
  dh_min_leaf_frac :: u8
  dh_change_counter :: u32
  dh_database_size :: u32
  dh_freelist_trunk_page :: u32
  dh_freelist_pages :: u32
  dh_schema_cookie :: u32
  dh_schema_format :: u32
  dh_default_page_cache_size :: u32 \<comment> \<open>\<open>i32\<close>, read with \<open>sint\<close>\<close>
  dh_vacuum_mode_largest_root_page :: u32
  dh_text_encoding :: u32
  dh_user_version :: u32 \<comment> \<open>\<open>i32\<close>\<close>
  dh_incremental_vacuum_enabled :: u32
  dh_application_id :: u32
  dh_reserved_for_expansion :: bytes
  dh_version_valid_for :: u32
  dh_version_number :: u32

definition DEFAULT_CACHE_SIZE :: u32 where
  "DEFAULT_CACHE_SIZE = - 2000"

definition database_header_default :: database_header where
  "database_header_default =
     \<lparr>dh_magic = [83, 81, 76, 105, 116, 101, 32, 102, 111, 114, 109, 97, 116, 32, 51, 0],
      dh_page_size = 4096, dh_write_version = 2, dh_read_version = 2, dh_reserved_space = 0,
      dh_max_embed_frac = 64, dh_min_embed_frac = 32, dh_min_leaf_frac = 32, dh_change_counter = 1,
      dh_database_size = 1, dh_freelist_trunk_page = 0, dh_freelist_pages = 0, dh_schema_cookie = 0,
      dh_schema_format = 4, dh_default_page_cache_size = DEFAULT_CACHE_SIZE,
      dh_vacuum_mode_largest_root_page = 0, dh_text_encoding = 1, dh_user_version = 0,
      dh_incremental_vacuum_enabled = 0, dh_application_id = 0,
      dh_reserved_for_expansion = replicate 20 0, dh_version_valid_for = 3047000, dh_version_number = 3047000\<rparr>"

text \<open>A size that is out of range or no power of two is ignored; 65536 is stored as 1.\<close>

definition update_page_size :: "u32 \<Rightarrow> database_header \<Rightarrow> database_header" where
  "update_page_size sz h =
     (if \<not> (MIN_PAGE_SIZE \<le> sz \<and> sz \<le> MAX_PAGE_SIZE) \<or> sz AND (sz - 1) \<noteq> 0 then h
      else h\<lparr>dh_page_size := (if sz = MAX_PAGE_SIZE then 1 else ucast sz)\<rparr>)"

definition get_page_size :: "database_header \<Rightarrow> u32" where
  "get_page_size h = (if dh_page_size h = 1 then MAX_PAGE_SIZE else ucast (dh_page_size h))"

section \<open>Decoding and encoding\<close>

definition slice_be :: "bytes \<Rightarrow> nat \<Rightarrow> nat \<Rightarrow> 'a::len word res" where
  "slice_be buf i n = res_bind (slice_range buf i (i + n)) (\<lambda>bs. Inr (from_be bs))"

definition parse_database_header_into :: "bytes \<Rightarrow> database_header res" where
  "parse_database_header_into buf =
     res_bind (slice_range buf 0 16) (\<lambda>magic.
     res_bind (slice_be buf 16 2) (\<lambda>page_size.
     res_bind (slice_idx buf 18) (\<lambda>write_version.
     res_bind (slice_idx buf 19) (\<lambda>read_version.
     res_bind (slice_idx buf 20) (\<lambda>reserved_space.
     res_bind (slice_idx buf 21) (\<lambda>max_embed_frac.
     res_bind (slice_idx buf 22) (\<lambda>min_embed_frac.
     res_bind (slice_idx buf 23) (\<lambda>min_leaf_frac.
     res_bind (slice_be buf 24 4) (\<lambda>change_counter.
     res_bind (slice_be buf 28 4) (\<lambda>database_size.
     res_bind (slice_be buf 32 4) (\<lambda>freelist_trunk_page.
     res_bind (slice_be buf 36 4) (\<lambda>freelist_pages.
     res_bind (slice_be buf 40 4) (\<lambda>schema_cookie.
     res_bind (slice_be buf 44 4) (\<lambda>schema_format.
     res_bind (slice_be buf 48 4) (\<lambda>default_page_cache_size.
     res_bind (slice_be buf 52 4) (\<lambda>vacuum_mode_largest_root_page.
     res_bind (slice_be buf 56 4) (\<lambda>text_encoding.
     res_bind (slice_be buf 60 4) (\<lambda>user_version.
     res_bind (slice_be buf 64 4) (\<lambda>incremental_vacuum_enabled.
     res_bind (slice_be buf 68 4) (\<lambda>application_id.
     res_bind (slice_range buf 72 92) (\<lambda>reserved_for_expansion.
     res_bind (slice_be buf 92 4) (\<lambda>version_valid_for.
     res_bind (slice_be buf 96 4) (\<lambda>version_number.
     Inr \<lparr>dh_magic = magic, dh_page_size = page_size, dh_write_version = write_version,
          dh_read_version = read_version, dh_reserved_space = reserved_space,
          dh_max_embed_frac = max_embed_frac, dh_min_embed_frac = min_embed_frac,
          dh_min_leaf_frac = min_leaf_frac, dh_change_counter = change_counter,
          dh_database_size = database_size, dh_freelist_trunk_page = freelist_trunk_page,
          dh_freelist_pages = freelist_pages, dh_schema_cookie = schema_cookie,
          dh_schema_format = schema_format,
          dh_default_page_cache_size = (if default_page_cache_size = 0 then DEFAULT_CACHE_SIZE else default_page_cache_size),
          dh_vacuum_mode_largest_root_page = vacuum_mode_largest_root_page,
          dh_text_encoding = text_encoding, dh_user_version = user_version,
          dh_incremental_vacuum_enabled = incremental_vacuum_enabled, dh_application_id = application_id,
          dh_reserved_for_expansion = reserved_for_expansion, dh_version_valid_for = version_valid_for,
          dh_version_number = version_number\<rparr>)))))))))))))))))))))))"

text \<open>The writes of \<open>write_header_to_buf\<close>, in their order: offset and bytes.\<close>

definition header_fields :: "database_header \<Rightarrow> (nat \<times> bytes) list" where
  "header_fields h =
     [(0, dh_magic h), (16, to_be 2 (dh_page_size h)), (18, [dh_write_version h]), (19, [dh_read_version h]),
      (20, [dh_reserved_space h]), (21, [dh_max_embed_frac h]), (22, [dh_min_embed_frac h]), (23, [dh_min_leaf_frac h]),
      (24, to_be 4 (dh_change_counter h)), (28, to_be 4 (dh_database_size h)),
      (32, to_be 4 (dh_freelist_trunk_page h)), (36, to_be 4 (dh_freelist_pages h)),
      (40, to_be 4 (dh_schema_cookie h)), (44, to_be 4 (dh_schema_format h)),
      (48, to_be 4 (dh_default_page_cache_size h)), (52, to_be 4 (dh_vacuum_mode_largest_root_page h)),
      (56, to_be 4 (dh_text_encoding h)), (60, to_be 4 (dh_user_version h)),
      (64, to_be 4 (dh_incremental_vacuum_enabled h)), (68, to_be 4 (dh_application_id h)),
      (72, dh_reserved_for_expansion h), (92, to_be 4 (dh_version_valid_for h)), (96, to_be 4 (dh_version_number h))]"

fun write_fields :: "(nat \<times> bytes) list \<Rightarrow> bytes \<Rightarrow> bytes res" where
  "write_fields [] buf = Inr buf"
| "write_fields ((i, bs) # fs) buf = res_bind (slice_write buf i bs) (write_fields fs)"

definition write_header_to_buf :: "database_header \<Rightarrow> bytes \<Rightarrow> bytes res" where
  "write_header_to_buf h buf = write_fields (header_fields h) buf"

section \<open>Round trips\<close>

definition header_ok :: "database_header \<Rightarrow> bool" where
  "header_ok h \<longleftrightarrow> length (dh_magic h) = 16 \<and> length (dh_reserved_for_expansion h) = 20"

definition header_bytes :: "database_header \<Rightarrow> bytes" where
  "header_bytes h = concat (map snd (header_fields h))"

fun contiguous :: "nat \<Rightarrow> (nat \<times> bytes) list \<Rightarrow> bool" where
  "contiguous i [] = True"
| "contiguous i ((j, bs) # fs) = (i = j \<and> contiguous (i + length bs) fs)"

lemma write_fields_contiguous:
  assumes "contiguous i fs" "i + length (concat (map snd fs)) \<le> length buf"
  shows "write_fields fs buf = Inr (take i buf @ concat (map snd fs) @ drop (i + length (concat (map snd fs))) buf)"
  using assms
proof (induction i fs arbitrary: buf rule: contiguous.induct)
  case (2 i j bs fs)
  let ?buf = "take i buf @ bs @ drop (i + length bs) buf"
  have "take (i + length bs) ?buf = take i buf @ bs" using "2.prems" by simp
  moreover have "drop (i + length bs + k) ?buf = drop (i + length bs + k) buf" for k using "2.prems" by (simp add: add.commute)
  moreover have "write_fields fs ?buf = Inr (take (i + length bs) ?buf @ concat (map snd fs) @
      drop (i + length bs + length (concat (map snd fs))) ?buf)"
    using "2.prems" by (intro "2.IH") auto
  ultimately show ?case using "2.prems" by (auto simp: add.assoc)
qed simp

lemma header_ok_fields:
  assumes "header_ok h"
  shows "contiguous 0 (header_fields h)" "length (header_bytes h) = 100"
  using assms by (simp_all add: header_ok_def header_fields_def header_bytes_def)

lemma write_header_to_buf_eq:
  assumes "header_ok h" "100 \<le> length buf"
  shows "write_header_to_buf h buf = Inr (header_bytes h @ drop 100 buf)"
  using write_fields_contiguous [of 0 "header_fields h" buf] header_ok_fields [OF assms(1)] assms(2)
  by (simp add: write_header_to_buf_def header_bytes_def)

lemma parse_header_bytes:
  assumes "header_ok h"
  shows "parse_database_header_into (header_bytes h @ rest) =
    Inr (h\<lparr>dh_default_page_cache_size := (if dh_default_page_cache_size h = 0 then DEFAULT_CACHE_SIZE
       else dh_default_page_cache_size h)\<rparr>)"
  using assms
  by (simp add: header_ok_def header_bytes_def header_fields_def parse_database_header_into_def slice_be_def
      nth_append from_be_to_be)

lemma concat_contiguous:
  assumes "contiguous i fs" "\<And>j bs. (j, bs) \<in> set fs \<Longrightarrow> bs = take (length bs) (drop j buf)"
  shows "concat (map snd fs) = take (length (concat (map snd fs))) (drop i buf)"
  using assms
proof (induction i fs rule: contiguous.induct)
  case (2 i j bs fs)
  then have "concat (map snd fs) = take (length (concat (map snd fs))) (drop (i + length bs) buf)" by auto
  moreover have "bs = take (length bs) (drop i buf)" using "2.prems" by auto
  ultimately show ?case by (simp add: take_add add.commute)
qed simp

lemma parsed_header_bytes:
  assumes "parse_database_header_into buf = Inr h" "100 \<le> length buf" "slice_be buf 48 4 \<noteq> Inr (0 :: u32)"
  shows "header_ok h" "header_bytes h = take 100 buf"
proof -
  have be: "to_be n (from_be (take n (drop i buf)) :: 'a::len word) = take n (drop i buf)"
    if "n + i \<le> 100" "8 * n \<le> LENGTH('a)" for n i
    using to_be_from_be [of "take n (drop i buf)", where 'a = 'a] that assms(2) by simp
  have one: "[buf ! i] = take 1 (drop i buf)" if "i < 100" for i
    using that assms(2) by (simp add: take_Suc_conv_app_nth)
  have h: "h = \<lparr>dh_magic = take 16 buf, dh_page_size = from_be (take 2 (drop 16 buf)), dh_write_version = buf ! 18,
      dh_read_version = buf ! 19, dh_reserved_space = buf ! 20, dh_max_embed_frac = buf ! 21,
      dh_min_embed_frac = buf ! 22, dh_min_leaf_frac = buf ! 23,
      dh_change_counter = from_be (take 4 (drop 24 buf)), dh_database_size = from_be (take 4 (drop 28 buf)),
      dh_freelist_trunk_page = from_be (take 4 (drop 32 buf)), dh_freelist_pages = from_be (take 4 (drop 36 buf)),
      dh_schema_cookie = from_be (take 4 (drop 40 buf)), dh_schema_format = from_be (take 4 (drop 44 buf)),
      dh_default_page_cache_size = from_be (take 4 (drop 48 buf)),
      dh_vacuum_mode_largest_root_page = from_be (take 4 (drop 52 buf)), dh_text_encoding = from_be (take 4 (drop 56 buf)),
      dh_user_version = from_be (take 4 (drop 60 buf)), dh_incremental_vacuum_enabled = from_be (take 4 (drop 64 buf)),
      dh_application_id = from_be (take 4 (drop 68 buf)), dh_reserved_for_expansion = take 20 (drop 72 buf),
      dh_version_valid_for = from_be (take 4 (drop 92 buf)), dh_version_number = from_be (take 4 (drop 96 buf))\<rparr>"
    using assms by (simp add: parse_database_header_into_def slice_be_def)
  show ok: "header_ok h" using assms(2) by (simp add: h header_ok_def)
  have "bs = take (length bs) (drop j buf)" if "(j, bs) \<in> set (header_fields h)" for j bs
    using that assms(2) by (auto simp: header_fields_def h be one)
  then show "header_bytes h = take 100 buf"
    using concat_contiguous [OF header_ok_fields(1) [OF ok], of buf] header_ok_fields(2) [OF ok]
    by (simp add: header_bytes_def)
qed

lemma get_page_size_update:
  assumes "MIN_PAGE_SIZE \<le> sz" "sz \<le> MAX_PAGE_SIZE" "sz AND (sz - 1) = 0"
  shows "get_page_size (update_page_size sz h) = sz"
proof (cases "sz = MAX_PAGE_SIZE")
  case False
  then have "unat sz < 65536" "512 \<le> unat sz"
    using assms(1,2) by (simp_all add: MIN_PAGE_SIZE_def MAX_PAGE_SIZE_def word_le_nat_alt word_unat_eq_iff)
  then have u: "unat (ucast sz :: u16) = unat sz"
    by (simp add: unsigned_ucast_eq take_bit_eq_mod)
  then have "ucast sz \<noteq> (1 :: u16)" using \<open>512 \<le> unat sz\<close> by auto
  moreover have "ucast (ucast sz :: u16) = sz" 
    using u unfolding ucast_unat [of "ucast sz :: u16"] by simp
  ultimately show ?thesis using assms False by (simp add: update_page_size_def get_page_size_def)
qed (use assms in \<open>simp add: update_page_size_def get_page_size_def\<close>)



end
