(* ===== verification/Ptrmap.thy ===== *)
theory Ptrmap
  imports PageCell
begin

text \<open>
  Pointer maps (\<open>storage/pager/functions.rs\<close>, module \<open>ptrmap\<close>): in an auto-vacuum database every group of pages is
  preceded by a page of 5-byte entries that tell the kind and the parent of each page. Page numbers are natural numbers below
  2 to the 32; a subtraction below zero is a panic.
\<close>

section \<open>Entries\<close>

definition PTRMAP_ENTRY_SIZE :: nat where
  "PTRMAP_ENTRY_SIZE = 5"

definition FIRST_PTRMAP_PAGE_NO :: nat where
  "FIRST_PTRMAP_PAGE_NO = 2"

datatype ptrmap_type = RootPage | FreePage | Overflow1 | Overflow2 | BTreeNode

definition ptrmap_type_u8 :: "ptrmap_type \<Rightarrow> u8" where
  "ptrmap_type_u8 t = (case t of RootPage \<Rightarrow> 1 | FreePage \<Rightarrow> 2 | Overflow1 \<Rightarrow> 3 | Overflow2 \<Rightarrow> 4 | BTreeNode \<Rightarrow> 5)"

definition ptrmap_type_from_u8 :: "u8 \<Rightarrow> ptrmap_type option" where
  "ptrmap_type_from_u8 v =
     (if v = 1 then Some RootPage else if v = 2 then Some FreePage else if v = 3 then Some Overflow1
      else if v = 4 then Some Overflow2 else if v = 5 then Some BTreeNode else None)"

record ptrmap_entry =
  pm_entry_type :: ptrmap_type
  pm_parent_page_no :: u32

definition ptrmap_serialize :: "ptrmap_entry \<Rightarrow> bytes \<Rightarrow> bytes res" where
  "ptrmap_serialize e buffer =
     (if length buffer < PTRMAP_ENTRY_SIZE then Inl (InternalError ''Buffer too small to serialize ptrmap entry. Expected at least '')
      else res_bind (slice_set buffer 0 (ptrmap_type_u8 (pm_entry_type e))) (\<lambda>buffer.
           slice_write buffer 1 (to_be 4 (pm_parent_page_no e))))"

definition ptrmap_deserialize :: "bytes \<Rightarrow> ptrmap_entry option" where
  "ptrmap_deserialize buffer =
     (if length buffer < PTRMAP_ENTRY_SIZE then None
      else map_option (\<lambda>t. \<lparr>pm_entry_type = t, pm_parent_page_no = from_be (take 4 (drop 1 buffer))\<rparr>)
             (ptrmap_type_from_u8 (buffer ! 0)))"

section \<open>Positions\<close>

definition entries_per_ptrmap_page :: "nat \<Rightarrow> nat res" where
  "entries_per_ptrmap_page page_size = (if page_size \<ge> 512 then Inr (page_size div PTRMAP_ENTRY_SIZE) else Inl Panic)"

definition ptrmap_page_cycle_length :: "nat \<Rightarrow> nat res" where
  "ptrmap_page_cycle_length page_size =
     (if page_size \<ge> 512 then Inr (page_size div PTRMAP_ENTRY_SIZE + 1) else Inl Panic)"

definition get_ptrmap_page_no_for_db_page :: "nat \<Rightarrow> nat \<Rightarrow> nat res" where
  "get_ptrmap_page_no_for_db_page db_page_no page_size =
     res_bind (ptrmap_page_cycle_length page_size) (\<lambda>n.
       let group_size = n mod 2 ^ 32 in
       if group_size = 0 then Inl Panic
       else res_bind (usub db_page_no FIRST_PTRMAP_PAGE_NO) (\<lambda>effective_page_index.
         let group_idx = effective_page_index div group_size in
         Inr (group_idx * group_size + FIRST_PTRMAP_PAGE_NO)))"

definition is_ptrmap_page :: "nat \<Rightarrow> nat \<Rightarrow> bool res" where
  "is_ptrmap_page db_page_no page_size =
     (if db_page_no = 1 then Inr False
      else if db_page_no = FIRST_PTRMAP_PAGE_NO then Inr True
      else res_bind (get_ptrmap_page_no_for_db_page db_page_no page_size) (\<lambda>n. Inr (n = db_page_no)))"

definition get_ptrmap_offset_in_page :: "nat \<Rightarrow> nat \<Rightarrow> nat \<Rightarrow> nat res" where
  "get_ptrmap_offset_in_page db_page_no ptrmap_page_no page_size =
     res_bind (entries_per_ptrmap_page page_size) (\<lambda>n_data_pages_per_group.
       let first_data_page_mapped = ptrmap_page_no + 1;
           last_data_page_mapped = ptrmap_page_no + n_data_pages_per_group
       in if db_page_no < first_data_page_mapped \<or> db_page_no > last_data_page_mapped
          then Inl (InternalError ''Page  is not mapped by the data page range'')
          else res_bind (is_ptrmap_page db_page_no page_size) (\<lambda>b.
            if b then Inl (InternalError ''Page  is a pointer map page and should not have an entry calculated this way.'')
            else Inr ((db_page_no - first_data_page_mapped) * PTRMAP_ENTRY_SIZE)))"

section \<open>Entries do not overlap\<close>

lemmas ptrmap_consts = PTRMAP_ENTRY_SIZE_def FIRST_PTRMAP_PAGE_NO_def

lemma ptrmap_type_u8_inverse [simp]: "ptrmap_type_from_u8 (ptrmap_type_u8 t) = Some t"
  by (cases t) (simp_all add: ptrmap_type_from_u8_def ptrmap_type_u8_def)

lemma ptrmap_entry_roundtrip:
  assumes "length buffer = PTRMAP_ENTRY_SIZE"
  shows "\<exists>b. ptrmap_serialize e buffer = Inr b \<and> length b = PTRMAP_ENTRY_SIZE \<and> ptrmap_deserialize b = Some e"
proof -
  let ?b = "ptrmap_type_u8 (pm_entry_type e) # to_be 4 (pm_parent_page_no e)"
  obtain x xs where b: "buffer = x # xs" "length xs = 4"
    using assms by (cases buffer) (auto simp: ptrmap_consts)
  have "ptrmap_serialize e buffer = Inr ?b"
    using b by (simp add: ptrmap_serialize_def ptrmap_consts)
  moreover have "ptrmap_deserialize ?b = Some e"
    using from_be_to_be [of 4 "pm_parent_page_no e"] by (simp add: ptrmap_deserialize_def ptrmap_consts)
  ultimately show ?thesis by (simp add: ptrmap_consts)
qed

text \<open>The page that maps page \<open>p\<close>, and the slot of \<open>p\<close> on it, for a page size and pages that exist.\<close>

definition ptrmap_slot :: "nat \<Rightarrow> nat \<Rightarrow> (nat \<times> nat) res" where
  "ptrmap_slot page_size p =
     res_bind (get_ptrmap_page_no_for_db_page p page_size) (\<lambda>m.
     res_bind (get_ptrmap_offset_in_page p m page_size) (\<lambda>off. Inr (m, off)))"

lemma ptrmap_page_no:
  assumes "512 \<le> ps" "ps \<le> 65536" "2 \<le> p"
  obtains k where "get_ptrmap_page_no_for_db_page p ps = Inr (k * (ps div 5 + 1) + 2)"
    "k * (ps div 5 + 1) + 2 \<le> p" "p \<le> k * (ps div 5 + 1) + 2 + ps div 5"
proof -
  define g where "g = ps div 5 + 1"
  have g: "g < 2 ^ 32" "0 < g" using assms(2) by (simp_all add: g_def)
  have c: "ptrmap_page_cycle_length ps = Inr g"
    using assms(1) by (simp add: ptrmap_page_cycle_length_def PTRMAP_ENTRY_SIZE_def g_def)
  have "(p - 2) div g * g + (p - 2) mod g = p - 2" by simp
  moreover have "(p - 2) mod g < g" using g(2) by simp
  moreover have "get_ptrmap_page_no_for_db_page p ps = Inr ((p - 2) div g * g + 2)"
    using assms(3) g c by (simp add: get_ptrmap_page_no_for_db_page_def FIRST_PTRMAP_PAGE_NO_def Let_def)
  ultimately show thesis using that [of "(p - 2) div g"] assms(3) unfolding g_def by linarith
qed

lemma ptrmap_slot_eq:
  assumes "512 \<le> ps" "ps \<le> 65536" "2 \<le> p" "is_ptrmap_page p ps = Inr False"
  obtains m where "ptrmap_slot ps p = Inr (m, (p - m - 1) * 5)" "m < p" "p \<le> m + ps div 5" "2 \<le> m"
    "is_ptrmap_page m ps = Inr True"
proof -
  obtain k where k: "get_ptrmap_page_no_for_db_page p ps = Inr (k * (ps div 5 + 1) + 2)"
    "k * (ps div 5 + 1) + 2 \<le> p" "p \<le> k * (ps div 5 + 1) + 2 + ps div 5"
    using ptrmap_page_no [OF assms(1-3)] by blast
  define m where "m = k * (ps div 5 + 1) + 2"
  have "m \<noteq> p" using assms(3,4) k(1) by (auto simp: is_ptrmap_page_def ptrmap_consts m_def split: if_splits)
  then have m: "m < p" "p \<le> m + ps div 5" "2 \<le> m" using k by (simp_all add: m_def)
  obtain j where j: "get_ptrmap_page_no_for_db_page m ps = Inr (j * (ps div 5 + 1) + 2)"
    "j * (ps div 5 + 1) + 2 \<le> m" "m \<le> j * (ps div 5 + 1) + 2 + ps div 5"
    using ptrmap_page_no [OF assms(1,2) m(3)] by blast
  have "j * (ps div 5 + 1) \<le> k * (ps div 5 + 1)" "k * (ps div 5 + 1) < (j + 1) * (ps div 5 + 1)"
    using j(2,3) by (simp_all add: m_def)
  then have "j = k" by (metis add.commute mult_le_cancel2 mult_less_cancel2 le_antisym less_Suc_eq_le plus_1_eq_Suc zero_less_Suc add_gr_0)
  then have "is_ptrmap_page m ps = Inr True" using j(1) by (simp add: is_ptrmap_page_def m_def ptrmap_consts)
  moreover have "ptrmap_slot ps p = Inr (m, (p - m - 1) * 5)"
    using k(1) [folded m_def] m assms(1,4)
    by (simp add: ptrmap_slot_def get_ptrmap_offset_in_page_def entries_per_ptrmap_page_def ptrmap_consts)
  ultimately show thesis using that m by blast
qed

lemma ptrmap_slots_disjoint:
  assumes "512 \<le> ps" "ps \<le> 65536" "2 \<le> p" "2 \<le> q" "p \<noteq> q"
    and "ptrmap_slot ps p = Inr (m, i)" "ptrmap_slot ps q = Inr (m, j)"
  shows "i + 5 \<le> j \<or> j + 5 \<le> i"
  using assms(5-7)
  by (auto simp: ptrmap_slot_def get_ptrmap_offset_in_page_def ptrmap_consts Let_def split: if_splits)

end
