(* ===== verification/Pager.thy ===== *)
theory Pager
  imports PageCache Wal DbHeader Ptrmap
begin

text \<open>
  The pager (\<open>storage/pager\<close>): page objects between the b-tree and the page cache, the write-ahead log and the
  database file. It reads, allocates and frees pages, keeps the pointer map and the database header, flushes dirty
  pages, and has savepoints.

  The state holds the page cache, the connection and the shared part of the log, and the I/O state of
  their own theories; page objects are numbered, and their contents are a function of the number.
  Page reads and frame writes complete when they are submitted, as those of regular files and of the in-memory back end
  do, so that no page stays locked between two calls and no frame is in flight; an error of a read request is a field of the
  state. The requests of a checkpoint and the syncs complete when the I/O loop runs. The iteration order
  of the hash set of dirty pages is that of a list. \<open>Panic\<close> also stands for a loop that does not return.
\<close>

section \<open>State\<close>

datatype auto_vacuum_mode = VacuumNone | VacuumFull | VacuumIncremental

datatype synchronous_mode = SyncOff | SyncNormal | SyncFull | SyncExtra

datatype flush_state = FlushStart | WaitAppendFrames | SyncWal | FlushCheckpoint | SyncDbFile | WaitSyncDbFile

datatype pager_checkpoint_state = PcCheckpoint | PcSyncDbFile | PcWaitSyncDbFile | PcCheckpointDone

record savepoint_frame =
  sp_name :: string
  sp_wal_max_frame :: nat
  sp_wal_checksum :: "u32 \<times> u32"
  sp_is_transaction_owner :: bool

record pager =
  pgr_header :: database_header
  pgr_cache :: page_cache
  pgr_contents :: "page_ref \<Rightarrow> page_content"
  pgr_next_ref :: page_ref
  pgr_pool :: "bytes list"
  pgr_dirty :: "nat list"
  pgr_auto_vacuum :: auto_vacuum_mode
  pgr_con :: wal_file
  pgr_sh :: wal_shared
  pgr_io :: wal_io
  pgr_read_error :: "nat \<Rightarrow> limbo_error option"
  pgr_savepoints :: "savepoint_frame list"
  pgr_flush_state :: flush_state
  pgr_in_flight :: nat
  pgr_checkpoint_state :: pager_checkpoint_state
  pgr_syncing :: bool
  pgr_synchronous :: synchronous_mode

text \<open>Computations on the pager: a result or an error, and the new state in both cases.\<close>

type_synonym 'a pg = "pager \<Rightarrow> 'a res \<times> pager"

definition pg_ret :: "'a \<Rightarrow> 'a pg" where
  "pg_ret x p = (Inr x, p)"

definition pg_err :: "limbo_error \<Rightarrow> 'a pg" where
  "pg_err e p = (Inl e, p)"

definition pg_bind :: "'a pg \<Rightarrow> ('a \<Rightarrow> 'b pg) \<Rightarrow> 'b pg" where
  "pg_bind m f p = (case m p of (Inl e, p) \<Rightarrow> (Inl e, p) | (Inr x, p) \<Rightarrow> f x p)"

definition pg_get :: "(pager \<Rightarrow> 'a) \<Rightarrow> 'a pg" where
  "pg_get f p = (Inr (f p), p)"

definition pg_upd :: "(pager \<Rightarrow> pager) \<Rightarrow> unit pg" where
  "pg_upd f p = (Inr (), f p)"

definition pg_res :: "'a res \<Rightarrow> 'a pg" where
  "pg_res r p = (r, p)"

text \<open>An operation of the page cache; where it is undefined the code panics or does not return.\<close>

definition on_cache :: "(page_cache \<Rightarrow> ('a \<times> page_cache) option) \<Rightarrow> 'a pg" where
  "on_cache f p = (case f (pgr_cache p) of None \<Rightarrow> (Inl Panic, p) | Some (x, c) \<Rightarrow> (Inr x, p\<lparr>pgr_cache := c\<rparr>))"

section \<open>Page objects\<close>

definition page_flags :: "page_ref \<Rightarrow> pager \<Rightarrow> page_state" where
  "page_flags r p = pc_pages (pgr_cache p) r"

definition set_page_flags :: "page_ref \<Rightarrow> (page_state \<Rightarrow> page_state) \<Rightarrow> unit pg" where
  "set_page_flags r f = pg_upd (\<lambda>p. p\<lparr>pgr_cache := (pgr_cache p)\<lparr>pc_pages := (pc_pages (pgr_cache p))(r := f (page_flags r p))\<rparr>\<rparr>)"

definition set_dirty :: "page_ref \<Rightarrow> unit pg" where
  "set_dirty r = set_page_flags r (\<lambda>s. s\<lparr>pg_dirty := True\<rparr>)"

definition clear_dirty :: "page_ref \<Rightarrow> unit pg" where
  "clear_dirty r = set_page_flags r (\<lambda>s. s\<lparr>pg_dirty := False\<rparr>)"

definition clear_loaded :: "page_ref \<Rightarrow> unit pg" where
  "clear_loaded r = set_page_flags r (\<lambda>s. s\<lparr>pg_loaded := False\<rparr>)"

definition clear_locked :: "page_ref \<Rightarrow> unit pg" where
  "clear_locked r = set_page_flags r (\<lambda>s. s\<lparr>pg_locked := False\<rparr>)"

definition new_page :: "page_state \<Rightarrow> page_ref pg" where
  "new_page s = pg_bind (pg_get pgr_next_ref) (\<lambda>r.
     pg_bind (pg_upd (\<lambda>p. p\<lparr>pgr_next_ref := r + 1\<rparr>)) (\<lambda>_.
     pg_bind (set_page_flags r (\<lambda>_. s)) (\<lambda>_. pg_ret r)))"

definition set_contents :: "page_ref \<Rightarrow> page_content \<Rightarrow> unit pg" where
  "set_contents r c = pg_upd (\<lambda>p. p\<lparr>pgr_contents := (pgr_contents p)(r := c)\<rparr>)"

definition add_dirty :: "nat \<Rightarrow> unit pg" where
  "add_dirty page_id = pg_upd (\<lambda>p. p\<lparr>pgr_dirty := (if page_id \<in> set (pgr_dirty p) then pgr_dirty p else pgr_dirty p @ [page_id])\<rparr>)"

definition page_size_of :: "pager \<Rightarrow> nat" where
  "page_size_of p = unat (get_page_size (pgr_header p))"

definition usable_space_of :: "pager \<Rightarrow> nat res" where
  "usable_space_of p = usub (page_size_of p) (unat (dh_reserved_space (pgr_header p)))"

text \<open>\<open>BufferPool::get\<close>: a buffer that was given back keeps its bytes. When it is given back is left open, as the pool starts with any buffers.\<close>

definition pool_get :: "bytes pg" where
  "pool_get p = (case pgr_pool p of
     b # bs \<Rightarrow> (Inr b, p\<lparr>pgr_pool := bs\<rparr>)
   | [] \<Rightarrow> (Inr (replicate (page_size_of p) 0), p))"

text \<open>\<open>allocate_page\<close> of \<open>functions.rs\<close>: a page object with a buffer.\<close>

definition allocate_page_object :: "nat \<Rightarrow> page_ref pg" where
  "allocate_page_object off =
     pg_bind pool_get (\<lambda>b.
     pg_bind (new_page \<lparr>pg_locked = False, pg_dirty = False, pg_loaded = True, pg_contents = True\<rparr>) (\<lambda>r.
     pg_bind (set_contents r (page_content_new off b)) (\<lambda>_. pg_ret r)))"

section \<open>Reading\<close>

definition DATABASE_HEADER_PAGE_ID :: nat where
  "DATABASE_HEADER_PAGE_ID = 1"

text \<open>What the log or the database file has for a page; past the end of the file the buffer of the pool is left as it was.\<close>

definition fetch_page :: "nat \<Rightarrow> bytes pg" where
  "fetch_page page_idx p = (case pgr_read_error p page_idx of
     Some e \<Rightarrow> (Inl e, p)
   | None \<Rightarrow>
       (case find_frame (pgr_con p) (pgr_sh p) page_idx of
          Some frame_id \<Rightarrow>
            pg_bind (pg_res (frame_data_offset (pgr_con p) frame_id)) (\<lambda>off.
            pg_ret (pread off (unat (wf_page_size (pgr_con p))) (sh_file (pgr_sh p)))) p
        | None \<Rightarrow>
            (case io_db (pgr_io p) page_idx of
               Some b \<Rightarrow> (Inr b, p)
             | None \<Rightarrow> pool_get p)))"

definition finish_read_page :: "nat \<Rightarrow> page_ref \<Rightarrow> bytes \<Rightarrow> unit pg" where
  "finish_read_page page_idx r b =
     pg_bind (set_contents r (page_content_new (if page_idx = DATABASE_HEADER_PAGE_ID then 100 else 0) b)) (\<lambda>_.
     set_page_flags r (\<lambda>s. s\<lparr>pg_locked := False, pg_loaded := True, pg_contents := True\<rparr>))"

definition unreserve_cache_slot :: "nat \<Rightarrow> page_ref \<Rightarrow> unit pg" where
  "unreserve_cache_slot key r =
     pg_bind (clear_locked r) (\<lambda>_. pg_bind (on_cache (cache_delete key)) (\<lambda>_. pg_ret ()))"

definition read_page :: "nat \<Rightarrow> page_ref pg" where
  "read_page page_idx =
     pg_bind (on_cache (cache_get page_idx)) (\<lambda>cached. case cached of
       Some r \<Rightarrow> pg_ret r
     | None \<Rightarrow>
         pg_bind (new_page \<lparr>pg_locked = True, pg_dirty = False, pg_loaded = False, pg_contents = False\<rparr>) (\<lambda>r.
         pg_bind (on_cache (cache_insert page_idx r)) (\<lambda>ins. case ins of
             Inl cache_error.Full \<Rightarrow> pg_err CacheFull
           | Inl KeyExists \<Rightarrow> pg_err Panic
           | Inl _ \<Rightarrow> pg_err (limbo_error.InternalError ''Failed to insert page into cache: '')
           | Inr _ \<Rightarrow> (\<lambda>p. case fetch_page page_idx p of
                 (Inl e, p) \<Rightarrow> pg_bind (unreserve_cache_slot page_idx r) (\<lambda>_. pg_err e) p
               | (Inr b, p) \<Rightarrow> pg_bind (finish_read_page page_idx r b) (\<lambda>_. pg_ret r) p))))"

text \<open>A locked page would make the blocking form spin, since no request is pending.\<close>

definition write_database_header :: "unit pg" where
  "write_database_header =
     pg_bind (read_page DATABASE_HEADER_PAGE_ID) (\<lambda>r.
     pg_bind (pg_get (page_flags r)) (\<lambda>s.
     if pg_locked s then pg_err Panic
     else
       pg_bind (set_dirty r) (\<lambda>_.
       pg_bind (add_dirty DATABASE_HEADER_PAGE_ID) (\<lambda>_.
       if \<not> pg_contents s then pg_err (limbo_error.InternalError ''page 1 contents missing while writing database header'')
       else
         pg_bind (pg_get (\<lambda>p. pgr_contents p r)) (\<lambda>c.
         pg_bind (pg_get (\<lambda>p. write_header_to_buf (pgr_header p) (pgc_buffer c))) (\<lambda>b.
         pg_bind (pg_res b) (\<lambda>b. set_contents r (c\<lparr>pgc_buffer := b\<rparr>))))))))"

section \<open>Allocating\<close>

definition insert_new_page :: "nat \<Rightarrow> page_ref \<Rightarrow> unit pg" where
  "insert_new_page key r =
     pg_bind (on_cache (cache_insert key r)) (\<lambda>ins. case ins of
         Inl cache_error.Full \<Rightarrow> pg_err CacheFull
       | Inl _ \<Rightarrow> pg_err (limbo_error.InternalError ''Unknown error inserting page to cache'')
       | Inr _ \<Rightarrow> pg_ret ())"

definition remove_dirty :: "nat \<Rightarrow> unit pg" where
  "remove_dirty page_id = pg_upd (\<lambda>p. p\<lparr>pgr_dirty := filter (\<lambda>q. q \<noteq> page_id) (pgr_dirty p)\<rparr>)"

text \<open>The pointer map page that must precede page \<open>candidate_size\<close>, if any.\<close>

definition reserve_ptrmap_page :: "nat \<Rightarrow> (nat \<times> page_ref) option pg" where
  "reserve_ptrmap_page candidate_size =
     pg_bind (pg_get (\<lambda>p. if pgr_auto_vacuum p = VacuumFull then is_ptrmap_page candidate_size (page_size_of p) else Inr False)) (\<lambda>b.
     pg_bind (pg_res b) (\<lambda>b.
     if \<not> b then pg_ret None
     else
       pg_bind (allocate_page_object 0) (\<lambda>r.
       pg_bind (insert_new_page candidate_size r) (\<lambda>_.
       pg_bind (set_dirty r) (\<lambda>_.
       pg_bind (add_dirty candidate_size) (\<lambda>_. pg_ret (Some (candidate_size, r))))))))"

definition unreserve_ptrmap_page :: "(nat \<times> page_ref) option \<Rightarrow> unit pg" where
  "unreserve_ptrmap_page x = (case x of
     None \<Rightarrow> pg_ret ()
   | Some (n, r) \<Rightarrow>
       pg_bind (clear_dirty r) (\<lambda>_.
       pg_bind (remove_dirty n) (\<lambda>_.
       pg_bind (on_cache (cache_delete n)) (\<lambda>_. pg_ret ()))))"

definition set_database_size :: "nat \<Rightarrow> unit pg" where
  "set_database_size n = pg_upd (\<lambda>p. p\<lparr>pgr_header := (pgr_header p)\<lparr>dh_database_size := word_of_nat n\<rparr>\<rparr>)"

definition u32_checked :: "nat \<Rightarrow> nat pg" where
  "u32_checked n = (if n < 2 ^ 32 then pg_ret n else pg_err Panic)"

definition allocate_page :: "(nat \<times> page_ref) pg" where
  "allocate_page =
     pg_bind (pg_get (\<lambda>p. unat (dh_database_size (pgr_header p)) + 1)) (\<lambda>n.
     pg_bind (u32_checked n) (\<lambda>candidate_size.
     pg_bind (reserve_ptrmap_page candidate_size) (\<lambda>ptrmap_page.
     pg_bind (u32_checked (if ptrmap_page = None then candidate_size else candidate_size + 1)) (\<lambda>candidate_size.
     pg_bind (allocate_page_object 0) (\<lambda>r.
     (\<lambda>p. case insert_new_page candidate_size r p of
        (Inl e, p) \<Rightarrow> pg_bind (unreserve_ptrmap_page ptrmap_page) (\<lambda>_. pg_err e) p
      | (Inr _, p) \<Rightarrow>
          pg_bind (set_dirty r) (\<lambda>_.
          pg_bind (add_dirty candidate_size) (\<lambda>_.
          pg_bind (set_database_size candidate_size) (\<lambda>_.
          pg_bind write_database_header (\<lambda>_. pg_ret (candidate_size, r))))) p))))))"

definition btree_init_page :: "page_type \<Rightarrow> nat \<Rightarrow> u16 \<Rightarrow> page_content \<Rightarrow> page_content res" where
  "btree_init_page t off usable_space c =
     (let c = c\<lparr>pgc_offset := off\<rparr> in
      res_bind (pc_write_u8 c 0 (case t of IndexInterior \<Rightarrow> 2 | TableInterior \<Rightarrow> 5 | IndexLeaf \<Rightarrow> 10 | TableLeaf \<Rightarrow> 13)) (\<lambda>c.
      res_bind (pc_write_u16 c 1 0) (\<lambda>c.
      res_bind (pc_write_u16 c 3 0) (\<lambda>c.
      res_bind (pc_write_u16 c 5 usable_space) (\<lambda>c.
      res_bind (pc_write_u8 c 7 0) (\<lambda>c. pc_write_u32 c 8 0))))))"

text \<open>The requested kind of page number is ignored.\<close>

definition do_allocate_page :: "page_type \<Rightarrow> nat \<Rightarrow> (nat \<times> page_ref) pg" where
  "do_allocate_page t off =
     pg_bind allocate_page (\<lambda>(n, r).
     pg_bind (pg_get usable_space_of) (\<lambda>u.
     pg_bind (pg_res u) (\<lambda>u.
     pg_bind (pg_get (\<lambda>p. btree_init_page t off (word_of_nat u) (pgr_contents p r))) (\<lambda>c.
     pg_bind (pg_res c) (\<lambda>c.
     pg_bind (set_contents r c) (\<lambda>_. pg_ret (n, r)))))))"

section \<open>The pointer map\<close>

text \<open>\<open>ptrmap_get\<close> and \<open>ptrmap_put\<close>, up to the page they work on.\<close>

definition ptrmap_get :: "nat \<Rightarrow> ptrmap_entry option pg" where
  "ptrmap_get target_page_num =
     pg_bind (pg_get page_size_of) (\<lambda>page_size.
     pg_bind (if target_page_num < FIRST_PTRMAP_PAGE_NO then pg_ret True else pg_res (is_ptrmap_page target_page_num page_size)) (\<lambda>skip.
     if skip then pg_ret None
     else
       pg_bind (pg_res (get_ptrmap_page_no_for_db_page target_page_num page_size)) (\<lambda>ptrmap_pg_no.
       pg_bind (pg_res (get_ptrmap_offset_in_page target_page_num ptrmap_pg_no page_size)) (\<lambda>off.
       pg_bind (read_page ptrmap_pg_no) (\<lambda>r.
       pg_bind (pg_get (page_flags r)) (\<lambda>s.
       if pg_locked s \<or> \<not> pg_loaded s then pg_err Panic
       else if \<not> pg_contents s then pg_err (limbo_error.InternalError ''Ptrmap page  content not loaded'')
       else
         pg_bind (pg_get (\<lambda>p. pgr_contents p r)) (\<lambda>c.
         if ptrmap_pg_no \<noteq> 1 \<and> pgc_offset c \<noteq> 0 then pg_err (Corrupt ''Ptrmap page  has unexpected internal offset '')
         else
           pg_bind (pg_res (slice_from (pgc_buffer c) (pgc_offset c))) (\<lambda>data.
           if off + PTRMAP_ENTRY_SIZE > length data then pg_err (limbo_error.InternalError ''Ptrmap offset '')
           else
             pg_bind (pg_res (slice_range data off (off + PTRMAP_ENTRY_SIZE))) (\<lambda>entry.
             case ptrmap_deserialize entry of
               Some e \<Rightarrow> pg_ret (Some e)
             | None \<Rightarrow> pg_err (Corrupt ''Failed to deserialize ptrmap entry for page '')))))))))) "

definition ptrmap_put :: "nat \<Rightarrow> ptrmap_type \<Rightarrow> u32 \<Rightarrow> unit pg" where
  "ptrmap_put db_page_no entry_type parent_page_no =
     pg_bind (pg_get page_size_of) (\<lambda>page_size.
     pg_bind (if db_page_no < FIRST_PTRMAP_PAGE_NO then pg_ret True else pg_res (is_ptrmap_page db_page_no page_size)) (\<lambda>bad.
     if bad then pg_err (limbo_error.InternalError ''Cannot set ptrmap entry for page '')
     else
       pg_bind (pg_res (get_ptrmap_page_no_for_db_page db_page_no page_size)) (\<lambda>ptrmap_pg_no.
       pg_bind (pg_res (get_ptrmap_offset_in_page db_page_no ptrmap_pg_no page_size)) (\<lambda>off.
       pg_bind (read_page ptrmap_pg_no) (\<lambda>r.
       pg_bind (pg_get (page_flags r)) (\<lambda>s.
       if pg_locked s \<or> \<not> pg_loaded s then pg_err Panic
       else if \<not> pg_contents s then pg_err (limbo_error.InternalError ''Ptrmap page  content not loaded'')
       else
         pg_bind (pg_get (\<lambda>p. pgr_contents p r)) (\<lambda>c.
         if off + PTRMAP_ENTRY_SIZE > length (pgc_buffer c) then pg_err (limbo_error.InternalError ''Ptrmap offset '')
         else
           pg_bind (pg_res (slice_range (pgc_buffer c) off (off + PTRMAP_ENTRY_SIZE))) (\<lambda>old.
           pg_bind (pg_res (ptrmap_serialize \<lparr>pm_entry_type = entry_type, pm_parent_page_no = parent_page_no\<rparr> old)) (\<lambda>new.
           pg_bind (pg_res (slice_write (pgc_buffer c) off new)) (\<lambda>b.
           pg_bind (set_contents r (c\<lparr>pgc_buffer := b\<rparr>)) (\<lambda>_.
           pg_bind (set_dirty r) (\<lambda>_. add_dirty ptrmap_pg_no))))))))))))"

text \<open>\<open>btree_create\<close>: the next page number that is no pointer map page is only compared with the page that was allocated.\<close>

fun skip_ptrmap :: "nat \<Rightarrow> nat \<Rightarrow> nat \<Rightarrow> nat res" where
  "skip_ptrmap page_size n 0 = Inl Panic"
| "skip_ptrmap page_size n (Suc k) =
     res_bind (is_ptrmap_page n page_size) (\<lambda>b. if b then skip_ptrmap page_size (n + 1) k else Inr n)"

definition update_largest_root :: "nat \<Rightarrow> unit pg" where
  "update_largest_root n =
     pg_bind (pg_get (\<lambda>p. unat (dh_vacuum_mode_largest_root_page (pgr_header p)))) (\<lambda>m.
     if n > m then
       pg_bind (pg_upd (\<lambda>p. p\<lparr>pgr_header := (pgr_header p)\<lparr>dh_vacuum_mode_largest_root_page := word_of_nat n\<rparr>\<rparr>)) (\<lambda>_. write_database_header)
     else pg_ret ())"

definition btree_create :: "bool \<Rightarrow> nat pg" where
  "btree_create table =
     (let t = (if table then TableLeaf else IndexLeaf) in
      pg_bind (pg_get pgr_auto_vacuum) (\<lambda>mode. case mode of
        VacuumNone \<Rightarrow> pg_bind (do_allocate_page t 0) (\<lambda>(n, _). pg_ret n)
      | VacuumFull \<Rightarrow>
          pg_bind (pg_get (\<lambda>p. unat (dh_vacuum_mode_largest_root_page (pgr_header p)))) (\<lambda>root_page_num.
          if root_page_num = 0 then pg_err Panic
          else
            pg_bind (pg_get (\<lambda>p. skip_ptrmap (page_size_of p) (root_page_num + 1) 3)) (\<lambda>root_page_num.
            pg_bind (pg_res root_page_num) (\<lambda>root_page_num.
            if root_page_num < 3 then pg_err Panic
            else
              pg_bind (do_allocate_page t 0) (\<lambda>(n, _).
              pg_bind (ptrmap_put n RootPage 0) (\<lambda>_.
              pg_bind (update_largest_root n) (\<lambda>_. pg_ret n))))))
      | VacuumIncremental \<Rightarrow> pg_err (InvalidArgument ''incremental auto_vacuum mode is not supported yet; cannot allocate a b-tree root page'')))"

section \<open>The free list\<close>

definition upd_header :: "(database_header \<Rightarrow> database_header) \<Rightarrow> unit pg" where
  "upd_header f = pg_upd (\<lambda>p. p\<lparr>pgr_header := f (pgr_header p)\<rparr>)"

definition write_page_u32 :: "page_ref \<Rightarrow> nat \<Rightarrow> u32 \<Rightarrow> unit pg" where
  "write_page_u32 r pos v =
     pg_bind (pg_get (\<lambda>p. pc_write_u32 (pgr_contents p r) pos v)) (\<lambda>c.
     pg_bind (pg_res c) (set_contents r))"

text \<open>Add the page as a leaf of the trunk page; false when the trunk is full.\<close>

definition free_as_leaf :: "nat \<Rightarrow> nat \<Rightarrow> page_ref \<Rightarrow> bool pg" where
  "free_as_leaf trunk_page_id page_id r =
     pg_bind (read_page trunk_page_id) (\<lambda>t.
     pg_bind (pg_get (page_flags t)) (\<lambda>s.
     if \<not> pg_contents s then pg_err (Corrupt ''free-list trunk page  has no contents loaded'')
     else
       pg_bind (pg_get (\<lambda>p. pc_read_u32 (pgr_contents p t) 4)) (\<lambda>n.
       pg_bind (pg_res n) (\<lambda>number_of_leaf_pages.
       pg_bind (pg_get usable_space_of) (\<lambda>u.
       pg_bind (pg_res u) (\<lambda>u.
       pg_bind (pg_res (usub (u div 4) 2)) (\<lambda>max_free_list_entries.
       if number_of_leaf_pages < word_of_nat max_free_list_entries then
         pg_bind (set_dirty t) (\<lambda>_.
         pg_bind (add_dirty trunk_page_id) (\<lambda>_.
         pg_bind (write_page_u32 t 4 (number_of_leaf_pages + 1)) (\<lambda>_.
         pg_bind (write_page_u32 t (8 + unat number_of_leaf_pages * 4) (word_of_nat page_id)) (\<lambda>_.
         pg_bind (clear_loaded r) (\<lambda>_. pg_ret True)))))
       else pg_ret False)))))))"

definition free_as_trunk :: "u32 \<Rightarrow> nat \<Rightarrow> page_ref \<Rightarrow> unit pg" where
  "free_as_trunk trunk_page_id page_id r =
     pg_bind (set_dirty r) (\<lambda>_.
     pg_bind (add_dirty page_id) (\<lambda>_.
     pg_bind (pg_get (page_flags r)) (\<lambda>s.
     if \<not> pg_contents s then pg_err (Corrupt ''page  being turned into a free-list trunk has no contents loaded'')
     else
       pg_bind (write_page_u32 r 0 trunk_page_id) (\<lambda>_.
       pg_bind (write_page_u32 r 4 0) (\<lambda>_.
       pg_bind (upd_header (\<lambda>h. h\<lparr>dh_freelist_trunk_page := word_of_nat page_id\<rparr>)) (\<lambda>_.
       clear_loaded r))))))"

definition free_page :: "(nat \<times> page_ref) option \<Rightarrow> nat \<Rightarrow> unit pg" where
  "free_page page page_id =
     pg_bind (pg_get (\<lambda>p. unat (dh_database_size (pgr_header p)))) (\<lambda>n.
     if page_id < 2 \<or> page_id > n then pg_err (Corrupt ''Invalid page number  for free operation'')
     else
       pg_bind (case page of Some (i, r) \<Rightarrow> if i = page_id then pg_ret r else pg_err Panic | None \<Rightarrow> read_page page_id) (\<lambda>r.
       pg_bind (upd_header (\<lambda>h. h\<lparr>dh_freelist_pages := dh_freelist_pages h + 1\<rparr>)) (\<lambda>_.
       pg_bind (pg_get (\<lambda>p. dh_freelist_trunk_page (pgr_header p))) (\<lambda>trunk_page_id.
       pg_bind (if trunk_page_id \<noteq> 0 then free_as_leaf (unat trunk_page_id) page_id r else pg_ret False) (\<lambda>done.
       if done then pg_ret () else free_as_trunk trunk_page_id page_id r)))))"

section \<open>Rollback and savepoints\<close>

definition clear_page_cache :: "unit pg" where
  "clear_page_cache =
     pg_bind (pg_upd (\<lambda>p. p\<lparr>pgr_dirty := []\<rparr>)) (\<lambda>_.
     pg_bind (on_cache (\<lambda>c. map_option (\<lambda>c. ((), c)) (unset_dirty_all_pages c))) (\<lambda>_.
     pg_bind (on_cache cache_clear) (\<lambda>r. case r of Inl _ \<Rightarrow> pg_err Panic | Inr _ \<Rightarrow> pg_ret ())))"

definition pager_rollback :: "unit pg" where
  "pager_rollback =
     pg_bind clear_page_cache (\<lambda>_.
     pg_upd (\<lambda>p. p\<lparr>pgr_flush_state := FlushStart, pgr_in_flight := 0, pgr_checkpoint_state := PcCheckpoint, pgr_syncing := False,
       pgr_sh := wal_rollback (pgr_con p) (pgr_sh p), pgr_savepoints := []\<rparr>))"

text \<open>Append a frame; its completion clears the dirty flag of the page object.\<close>

definition wal_append :: "bool \<Rightarrow> nat \<Rightarrow> page_ref \<Rightarrow> u32 \<Rightarrow> unit pg" where
  "wal_append be page_id r db_size =
     pg_bind (pg_get (\<lambda>p. append_frame be page_id (pgc_buffer (pgr_contents p r)) db_size (pgr_con p) (pgr_sh p))) (\<lambda>sh.
     pg_bind (pg_res sh) (\<lambda>sh.
     pg_bind (pg_upd (\<lambda>p. p\<lparr>pgr_sh := sh\<rparr>)) (\<lambda>_. clear_dirty r)))"

fun flush_pages :: "bool \<Rightarrow> u32 \<Rightarrow> nat list \<Rightarrow> unit pg" where
  "flush_pages be db_size [] = pg_ret ()"
| "flush_pages be db_size (n # ns) =
     pg_bind (on_cache (cache_get n)) (\<lambda>page.
     pg_bind (case page of None \<Rightarrow> pg_ret () | Some r \<Rightarrow> wal_append be n r db_size) (\<lambda>_.
     flush_pages be db_size ns))"

definition set_reader_frame :: "nat \<Rightarrow> unit pg" where
  "set_reader_frame frame = pg_upd (\<lambda>p. p\<lparr>pgr_con := set_reader_max_frame frame (pgr_con p)\<rparr>)"

definition flush_dirty_pages_to_wal :: "bool \<Rightarrow> unit pg" where
  "flush_dirty_pages_to_wal be =
     pg_bind (pg_get pgr_dirty) (\<lambda>dirty.
     if dirty = [] then pg_ret ()
     else
       pg_bind (pg_get (\<lambda>p. dh_database_size (pgr_header p))) (\<lambda>db_size.
       pg_bind (flush_pages be db_size dirty) (\<lambda>_.
       pg_bind (pg_upd (\<lambda>p. p\<lparr>pgr_dirty := []\<rparr>)) (\<lambda>_.
       pg_bind (pg_get (\<lambda>p. fst (current_frame_state (pgr_sh p)))) set_reader_frame))))"

definition open_savepoint :: "bool \<Rightarrow> string \<Rightarrow> bool \<Rightarrow> unit pg" where
  "open_savepoint be name is_txn_owner =
     pg_bind (flush_dirty_pages_to_wal be) (\<lambda>_.
     pg_bind (pg_get (\<lambda>p. current_frame_state (pgr_sh p))) (\<lambda>(max_frame, checksum).
     pg_upd (\<lambda>p. p\<lparr>pgr_savepoints := pgr_savepoints p @ [\<lparr>sp_name = name, sp_wal_max_frame = max_frame,
       sp_wal_checksum = checksum, sp_is_transaction_owner = is_txn_owner\<rparr>]\<rparr>)))"

text \<open>\<open>eq_ignore_ascii_case\<close> and \<open>rposition\<close>.\<close>

definition ascii_lower :: "char \<Rightarrow> char" where
  "ascii_lower c = (if 65 \<le> (of_char c :: nat) \<and> (of_char c :: nat) \<le> 90 then char_of ((of_char c :: nat) + 32) else c)"

definition eq_ignore_ascii_case :: "string \<Rightarrow> string \<Rightarrow> bool" where
  "eq_ignore_ascii_case a b = (map ascii_lower a = map ascii_lower b)"

fun rposition :: "('a \<Rightarrow> bool) \<Rightarrow> 'a list \<Rightarrow> nat option" where
  "rposition P [] = None"
| "rposition P (x # xs) = (case rposition P xs of Some i \<Rightarrow> Some (i + 1) | None \<Rightarrow> if P x then Some 0 else None)"

definition find_savepoint :: "string \<Rightarrow> nat pg" where
  "find_savepoint name =
     pg_bind (pg_get (\<lambda>p. rposition (\<lambda>sp. eq_ignore_ascii_case (sp_name sp) name) (pgr_savepoints p))) (\<lambda>i. case i of
       None \<Rightarrow> pg_err (ParseError ''no such savepoint: '')
     | Some i \<Rightarrow> pg_ret i)"

definition rollback_to_savepoint :: "string \<Rightarrow> unit pg" where
  "rollback_to_savepoint name =
     pg_bind (find_savepoint name) (\<lambda>i.
     pg_bind (pg_get (\<lambda>p. slice_idx (pgr_savepoints p) i)) (\<lambda>sp.
     pg_bind (pg_res sp) (\<lambda>sp.
     pg_bind (pg_upd (\<lambda>p. p\<lparr>pgr_savepoints := take (i + 1) (pgr_savepoints p)\<rparr>)) (\<lambda>_.
     pg_bind clear_page_cache (\<lambda>_.
     pg_bind (pg_upd (\<lambda>p. p\<lparr>pgr_sh := rollback_to_frame (sp_wal_max_frame sp) (sp_wal_checksum sp) (pgr_sh p)\<rparr>)) (\<lambda>_.
     pg_bind (set_reader_frame (sp_wal_max_frame sp)) (\<lambda>_.
     pg_upd (\<lambda>p. p\<lparr>pgr_flush_state := FlushStart, pgr_checkpoint_state := PcCheckpoint, pgr_syncing := False\<rparr>))))))))"

definition release_savepoint :: "string \<Rightarrow> bool pg" where
  "release_savepoint name =
     pg_bind (find_savepoint name) (\<lambda>i.
     pg_bind (pg_get (\<lambda>p. slice_idx (pgr_savepoints p) i)) (\<lambda>sp.
     pg_bind (pg_res sp) (\<lambda>sp.
     pg_bind (pg_upd (\<lambda>p. p\<lparr>pgr_savepoints := take i (pgr_savepoints p)\<rparr>)) (\<lambda>_.
     pg_ret (sp_is_transaction_owner sp)))))"

section \<open>Commit\<close>

text \<open>The first state of \<open>cacheflush\<close>: all dirty pages go to the log, and the cache is emptied.\<close>

fun flush_commit :: "bool \<Rightarrow> u32 \<Rightarrow> nat list \<Rightarrow> unit pg" where
  "flush_commit be db_size [] = pg_ret ()"
| "flush_commit be db_size (n # ns) =
     pg_bind (on_cache (cache_get n)) (\<lambda>page. case page of
       None \<Rightarrow> pg_err (limbo_error.InternalError ''cacheflush: page  is in the dirty set but not in the page cache'')
     | Some r \<Rightarrow>
         pg_bind (pg_get (page_flags r)) (\<lambda>s.
         if \<not> pg_contents s then pg_err (limbo_error.InternalError ''cacheflush: dirty page  has no contents loaded'')
         else
           pg_bind (wal_append be n r db_size) (\<lambda>_.
           pg_bind (clear_dirty r) (\<lambda>_. flush_commit be db_size ns))))"

definition cacheflush_start :: "bool \<Rightarrow> unit pg" where
  "cacheflush_start be =
     pg_bind (pg_get (\<lambda>p. dh_database_size (pgr_header p))) (\<lambda>db_size.
     pg_bind (pg_get pgr_dirty) (\<lambda>dirty.
     pg_bind (flush_commit be db_size dirty) (\<lambda>_.
     pg_bind (on_cache cache_clear) (\<lambda>r. case r of
       Inl _ \<Rightarrow> pg_err (limbo_error.InternalError ''cacheflush: page cache clear failed: '')
     | Inr _ \<Rightarrow> pg_upd (\<lambda>p. p\<lparr>pgr_dirty := [], pgr_flush_state := WaitAppendFrames\<rparr>)))))"

text \<open>
  \<open>Pager::checkpoint\<close>: each state of the machine, and the states it falls through to. A result is lost when the
  machine has to wait after the checkpoint of the log is done.
\<close>

definition checkpoint_result_default :: checkpoint_result where
  "checkpoint_result_default = \<lparr>cr_num_wal_frames = 0, cr_num_checkpointed_frames = 0, cr_checkpointed_page_ids = []\<rparr>"

definition set_checkpoint_state :: "pager_checkpoint_state \<Rightarrow> unit pg" where
  "set_checkpoint_state s = pg_upd (\<lambda>p. p\<lparr>pgr_checkpoint_state := s\<rparr>)"

definition pck_done :: "checkpoint_result \<Rightarrow> checkpoint_status pg" where
  "pck_done res =
     pg_bind (pg_get (\<lambda>p. io_write_counter (pgr_io p))) (\<lambda>checkpoint_inflight.
     if checkpoint_inflight > 0 then pg_ret CkIO
     else pg_bind (set_checkpoint_state PcCheckpoint) (\<lambda>_. pg_ret (CkDone res)))"

definition pck_wait_sync :: "checkpoint_result \<Rightarrow> checkpoint_status pg" where
  "pck_wait_sync res =
     pg_bind (pg_get pgr_syncing) (\<lambda>syncing.
     if syncing then pg_ret CkIO
     else pg_bind (set_checkpoint_state PcCheckpointDone) (\<lambda>_. pck_done res))"

definition begin_sync :: "unit pg" where
  "begin_sync = pg_upd (\<lambda>p. p\<lparr>pgr_syncing := True\<rparr>)"

definition pck_sync :: "checkpoint_result \<Rightarrow> checkpoint_status pg" where
  "pck_sync res =
     pg_bind (pg_get pgr_synchronous) (\<lambda>mode.
     if mode = SyncOff then pg_bind (set_checkpoint_state PcCheckpointDone) (\<lambda>_. pck_done res)
     else
       pg_bind begin_sync (\<lambda>_.
       pg_bind (set_checkpoint_state PcWaitSyncDbFile) (\<lambda>_. pck_wait_sync res)))"

definition on_world :: "(wal_world \<Rightarrow> (wal_world \<times> 'a) res option) \<Rightarrow> 'a pg" where
  "on_world f p = (case f (pgr_con p, pgr_sh p, pgr_io p) of
     None \<Rightarrow> (Inl Panic, p)
   | Some (Inl e) \<Rightarrow> (Inl e, p)
   | Some (Inr ((con, sh, io), x)) \<Rightarrow> (Inr x, p\<lparr>pgr_con := con, pgr_sh := sh, pgr_io := io\<rparr>))"

definition pck_checkpoint :: "bool \<Rightarrow> u32 \<Rightarrow> checkpoint_status pg" where
  "pck_checkpoint be random =
     pg_bind (on_world (wal_checkpoint_loop be Passive random)) (\<lambda>status. case status of
       CkIO \<Rightarrow> pg_ret CkIO
     | CkDone res \<Rightarrow> pg_bind (set_checkpoint_state PcSyncDbFile) (\<lambda>_. pck_sync res))"

definition pager_checkpoint :: "bool \<Rightarrow> u32 \<Rightarrow> checkpoint_status pg" where
  "pager_checkpoint be random =
     pg_bind (pg_get pgr_checkpoint_state) (\<lambda>state. case state of
       PcCheckpoint \<Rightarrow> pck_checkpoint be random
     | PcSyncDbFile \<Rightarrow> pck_sync checkpoint_result_default
     | PcWaitSyncDbFile \<Rightarrow> pck_wait_sync checkpoint_result_default
     | PcCheckpointDone \<Rightarrow> pck_done checkpoint_result_default)"

text \<open>\<open>cacheflush\<close>, in the same way.\<close>

datatype cacheflush_result = WalWritten | Checkpointed checkpoint_result

datatype cacheflush_status = FlushDone cacheflush_result | FlushIO

definition set_flush_state :: "flush_state \<Rightarrow> unit pg" where
  "set_flush_state s = pg_upd (\<lambda>p. p\<lparr>pgr_flush_state := s\<rparr>)"

definition cf_wait_sync_db :: "checkpoint_result \<Rightarrow> cacheflush_status pg" where
  "cf_wait_sync_db res =
     pg_bind (pg_get pgr_syncing) (\<lambda>syncing.
     if syncing then pg_ret FlushIO
     else pg_bind (set_flush_state FlushStart) (\<lambda>_. pg_ret (FlushDone (Checkpointed res))))"

definition cf_sync_db :: "checkpoint_result \<Rightarrow> cacheflush_status pg" where
  "cf_sync_db res =
     pg_bind (pg_get pgr_synchronous) (\<lambda>mode.
     if mode = SyncOff then pg_bind (set_flush_state FlushStart) (\<lambda>_. pg_ret (FlushDone (Checkpointed res)))
     else
       pg_bind begin_sync (\<lambda>_.
       pg_bind (set_flush_state WaitSyncDbFile) (\<lambda>_. cf_wait_sync_db res)))"

definition cf_checkpoint :: "bool \<Rightarrow> u32 \<Rightarrow> cacheflush_status pg" where
  "cf_checkpoint be random =
     pg_bind (pager_checkpoint be random) (\<lambda>status. case status of
       CkIO \<Rightarrow> pg_ret FlushIO
     | CkDone res \<Rightarrow> pg_bind (set_flush_state SyncDbFile) (\<lambda>_. cf_sync_db res))"

definition pager_wal_sync :: "wal_fsync_status pg" where
  "pager_wal_sync =
     pg_bind (pg_get (\<lambda>p. wal_sync (pgr_con p))) (\<lambda>(con, status).
     pg_bind (pg_upd (\<lambda>p. p\<lparr>pgr_con := con\<rparr>)) (\<lambda>_. pg_ret status))"

definition cf_sync_wal :: "bool \<Rightarrow> u32 \<Rightarrow> cacheflush_status pg" where
  "cf_sync_wal be random =
     pg_bind (pg_get pgr_synchronous) (\<lambda>mode.
     pg_bind (if mode \<noteq> SyncOff then pager_wal_sync else pg_ret SyncDone) (\<lambda>status.
     if status = SyncIO then pg_ret FlushIO
     else
       pg_bind (pg_get (\<lambda>p. should_checkpoint (pgr_con p) (pgr_sh p))) (\<lambda>should.
       if \<not> should then pg_bind (set_flush_state FlushStart) (\<lambda>_. pg_ret (FlushDone WalWritten))
       else pg_bind (set_flush_state FlushCheckpoint) (\<lambda>_. cf_checkpoint be random))))"

definition cf_wait_append :: "bool \<Rightarrow> u32 \<Rightarrow> cacheflush_status pg" where
  "cf_wait_append be random =
     pg_bind (pg_get pgr_in_flight) (\<lambda>in_flight.
     if in_flight = 0 then pg_bind (set_flush_state SyncWal) (\<lambda>_. cf_sync_wal be random)
     else pg_ret FlushIO)"

definition cacheflush :: "bool \<Rightarrow> u32 \<Rightarrow> cacheflush_status pg" where
  "cacheflush be random =
     pg_bind (pg_get pgr_flush_state) (\<lambda>state. case state of
       FlushStart \<Rightarrow> pg_bind (cacheflush_start be) (\<lambda>_. pg_ret FlushIO)
     | WaitAppendFrames \<Rightarrow> cf_wait_append be random
     | SyncWal \<Rightarrow> cf_sync_wal be random
     | FlushCheckpoint \<Rightarrow> cf_checkpoint be random
     | SyncDbFile \<Rightarrow> cf_sync_db checkpoint_result_default
     | WaitSyncDbFile \<Rightarrow> cf_wait_sync_db checkpoint_result_default)"

section \<open>Transactions\<close>

definition pager_begin_read_tx :: "limbo_result pg" where
  "pager_begin_read_tx =
     pg_bind (pg_get (\<lambda>p. begin_read_tx (pgr_con p) (pgr_sh p))) (\<lambda>(con, sh, r).
     pg_bind (pg_upd (\<lambda>p. p\<lparr>pgr_con := con, pgr_sh := sh\<rparr>)) (\<lambda>_. pg_ret r))"

definition pager_begin_write_tx :: "limbo_result pg" where
  "pager_begin_write_tx =
     pg_bind (pg_get (\<lambda>p. begin_write_tx (pgr_con p) (pgr_sh p))) (\<lambda>(con, sh, r).
     pg_bind (pg_upd (\<lambda>p. p\<lparr>pgr_con := con, pgr_sh := sh\<rparr>)) (\<lambda>_. pg_ret r))"

definition pager_end_read_tx :: "unit pg" where
  "pager_end_read_tx =
     pg_bind (pg_get (\<lambda>p. end_read_tx (pgr_con p) (pgr_sh p))) (\<lambda>sh.
     pg_bind (pg_res sh) (\<lambda>sh. pg_upd (\<lambda>p. p\<lparr>pgr_sh := sh\<rparr>)))"

definition end_tx :: "bool \<Rightarrow> u32 \<Rightarrow> cacheflush_status pg" where
  "end_tx be random =
     pg_bind (cacheflush be random) (\<lambda>status. case status of
       FlushIO \<Rightarrow> pg_ret FlushIO
     | FlushDone _ \<Rightarrow>
         pg_bind (pg_upd (\<lambda>p. p\<lparr>pgr_sh := end_write_tx (pgr_sh p)\<rparr>)) (\<lambda>_.
         pg_bind pager_end_read_tx (\<lambda>_.
         pg_bind (pg_upd (\<lambda>p. p\<lparr>pgr_savepoints := []\<rparr>)) (\<lambda>_. pg_ret status))))"

text \<open>
  The I/O loop: the oldest page request and outstanding syncs complete. \<open>commit_loop\<close> is the commit as the virtual
  machine drives it, calling \<open>end_tx\<close> again after each turn of the I/O loop.
\<close>

definition pager_run_once :: "pager \<Rightarrow> pager" where
  "pager_run_once p = (case run_once (pgr_con p, pgr_sh p, pgr_io p) of
     (con, sh, io) \<Rightarrow> p\<lparr>pgr_con := sync_complete con, pgr_sh := sh, pgr_io := io, pgr_syncing := False\<rparr>)"

partial_function (option) commit_loop :: "bool \<Rightarrow> u32 \<Rightarrow> pager \<Rightarrow> (cacheflush_result res \<times> pager) option" where
  "commit_loop be random p =
     (case end_tx be random p of
        (Inl e, p) \<Rightarrow> Some (Inl e, p)
      | (Inr (FlushDone res), p) \<Rightarrow> Some (Inr res, p)
      | (Inr FlushIO, p) \<Rightarrow> commit_loop be random (pager_run_once p))"

section \<open>Opening, checkpoints on request, closing\<close>

definition finish_open :: "database_header \<Rightarrow> page_cache \<Rightarrow> bytes list \<Rightarrow> wal_file \<Rightarrow> wal_shared \<Rightarrow> wal_io \<Rightarrow> pager" where
  "finish_open h cache pool con sh io =
     \<lparr>pgr_header = h, pgr_cache = cache, pgr_contents = (\<lambda>_. page_content_new 0 []), pgr_next_ref = 0, pgr_pool = pool,
      pgr_dirty = [], pgr_auto_vacuum = VacuumNone, pgr_con = con, pgr_sh = sh, pgr_io = io, pgr_read_error = (\<lambda>_. None),
      pgr_savepoints = [], pgr_flush_state = FlushStart, pgr_in_flight = 0, pgr_checkpoint_state = PcCheckpoint,
      pgr_syncing = False, pgr_synchronous = SyncNormal\<rparr>"

definition refresh_header_inner :: "unit pg" where
  "refresh_header_inner =
     pg_bind (pg_get (\<lambda>p. find_frame (pgr_con p) (pgr_sh p) DATABASE_HEADER_PAGE_ID)) (\<lambda>frame.
     if frame = None then pg_ret ()
     else
       pg_bind (read_page DATABASE_HEADER_PAGE_ID) (\<lambda>r.
       pg_bind (pg_get (page_flags r)) (\<lambda>s.
       if pg_locked s then pg_err Panic
       else if \<not> pg_contents s then
         pg_err (limbo_error.InternalError ''page 1 contents missing while refreshing database header from WAL'')
       else
         pg_bind (pg_get (\<lambda>p. slice_range (pgc_buffer (pgr_contents p r)) 0 100)) (\<lambda>buf.
         pg_bind (pg_res buf) (\<lambda>buf.
         pg_bind (pg_res (parse_database_header_into buf)) (\<lambda>h.
         pg_bind (pg_upd (\<lambda>p. p\<lparr>pgr_header := h\<rparr>)) (\<lambda>_. clear_page_cache)))))))"

definition refresh_header_from_wal :: "unit pg" where
  "refresh_header_from_wal =
     pg_bind pager_begin_read_tx (\<lambda>r.
     if r = LBusy then pg_ret ()
     else (\<lambda>p. case refresh_header_inner p of (result, p) \<Rightarrow>
       pg_bind pager_end_read_tx (\<lambda>_. pg_res result) p))"

definition change_page_cache_size :: "nat \<Rightarrow> cache_resize_result pg" where
  "change_page_cache_size capacity = on_cache (cache_resize capacity)"

text \<open>\<open>evict_checkpointed_pages\<close>: a page that cannot be evicted stays.\<close>

fun evict_checkpointed_pages :: "nat list \<Rightarrow> unit pg" where
  "evict_checkpointed_pages [] = pg_ret ()"
| "evict_checkpointed_pages (n # ns) = pg_bind (on_cache (cache_delete n)) (\<lambda>_. evict_checkpointed_pages ns)"

definition pager_wal_checkpoint_mode :: "bool \<Rightarrow> checkpoint_mode \<Rightarrow> u32 \<Rightarrow> checkpoint_result pg" where
  "pager_wal_checkpoint_mode be mode random =
     pg_bind (on_world (wal_checkpoint_mode be mode random)) (\<lambda>res.
     pg_bind (evict_checkpointed_pages (cr_checkpointed_page_ids res)) (\<lambda>_. pg_ret res))"

fun shutdown_sync :: "nat \<Rightarrow> unit pg" where
  "shutdown_sync 0 = pg_bind pager_wal_sync (\<lambda>status. case status of
     SyncDone \<Rightarrow> pg_ret ()
   | SyncIO \<Rightarrow> pg_err (limbo_error.InternalError ''Failed to fsync WAL before final checkpoint, fd likely closed''))"
| "shutdown_sync (Suc attempts_left) = pg_bind pager_wal_sync (\<lambda>status. case status of
     SyncDone \<Rightarrow> pg_ret ()
   | SyncIO \<Rightarrow> pg_bind (pg_upd pager_run_once) (\<lambda>_. shutdown_sync attempts_left))"

definition checkpoint_shutdown :: "bool \<Rightarrow> u32 \<Rightarrow> unit pg" where
  "checkpoint_shutdown be random =
     pg_bind (pg_get pgr_synchronous) (\<lambda>mode.
     pg_bind (if mode \<noteq> SyncOff then shutdown_sync 10 else pg_ret ()) (\<lambda>_.
     pg_bind (\<lambda>p. case pager_wal_checkpoint_mode be Truncate random p of
         (Inl Panic, p) \<Rightarrow> (Inl Panic, p)
       | (Inl e, p) \<Rightarrow>
           (case pager_wal_checkpoint_mode be Passive random p of (_, p) \<Rightarrow> (Inr (), p))
       | (Inr _, p) \<Rightarrow> (Inr (), p)) (\<lambda>_.
     pg_bind (on_cache cache_clear) (\<lambda>_. pg_ret ()))))"

definition update_dirty_loaded_page_in_cache :: "nat \<Rightarrow> page_ref \<Rightarrow> unit pg" where
  "update_dirty_loaded_page_in_cache n r =
     pg_bind (pg_get (page_flags r)) (\<lambda>s.
     if \<not> pg_dirty s then pg_err Panic
     else
       pg_bind (on_cache (insert_ignore_existing n r)) (\<lambda>ins. case ins of
         Inl _ \<Rightarrow> pg_err (limbo_error.InternalError ''Failed to insert loaded page  into cache: '')
       | Inr _ \<Rightarrow> set_page_flags r (\<lambda>s. s\<lparr>pg_loaded := True\<rparr>)))"

end
