(* ===== verification/PagerCache.thy ===== *)
theory PagerCache
  imports PageCacheProps
begin

text \<open>
  The page cache as the pager sees it: a partial map from page numbers to page objects, and the flags of the
  objects. Looking up changes neither; inserting and deleting may drop pages, but never one that is
  locked or dirty, and they touch the flags of dropped pages only.
\<close>

section \<open>The abstract cache drops pages\<close>

definition lru_inj :: "lru \<Rightarrow> bool" where
  "lru_inj l \<longleftrightarrow> (\<forall>m n r. map_of (lru_items l) m = Some r \<longrightarrow> map_of (lru_items l) n = Some r \<longrightarrow> m = n)"

definition lru_less :: "lru \<Rightarrow> lru \<Rightarrow> bool" where
  "lru_less l l' \<longleftrightarrow> lru_ok l' \<and>
     (\<forall>n r. map_of (lru_items l') n = Some r \<longrightarrow> map_of (lru_items l) n = Some r \<and> lru_pages l' r = lru_pages l r) \<and>
     (\<forall>n r. map_of (lru_items l) n = Some r \<longrightarrow> pinned l r \<longrightarrow> map_of (lru_items l') n = Some r) \<and>
     (\<forall>r. (\<forall>n. map_of (lru_items l) n \<noteq> Some r) \<longrightarrow> lru_pages l' r = lru_pages l r) \<and> pinned l' = pinned l"

lemma lru_less_refl: "lru_ok l \<Longrightarrow> lru_less l l"
  by (simp add: lru_less_def)

lemma lru_lessD:
  assumes "lru_less l l'"
  shows "lru_ok l'" "pinned l' = pinned l"
    "map_of (lru_items l') n = Some r \<Longrightarrow> map_of (lru_items l) n = Some r"
    "map_of (lru_items l') n = Some r \<Longrightarrow> lru_pages l' r = lru_pages l r"
    "map_of (lru_items l) n = Some r \<Longrightarrow> pinned l r \<Longrightarrow> map_of (lru_items l') n = Some r"
    "(\<And>n. map_of (lru_items l) n \<noteq> Some r) \<Longrightarrow> lru_pages l' r = lru_pages l r"
  using assms unfolding lru_less_def by blast+

lemma lru_less_trans:
  assumes "lru_less a b" "lru_less b c"
  shows "lru_less a c"
  unfolding lru_less_def
proof (intro conjI allI impI)
  note ab = lru_lessD [OF assms(1)] and bc = lru_lessD [OF assms(2)]
  show "lru_ok c" "pinned c = pinned a" using ab(2) bc(1,2) by simp_all
  fix n r
  show "map_of (lru_items a) n = Some r" if "map_of (lru_items c) n = Some r"
    using ab(3) bc(3) that by blast
  show "lru_pages c r = lru_pages a r" if "map_of (lru_items c) n = Some r"
    using trans [OF bc(4) [OF that] ab(4) [OF bc(3) [OF that]]] .
  show "map_of (lru_items c) n = Some r" if "map_of (lru_items a) n = Some r" "pinned a r"
    using ab(5) [OF that] that(2) bc(5) ab(2) by simp
  show "lru_pages c r = lru_pages a r" if "\<forall>n. map_of (lru_items a) n \<noteq> Some r"
    using trans [OF bc(6) ab(6)] ab(3) that by blast
qed

lemma lru_less_inj: "lru_inj l \<Longrightarrow> lru_less l l' \<Longrightarrow> lru_inj l'"
  unfolding lru_inj_def by (blast dest: lru_lessD(3))

lemma lru_delete_less:
  assumes "lru_ok l" "lru_inj l" "lru_delete k l = (r, l')"
  shows "lru_less l l'"
  unfolding lru_less_def
proof (intro conjI allI impI)
  note pr = lru_delete_props [OF assms(1,3)]
  show "lru_ok l'" "pinned l' = pinned l" using pr by auto
  fix n q
  show "map_of (lru_items l') n = Some q" if "map_of (lru_items l) n = Some q" "pinned l q"
    using pr(4) [OF that] .
  show "map_of (lru_items l) n = Some q" if "map_of (lru_items l') n = Some q"
    using assms(3) that by (auto simp: lru_delete_def clean_def split: option.splits if_splits)
  show "lru_pages l' q = lru_pages l q" if q: "map_of (lru_items l') n = Some q"
  proof (cases "map_of (lru_items l) k")
    case (Some pg)
    have "pg \<noteq> q" if "n \<noteq> k"
      using assms(2) Some pr(5) [OF that] q that unfolding lru_inj_def by metis
    then show ?thesis using assms(3) q Some by (auto simp: lru_delete_def clean_def split: if_splits)
  qed (use assms(3) in \<open>auto simp: lru_delete_def\<close>)
  show "lru_pages l' q = lru_pages l q" if "\<forall>n. map_of (lru_items l) n \<noteq> Some q"
    using assms(3) that by (auto simp: lru_delete_def clean_def split: option.splits if_splits)
qed

lemma lru_evict_less:
  assumes "lru_ok l" "lru_inj l" "lru_evict need ks l = (need', l')"
  shows "lru_less l l'"
  using assms
proof (induction ks arbitrary: need l)
  case Nil
  then show ?case by (simp add: lru_less_refl)
next
  case (Cons k ks)
  show ?case
  proof (cases "need = 0")
    case True
    then show ?thesis using Cons.prems by (simp add: lru_less_refl)
  next
    case False
    obtain r l1 where d: "lru_delete k l = (r, l1)" by (cases "lru_delete k l")
    have l1: "lru_less l l1" using lru_delete_less [OF Cons.prems(1,2) d] .
    have "lru_evict (case r of Inl _ \<Rightarrow> need | Inr _ \<Rightarrow> need - 1) ks l1 = (need', l')"
      using Cons.prems(3) d False by simp
    then have "lru_less l1 l'"
      using Cons.IH [OF lru_lessD(1) [OF l1] lru_less_inj [OF Cons.prems(2) l1]] by blast
    then show ?thesis using l1 lru_less_trans by blast
  qed
qed

lemma lru_make_room_less:
  assumes "lru_ok l" "lru_inj l" "lru_make_room n l = (r, l')"
  shows "lru_less l l'" "r = Inr () \<or> r = Inl Full"
proof -
  obtain need l1 where e: "lru_evict (n + length (lru_items l) - lru_capacity l) (rev (map fst (lru_items l))) l = (need, l1)"
    by (meson surj_pair)
  show "lru_less l l'" "r = Inr () \<or> r = Inl Full"
    using assms lru_evict_less [OF assms(1,2) e] e by (auto simp: lru_make_room_def Let_def lru_less_refl split: if_splits)
qed

section \<open>The cache\<close>

definition cached :: "page_cache \<Rightarrow> nat \<Rightarrow> page_ref option" where
  "cached c n = (case peek n False c of Some (r, _) \<Rightarrow> r | None \<Rightarrow> None)"

definition cache_ok :: "page_cache \<Rightarrow> bool" where
  "cache_ok c \<longleftrightarrow> (\<exists>l. refines c l) \<and> (\<forall>m n r. cached c m = Some r \<longrightarrow> cached c n = Some r \<longrightarrow> m = n)"

definition busy :: "page_state \<Rightarrow> bool" where
  "busy s \<longleftrightarrow> pg_locked s \<or> pg_dirty s"

text \<open>\<open>drops c c'\<close>: from \<open>c\<close> to \<open>c'\<close>, pages were dropped, but no busy ones.\<close>

definition drops :: "page_cache \<Rightarrow> page_cache \<Rightarrow> bool" where
  "drops c c' \<longleftrightarrow> cache_ok c' \<and>
     (\<forall>n r. cached c' n = Some r \<longrightarrow> cached c n = Some r \<and> pc_pages c' r = pc_pages c r) \<and>
     (\<forall>n r. cached c n = Some r \<longrightarrow> busy (pc_pages c r) \<longrightarrow> cached c' n = Some r) \<and>
     (\<forall>r. (\<forall>n. cached c n \<noteq> Some r) \<longrightarrow> pc_pages c' r = pc_pages c r)"

lemma cached_refines: "refines c l \<Longrightarrow> cached c = map_of (lru_items l)"
  by (rule ext) (simp add: cached_def refines_peek)

lemma pages_refines: "refines c l \<Longrightarrow> pc_pages c = lru_pages l"
  by (auto simp: refines_def lru_of_def)

lemma cache_ok_refines:
  assumes "cache_ok c"
  obtains l where "refines c l" "lru_ok l" "lru_inj l" "cached c = map_of (lru_items l)" "pc_pages c = lru_pages l"
  using assms refines_ok cached_refines pages_refines unfolding cache_ok_def lru_inj_def by metis

lemma cache_okI: "refines c l \<Longrightarrow> lru_inj l \<Longrightarrow> cache_ok c"
  unfolding cache_ok_def lru_inj_def by (auto simp: cached_refines)

lemma dropsD:
  assumes "drops c c'"
  shows "cache_ok c'"
    "cached c' n = Some r \<Longrightarrow> cached c n = Some r"
    "cached c' n = Some r \<Longrightarrow> pc_pages c' r = pc_pages c r"
    "cached c n = Some r \<Longrightarrow> busy (pc_pages c r) \<Longrightarrow> cached c' n = Some r"
    "(\<And>n. cached c n \<noteq> Some r) \<Longrightarrow> pc_pages c' r = pc_pages c r"
  using assms unfolding drops_def by blast+

lemma drops_refines:
  assumes "refines c l" "refines c' l'" "lru_inj l" "lru_less l l'"
  shows "drops c c'"
  unfolding drops_def
proof (intro conjI allI impI)
  note le = lru_lessD [OF assms(4)] and c = cached_refines [OF assms(1)] pages_refines [OF assms(1)]
    and c' = cached_refines [OF assms(2)] pages_refines [OF assms(2)]
  show "cache_ok c'" using cache_okI [OF assms(2) lru_less_inj [OF assms(3,4)]] .
  fix n r
  show "cached c n = Some r" if "cached c' n = Some r" using le(3) that unfolding c c' .
  show "pc_pages c' r = pc_pages c r" if "cached c' n = Some r" using le(4) that unfolding c c' .
  show "cached c' n = Some r" if "cached c n = Some r" "busy (pc_pages c r)"
    using le(5) that unfolding c c' by (simp add: busy_def pinned_def)
  show "pc_pages c' r = pc_pages c r" if "\<forall>n. cached c n \<noteq> Some r"
    using le(6) that unfolding c c' by blast
qed

lemma drops_refl [simp]: "cache_ok c \<Longrightarrow> drops c c"
  by (simp add: drops_def)

lemma cache_get_ok:
  assumes "cache_ok c"
  obtains c' where "cache_get k c = Some (cached c k, c')" "cache_ok c'" "cached c' = cached c" "pc_pages c' = pc_pages c"
proof -
  obtain l where l: "refines c l" "lru_ok l" "lru_inj l" "cached c = map_of (lru_items l)" "pc_pages c = lru_pages l"
    using cache_ok_refines [OF assms] .
  obtain r l' where p: "lru_peek k True l = (r, l')" by (cases "lru_peek k True l")
  note pr = lru_peek_props [OF l(2) p]
  obtain c' where c': "cache_get k c = Some (r, c')" "refines c' l'"
    using pc_exec_refines [OF l(1), of "PGet k"] p by auto
  show thesis
    using that [of c'] c' pr l cache_okI [OF c'(2)] by (simp add: cached_refines pages_refines lru_inj_def)
qed

lemma cache_insert_ok:
  assumes "cache_ok c" "cached c k = None" "\<And>n. cached c n \<noteq> Some r"
  obtains c' where "cache_insert k r c = Some (Inl Full, c')" "drops c c'"
  | c' where "cache_insert k r c = Some (Inr (), c')" "cache_ok c'" "cached c' k = Some r"
    "pc_pages c' r = pc_pages c r"
    "\<And>n q. n \<noteq> k \<Longrightarrow> cached c' n = Some q \<Longrightarrow> cached c n = Some q \<and> pc_pages c' q = pc_pages c q"
    "\<And>n q. cached c n = Some q \<Longrightarrow> busy (pc_pages c q) \<Longrightarrow> cached c' n = Some q"
    "\<And>q. (\<And>n. cached c n \<noteq> Some q) \<Longrightarrow> pc_pages c' q = pc_pages c q"
proof -
  obtain l where l: "refines c l" "lru_ok l" "lru_inj l" "cached c = map_of (lru_items l)" "pc_pages c = lru_pages l"
    using cache_ok_refines [OF assms(1)] .
  obtain res l' where i: "lru_insert k r l = (res, l')" by (cases "lru_insert k r l")
  obtain c' where c': "cache_insert k r c = Some (res, c')" "refines c' l'"
    using pc_exec_refines [OF l(1), of "PInsert k r"] i by auto
  have none: "map_of (lru_items l) k = None" using assms(2) l(4) by simp
  show thesis
    using l(2) i
  proof (cases rule: lru_insert_cases)
    case 1
    then show ?thesis using none by simp
  next
    case 2
    then show ?thesis using that(1) c' lru_make_room_less [OF l(2,3) 2(2)] drops_refines [OF l(1) c'(2) l(3)] by auto
  next
    case (3 l1)
    note le = lru_make_room_less(1) [OF l(2,3) 3(2)]
    have fresh: "map_of (lru_items l) n \<noteq> Some r" for n using assms(3) l(4) by simp
    have c1: "cached c' = (map_of (lru_items l1))(k \<mapsto> r)" "pc_pages c' = lru_pages l1"
      using cached_refines [OF c'(2)] pages_refines [OF c'(2)] 3(4) by simp_all
    note leD = lru_lessD [OF le]
    have none1: "map_of (lru_items l1) n \<noteq> Some r" for n using leD(3) fresh by blast
    have "lru_inj l'" using lru_less_inj [OF l(3) le] none1 3(4) by (auto simp: lru_inj_def)
    then have ok: "cache_ok c'" using cache_okI [OF c'(2)] by blast
    show ?thesis
    proof (rule that(2) [of c'])
      show "cache_insert k r c = Some (Inr (), c')" using c' 3(3) by simp
      show "cached c' k = Some r" using c1 by simp
      show "pc_pages c' r = pc_pages c r" using leD(6) fresh unfolding c1 l(5) by blast
      show "cached c n = Some q \<and> pc_pages c' q = pc_pages c q" if "n \<noteq> k" "cached c' n = Some q" for n q
        using leD(3,4) that unfolding c1 l(4,5) by simp
      show "cached c' n = Some q" if "cached c n = Some q" "busy (pc_pages c q)" for n q
      proof -
        have "n \<noteq> k" using that(1) none l(4) by auto
        then show ?thesis using leD(5) that unfolding c1 l(4,5) by (simp add: pinned_def busy_def)
      qed
      show "pc_pages c' q = pc_pages c q" if "\<And>n. cached c n \<noteq> Some q" for q
        using leD(6) that unfolding c1 l(4,5) by blast
    qed (rule ok)
  qed
qed

lemma cache_insert_exists:
  assumes "cache_ok c" "cached c k = Some x"
  obtains e c' where "cache_insert k r c = Some (Inl e, c')" "cache_ok c'" "cached c' = cached c" "pc_pages c' = pc_pages c"
proof -
  obtain l where l: "refines c l" "lru_ok l" "lru_inj l" "cached c = map_of (lru_items l)" "pc_pages c = lru_pages l"
    using cache_ok_refines [OF assms(1)] .
  obtain res l' where i: "lru_insert k r l = (res, l')" by (cases "lru_insert k r l")
  obtain c' where c': "cache_insert k r c = Some (res, c')" "refines c' l'"
    using pc_exec_refines [OF l(1), of "PInsert k r"] i by auto
  show thesis
    using l(2) i
  proof (cases rule: lru_insert_cases)
    case (1 l1)
    note pr = lru_peek_props [OF l(2) 1(3)]
    obtain e where "res = Inl e" using 1(2) by (cases res) auto
    then show ?thesis
      using that [of e c'] c' 1(4) pr l cache_okI [OF c'(2)] by (simp add: cached_refines pages_refines lru_inj_def)
  qed (use assms(2) l(4) in simp_all)
qed

lemma cache_delete_ok:
  assumes "cache_ok c"
  obtains res c' where "cache_delete k c = Some (res, c')" "drops c c'" "\<And>n. n \<noteq> k \<Longrightarrow> cached c' n = cached c n"
    "\<And>r. cached c k = Some r \<Longrightarrow> \<not> busy (pc_pages c r) \<Longrightarrow> cached c' k = None"
proof -
  obtain l where l: "refines c l" "lru_ok l" "lru_inj l" "cached c = map_of (lru_items l)" "pc_pages c = lru_pages l"
    using cache_ok_refines [OF assms] .
  obtain res l' where d: "lru_delete k l = (res, l')" by (cases "lru_delete k l")
  obtain c' where c': "cache_delete k c = Some (res, c')" "refines c' l'"
    using pc_exec_refines [OF l(1), of "PDelete k"] d by auto
  show thesis
  proof (rule that [OF c'(1) drops_refines [OF l(1) c'(2) l(3) lru_delete_less [OF l(2,3) d]]])
    show "cached c' n = cached c n" if "n \<noteq> k" for n
      using lru_delete_props(5) [OF l(2) d that] by (simp add: cached_refines [OF c'(2)] l(4))
    show "cached c' k = None" if "cached c k = Some r" "\<not> busy (pc_pages c r)" for r
      using that d l(4,5) by (auto simp: cached_refines [OF c'(2)] lru_delete_def busy_def split: if_splits)
  qed
qed

lemma cache_set_flags_ok:
  assumes "cache_ok c"
  shows "cache_ok (c\<lparr>pc_pages := (pc_pages c)(r := s)\<rparr>)" "cached (c\<lparr>pc_pages := (pc_pages c)(r := s)\<rparr>) = cached c"
proof -
  obtain l where l: "refines c l" "lru_ok l" "lru_inj l" "cached c = map_of (lru_items l)" "pc_pages c = lru_pages l"
    using cache_ok_refines [OF assms] .
  have c': "refines (c\<lparr>pc_pages := (pc_pages c)(r := s)\<rparr>) (l\<lparr>lru_pages := (lru_pages l)(r := s)\<rparr>)"
    using pc_exec_refines [OF l(1), of "PSetPage r s"] by simp
  then show "cache_ok (c\<lparr>pc_pages := (pc_pages c)(r := s)\<rparr>)" "cached (c\<lparr>pc_pages := (pc_pages c)(r := s)\<rparr>) = cached c"
    using cache_okI [OF c'] cached_refines [OF c'] l by (simp_all add: lru_inj_def)
qed

lemma cache_clear_ok:
  assumes "cache_ok c" "\<And>n r. cached c n = Some r \<Longrightarrow> \<not> busy (pc_pages c r)"
  obtains c' where "cache_clear c = Some (Inr (), c')" "cache_ok c'" "\<And>n. cached c' n = None"
proof -
  obtain l where l: "refines c l" "lru_ok l" "lru_inj l" "cached c = map_of (lru_items l)" "pc_pages c = lru_pages l"
    using cache_ok_refines [OF assms(1)] .
  obtain ps where ps: "pc_rep c ps" "l = lru_of c ps" using l(1) by (auto simp: refines_def)
  have "\<not> pg_locked (pc_pages c (snd x)) \<and> \<not> pg_dirty (pc_pages c (snd x))" if "x \<in> set (items_of c ps)" for x
  proof -
    have "map_of (items_of c ps) (fst x) = Some (snd x)"
      using that rep_keys [OF ps(1)] by (intro map_of_is_SomeI) simp_all
    then show ?thesis using assms(2) l(4) ps(2) by (simp add: lru_of_def busy_def)
  qed
  then obtain c' where c': "clear_loop (first_of ps None) c = Some (Inr (), c')" "pc_rep c' []"
    using clear_loop_ok [OF ps(1)] by blast
  have "pc_head c = first_of ps None" using ps(1) by (simp add: pc_rep_def linked_def)
  moreover have "pc_head c' = None" "pc_tail c' = None" "hm_is_empty (pc_map c')"
    using c'(2) len_rep [OF c'(2)] by (auto simp: pc_rep_def linked_def hm_is_empty_def hm_len_def cache_len_def)
  ultimately have cl: "cache_clear c = Some (Inr (), c')" using c'(1) by (simp add: cache_clear_def Let_def)
  have r: "refines c' (lru_of c' [])" using c'(2) by (auto simp: refines_def)
  have none: "cached c' n = None" for n using cached_refines [OF r] by (simp add: lru_of_def items_of_def)
  show thesis using that [OF cl] none r by (auto simp: cache_ok_def)
qed

lemma unset_dirty_ok:
  assumes "cache_ok c"
  obtains c' where "unset_dirty_all_pages c = Some c'" "cache_ok c'" "cached c' = cached c"
    "\<And>r. pg_locked (pc_pages c' r) = pg_locked (pc_pages c r)"
    "\<And>n r. cached c n = Some r \<Longrightarrow> \<not> pg_dirty (pc_pages c' r)"
proof -
  obtain l where l: "refines c l" "lru_ok l" "lru_inj l" "cached c = map_of (lru_items l)" "pc_pages c = lru_pages l"
    using cache_ok_refines [OF assms] .
  obtain c' where c': "unset_dirty_all_pages c = Some c'" "refines c' (lru_unset_dirty l)"
    using pc_exec_refines [OF l(1), of PUnsetDirty] by auto
  have "cache_ok c'" "cached c' = cached c"
    using cache_okI [OF c'(2)] l(3,4) by (simp_all add: cached_refines [OF c'(2)] lru_unset_dirty_def lru_inj_def)
  moreover have "pg_locked (pc_pages c' r) = pg_locked (pc_pages c r)" for r
    by (simp add: pages_refines [OF c'(2)] l(5) lru_unset_dirty_def)
  moreover have "\<not> pg_dirty (pc_pages c' r)" if "cached c n = Some r" for n r
    using that by (auto simp: pages_refines [OF c'(2)] l(4) lru_unset_dirty_def dest!: map_of_SomeD) force
  ultimately show thesis using that c'(1) by blast
qed

end
