(* ===== verification/CellProps.thy ===== *)
theory CellProps
  imports PageCell RecordProps
begin

text \<open>
  Properties of b-tree cells: reading a cell of an arbitrary page never panics, the kind of the cell is
  that of its page, and a leaf cell that was written reads back, through its overflow pages, as the
  row id and the payload it was made from.
\<close>

section \<open>Results without a panic\<close>

definition no_panic :: "'a res \<Rightarrow> bool" where
  "no_panic r = (case r of Inl e \<Rightarrow> is_corrupt e | Inr _ \<Rightarrow> True)"

lemma no_panic_simps [simp]: "no_panic (Inr x)" "no_panic (Inl (Corrupt s))"
  by (simp_all add: no_panic_def is_corrupt_def)

lemma no_panic_bind:
  assumes "no_panic m" and "\<And>x. m = Inr x \<Longrightarrow> no_panic (f x)"
  shows "no_panic (res_bind m f)"
  using assms by (cases m) (auto simp: no_panic_def)

lemma no_panic_read_varint [simp]: "no_panic (read_varint b)"
proof (cases "read_varint b")
  case (Inl e)
  then have "e = Corrupt ''Invalid varint''"
    using read_varint_loop_error [of b 0 0 e] by (simp add: read_varint_def)
  with Inl show ?thesis by simp
qed simp

lemma payload_overflows_eq:
  assumes "mn \<le> mx" "4 < us"
  shows "payload_overflows n mx mn us =
    Inr (if n \<le> mx then (False, 0)
         else (True, (if mn + (n - mn) mod (us - 4) > mx then mn else mn + (n - mn) mod (us - 4)) + 4))"
  using assms by (simp add: payload_overflows_def Let_def)

lemma no_panic_read_payload: "no_panic (read_payload b n)"
  by (auto simp: read_payload_def Let_def)

lemma no_panic_read_local_payload:
  assumes "mn \<le> mx" "4 < us" "pos \<le> length page"
  shows "no_panic (read_local_payload page pos n mx mn us)"
  unfolding read_local_payload_def payload_overflows_eq [OF assms(1,2)]
  using assms(3) by (auto intro!: no_panic_read_payload)

lemma no_panic_varint_at:
  assumes "pos \<le> length page" and "\<And>v n. 1 \<le> n \<Longrightarrow> pos + n \<le> length page \<Longrightarrow> no_panic (f (v, n))"
  shows "no_panic (res_bind (read_varint (drop pos page)) f)"
proof (rule no_panic_bind)
  fix x assume x: "read_varint (drop pos page) = Inr x"
  obtain v n where "x = (v, n)" by (cases x)
  then show "no_panic (f x)" using assms read_varint_size [of "drop pos page" v n] x by auto
qed simp

lemma no_panic_read_btree_cell:
  assumes "mn \<le> mx" "4 < us"
  shows "no_panic (read_btree_cell page t pos mx mn us)"
  using assms
  by (cases t)
    (auto simp: read_btree_cell_def Let_def intro!: no_panic_varint_at
      no_panic_bind [of "read_local_payload _ _ _ _ _ _"] no_panic_read_local_payload)

lemma no_panic_cell_pointer:
  assumes "pgc_offset pg + 5 \<le> length (pgc_buffer pg)"
  shows "no_panic (validate_btree_page_type pg)"
    "\<And>t. validate_btree_page_type pg = Inr t \<Longrightarrow> pc_page_type pg = Inr t"
    "\<exists>n. cell_count pg = Inr n"
  using assms
  by (auto simp: validate_btree_page_type_def pc_page_type_def pc_read_u8_def page_type_try_from_def
      cell_count_def pc_read_u16_def)

lemma no_panic_cell_get:
  assumes "mn \<le> mx" "4 < us" "pgc_offset pg + 5 \<le> length (pgc_buffer pg)"
  shows "no_panic (cell_get pg idx mx mn us)"
  unfolding cell_get_def
  by (rule no_panic_bind, rule no_panic_cell_pointer(1) [OF assms(3)])
    (use no_panic_cell_pointer(2,3) [OF assms(3)] assms in
      \<open>auto simp: header_size_of_def Let_def pc_read_u16_def intro!: no_panic_read_btree_cell\<close>)

lemma no_panic_region_len:
  assumes "mn \<le> mx" "4 < us"
  shows "no_panic (region_len n k mx mn us)"
  by (simp add: region_len_def payload_overflows_eq [OF assms])

lemma no_panic_raw_cell_len:
  assumes "mn \<le> mx" "4 < us" "start + 4 \<le> length buf"
  shows "no_panic (raw_cell_len buf t start mx mn us)"
  using assms
  by (cases t) (auto simp: raw_cell_len_def intro!: no_panic_varint_at no_panic_region_len)

lemma no_panic_cell_get_raw_region:
  assumes "mn \<le> mx" "4 < us" "pgc_offset pg + 5 \<le> length (pgc_buffer pg)"
  shows "no_panic (cell_get_raw_region pg idx mx mn us)"
  unfolding cell_get_raw_region_def
  by (rule no_panic_bind, rule no_panic_cell_pointer(1) [OF assms(3)])
    (use no_panic_cell_pointer(2,3) [OF assms(3)] assms in
      \<open>auto simp: cell_pointer_array_offset_and_size_def cell_pointer_array_size_def header_size_of_def Let_def
        pc_read_u16_no_offset_def intro!: no_panic_bind [of "raw_cell_len _ _ _ _ _ _"] no_panic_raw_cell_len\<close>)

lemma thresholds:
  assumes "480 \<le> unat us"
  obtains mx mn where "payload_overflow_threshold_max t us = Inr mx" "payload_overflow_threshold_min t us = Inr mn"
    "mn + 4 < mx" "35 \<le> mn" "mx + 35 \<le> unat us"
proof -
  define u where "u = unat us"
  define a where "a = (u - 12) * 32 div 255"
  define b where "b = (u - 12) * 64 div 255"
  have u: "480 \<le> u" using assms by (simp add: u_def)
  then have "58 * 255 \<le> (u - 12) * 32" by linarith
  then have ab: "58 \<le> a" "a + 4 < b" "b + 12 \<le> u"
    using u unfolding a_def b_def by linarith+
  let ?mx = "if is_table t then u - 35 else b - 23"
  show thesis
  proof (rule that)
    show "payload_overflow_threshold_max t us = Inr ?mx"
      using ab u by (cases t) (simp_all add: payload_overflow_threshold_max_def is_table_def flip: u_def b_def)
    show "payload_overflow_threshold_min t us = Inr (a - 23)"
      using ab u by (simp add: payload_overflow_threshold_min_def flip: u_def a_def)
  qed (use ab u in \<open>auto simp flip: u_def\<close>)
qed

section \<open>The chain of overflow pages\<close>

text \<open>
  What \<open>fill_cell_payload\<close> needs of the pager: a page that is handed out was not in use, its number is
  positive and fits 32 bits, and pages in use stay in use.
\<close>

locale page_allocator =
  fixes alloc :: "'p \<Rightarrow> nat res \<times> 'p" and in_use :: "'p \<Rightarrow> nat set"
  assumes alloc_fresh: "alloc st = (Inr n, st') \<Longrightarrow>
      n \<notin> in_use st \<and> 0 < n \<and> n < 2 ^ 32 \<and> insert n (in_use st) \<subseteq> in_use st'"
    and alloc_error: "alloc st = (Inl e, st') \<Longrightarrow> in_use st \<subseteq> in_use st'"

text \<open>\<open>chain pages u ns data\<close>: the pages \<open>ns\<close>, linked in this order, hold \<open>data\<close>, \<open>u\<close> bytes each.\<close>

definition next_of :: "nat list \<Rightarrow> u32" where
  "next_of ns = (case ns of [] \<Rightarrow> 0 | n # _ \<Rightarrow> word_of_nat n)"

fun chain :: "(nat \<Rightarrow> bytes option) \<Rightarrow> nat \<Rightarrow> nat list \<Rightarrow> bytes \<Rightarrow> bool" where
  "chain pages u [] data = False"
| "chain pages u (n # ns) data =
     (\<exists>b. pages n = Some b \<and> u + 4 \<le> length b \<and> 0 < n \<and> n < 2 ^ 32 \<and>
        take 4 b = to_be 4 (next_of ns) \<and>
        take (min (length data) u) (drop 4 b) = take u data \<and>
        (if length data \<le> u then ns = [] else chain pages u ns (drop u data)))"

context page_allocator
begin

lemma fill_page:
  assumes "0 < u" "u + 4 \<le> psz" "fl_pages s n = Some (replicate psz 0)" "0 < n" "n < 2 ^ 32" "n \<in> in_use (fl_pager s)"
  shows "\<exists>r s'. fill_loop alloc psz (u + 4) (InPage n) u buf s = Some (r, s') \<and> fl_cell s' = fl_cell s \<and>
    in_use (fl_pager s) \<subseteq> in_use (fl_pager s') \<and>
    (\<forall>m\<in>in_use (fl_pager s). m \<noteq> n \<longrightarrow> fl_pages s' m = fl_pages s m) \<and>
    (case r of Inl e \<Rightarrow> \<exists>st st'. alloc st = (Inl e, st') | Inr _ \<Rightarrow> \<exists>ns. chain (fl_pages s') u (n # ns) buf)"
  using assms
proof (induction "length buf" arbitrary: buf s n rule: less_induct)
  case less
  note us = \<open>0 < u\<close> \<open>u + 4 \<le> psz\<close>
  define k where "k = min u (length buf)"
  define b where "b = replicate 4 0 @ take k buf @ replicate (psz - 4 - k) (0 :: u8)"
  define s1 where "s1 = s\<lparr>fl_pages := (fl_pages s)(n := Some b)\<rparr>"
  have k: "4 + k \<le> psz" "k \<le> length buf" using us by (simp_all add: k_def)
  then have w: "write_data (InPage n) (take k buf) s = Inr s1"
    using less.prems(3) by (simp add: write_page_def s1_def b_def)
  have b4: "take 4 b = to_be 4 (0 :: u32)" "length b = psz" "take k (drop 4 b) = take k buf"
    using k unfolding to_be_zero by (simp_all add: b_def)
  show ?case
  proof (cases "length buf \<le> u")
    case True
    then have kb: "k = length buf" by (simp add: k_def)
    then have "fill_loop alloc psz (u + 4) (InPage n) u buf s = Some (Inr (), s1)"
      using w True by (subst fill_loop.simps) (simp add: Let_def min_def del: write_data.simps)
    moreover have "chain (fl_pages s1) u [n] buf"
      using less.prems True b4 kb by (simp add: s1_def next_of_def)
    moreover have "fl_cell s1 = fl_cell s" "fl_pager s1 = fl_pager s" "\<forall>m. m \<noteq> n \<longrightarrow> fl_pages s1 m = fl_pages s m"
      by (simp_all add: s1_def)
    ultimately show ?thesis by auto
  next
    case False
    then have ku: "k = u" by (simp add: k_def)
    obtain r st where a: "alloc (fl_pager s) = (r, st)" by (cases "alloc (fl_pager s)")
    show ?thesis
    proof (cases r)
      case (Inl e)
      then have "fill_loop alloc psz (u + 4) (InPage n) u buf s = Some (Inl e, s1\<lparr>fl_pager := st\<rparr>)"
        using w False a by (subst fill_loop.simps) (simp add: ku Let_def min_def allocate_overflow_page_def s1_def del: write_data.simps)
      then show ?thesis using a Inl alloc_error [of "fl_pager s" e st] by (auto simp: s1_def)
    next
      case (Inr m)
      then have m: "m \<notin> in_use (fl_pager s)" "0 < m" "m < 2 ^ 32" "insert m (in_use (fl_pager s)) \<subseteq> in_use st"
        using alloc_fresh [of "fl_pager s" m st] a by auto
      then have mn: "m \<noteq> n" using less.prems by auto
      define b' where "b' = to_be 4 (word_of_nat m :: u32) @ drop 4 b"
      define s2 where "s2 = s\<lparr>fl_pager := st, fl_pages := (fl_pages s)(n := Some b', m := Some (replicate psz 0))\<rparr>"
      have "write_next (InPage n) (to_be 4 (word_of_nat m :: u32))
          (s1\<lparr>fl_pager := st, fl_pages := (fl_pages s1)(m := Some (replicate psz 0))\<rparr>) = Inr s2"
        using mn us b4(2) by (simp add: s1_def write_page_def s2_def b'_def fun_upd_twist)
      then have step: "fill_loop alloc psz (u + 4) (InPage n) u buf s =
          fill_loop alloc psz (u + 4) (InPage m) u (drop u buf) s2"
        using w False a Inr ku
        by (subst fill_loop.simps)
          (simp add: Let_def min_def allocate_overflow_page_def s1_def del: write_data.simps write_next.simps)
      have "length (drop u buf) < length buf" using us False by simp
      moreover have "fl_pages s2 m = Some (replicate psz 0)" "m \<in> in_use (fl_pager s2)"
        using m by (simp_all add: s2_def)
      ultimately obtain r s' where r: "fill_loop alloc psz (u + 4) (InPage m) u (drop u buf) s2 = Some (r, s')"
        "fl_cell s' = fl_cell s2" "in_use (fl_pager s2) \<subseteq> in_use (fl_pager s')"
        "\<forall>j\<in>in_use (fl_pager s2). j \<noteq> m \<longrightarrow> fl_pages s' j = fl_pages s2 j"
        "case r of Inl e \<Rightarrow> \<exists>st st'. alloc st = (Inl e, st')
          | Inr _ \<Rightarrow> \<exists>ns. chain (fl_pages s') u (m # ns) (drop u buf)"
        using less.hyps [of "drop u buf" s2 m] us m(2,3) by blast
      have n: "fl_pages s' n = Some b'" using r(4) less.prems m mn by (auto simp: s2_def)
      have ch: "chain (fl_pages s') u (n # m # ns) buf" if "chain (fl_pages s') u (m # ns) (drop u buf)" for ns
        unfolding chain.simps(2) [of "fl_pages s'" u n]
        using that n less.prems False b4 ku by (intro exI [of _ b']) (simp add: b'_def next_of_def del: chain.simps)
      have fr: "\<forall>j\<in>in_use (fl_pager s). j \<noteq> n \<longrightarrow> fl_pages s' j = fl_pages s j"
        using r(4) m by (auto simp: s2_def)
      have "case r of Inl e \<Rightarrow> \<exists>st st'. alloc st = (Inl e, st') | Inr _ \<Rightarrow> \<exists>ns. chain (fl_pages s') u (n # ns) buf"
        using r(5) ch by (cases r) (auto simp del: chain.simps)
      moreover have "fl_cell s' = fl_cell s" "in_use (fl_pager s) \<subseteq> in_use (fl_pager s')"
        using r(2,3) m by (auto simp: s2_def)
      ultimately show ?thesis using step r(1) fr by auto
    qed
  qed
qed

lemma fill_in_cell:
  assumes "0 < u" "u + 4 \<le> psz" "fl_cell s = prefix @ replicate (sp + 4) 0" "sp < length buf"
  shows "\<exists>r s'. fill_loop alloc psz (u + 4) (InCell (length prefix) (length prefix + sp)) sp buf s = Some (r, s') \<and>
    length (fl_cell s') = length prefix + sp + 4 \<and> in_use (fl_pager s) \<subseteq> in_use (fl_pager s') \<and>
    (\<forall>m\<in>in_use (fl_pager s). fl_pages s' m = fl_pages s m) \<and>
    (case r of Inl e \<Rightarrow> \<exists>st st'. alloc st = (Inl e, st')
     | Inr _ \<Rightarrow> \<exists>n ns. fl_cell s' = prefix @ take sp buf @ to_be 4 (word_of_nat n :: u32) \<and>
          chain (fl_pages s') u (n # ns) (drop sp buf))"
proof -
  define s1 where "s1 = s\<lparr>fl_cell := prefix @ take sp buf @ replicate 4 0\<rparr>"
  have w: "write_data (InCell (length prefix) (length prefix + sp)) (take sp buf) s = Inr s1"
    using assms(3,4) by (simp add: s1_def)
  obtain r st where a: "alloc (fl_pager s) = (r, st)" by (cases "alloc (fl_pager s)")
  show ?thesis
  proof (cases r)
    case (Inl e)
    then have "fill_loop alloc psz (u + 4) (InCell (length prefix) (length prefix + sp)) sp buf s =
        Some (Inl e, s1\<lparr>fl_pager := st\<rparr>)"
      using w assms(4) a by (subst fill_loop.simps)
        (simp add: Let_def min_def allocate_overflow_page_def s1_def del: write_data.simps)
    then show ?thesis using a Inl assms(4) alloc_error [of "fl_pager s" e st] by (auto simp: s1_def)
  next
    case (Inr m)
    then have m: "m \<notin> in_use (fl_pager s)" "0 < m" "m < 2 ^ 32" "insert m (in_use (fl_pager s)) \<subseteq> in_use st"
      using alloc_fresh [of "fl_pager s" m st] a by auto
    define s2 where "s2 = s\<lparr>fl_pager := st, fl_pages := (fl_pages s)(m := Some (replicate psz 0)),
      fl_cell := prefix @ take sp buf @ to_be 4 (word_of_nat m :: u32)\<rparr>"
    have "write_next (InCell (length prefix) (length prefix + sp)) (to_be 4 (word_of_nat m :: u32))
        (s1\<lparr>fl_pager := st, fl_pages := (fl_pages s1)(m := Some (replicate psz 0))\<rparr>) = Inr s2"
      using assms(4) by (simp add: s1_def s2_def)
    then have step: "fill_loop alloc psz (u + 4) (InCell (length prefix) (length prefix + sp)) sp buf s =
        fill_loop alloc psz (u + 4) (InPage m) u (drop sp buf) s2"
      using w assms(4) a Inr by (subst fill_loop.simps)
        (simp add: Let_def min_def allocate_overflow_page_def s1_def del: write_data.simps write_next.simps)
    have "fl_pages s2 m = Some (replicate psz 0)" "m \<in> in_use (fl_pager s2)" using m by (simp_all add: s2_def)
    then obtain r s' where r: "fill_loop alloc psz (u + 4) (InPage m) u (drop sp buf) s2 = Some (r, s')"
      "fl_cell s' = fl_cell s2" "in_use (fl_pager s2) \<subseteq> in_use (fl_pager s')"
      "\<forall>j\<in>in_use (fl_pager s2). j \<noteq> m \<longrightarrow> fl_pages s' j = fl_pages s2 j"
      "case r of Inl e \<Rightarrow> \<exists>st st'. alloc st = (Inl e, st')
        | Inr _ \<Rightarrow> \<exists>ns. chain (fl_pages s') u (m # ns) (drop sp buf)"
      using fill_page [of u psz s2 m "drop sp buf"] assms(1,2) m(2,3) by blast
    have "\<forall>j\<in>in_use (fl_pager s). fl_pages s' j = fl_pages s j" "in_use (fl_pager s) \<subseteq> in_use (fl_pager s')"
      using r(3,4) m by (auto simp: s2_def)
    moreover have "fl_cell s' = prefix @ take sp buf @ to_be 4 (word_of_nat m :: u32)"
      using r(2) by (simp add: s2_def)
    moreover have "length (fl_cell s') = length prefix + sp + 4" using calculation(3) assms(4) by simp
    ultimately show ?thesis
      using step r(1,5) by (cases r) (auto simp del: chain.simps)
  qed
qed

end

section \<open>Writing a cell\<close>

lemma spill:
  assumes "480 \<le> unat us" "payload_overflow_threshold_max t us = Inr mx" "mx < n"
  obtains sp mn where "payload_overflow_threshold_min t us = Inr mn" "spill_size t us mx n = Inr sp"
    "payload_overflows n mx mn (unat us) = Inr (True, sp + 4)" "sp + 4 < n"
proof -
  obtain mn where mn: "payload_overflow_threshold_min t us = Inr mn" "mn + 4 < mx"
    using thresholds [OF assms(1), of t] assms(2) by (metis sum.inject(2))
  define q where "q = unat us - 4"
  define d where "d = n - mn"
  define sp where "sp = (if mn + d mod q > mx then mn else mn + d mod q)"
  have q: "476 \<le> q" "4 < unat us" using assms(1) by (simp_all add: q_def)
  have "sp + 4 < n"
  proof (cases "mn + d mod q > mx")
    case False
    then have "d mod q \<noteq> d" using assms(3) by (simp add: d_def)
    then have "q \<le> d" by (metis mod_less not_le)
    then have "d mod q \<le> d - q" by (metis le_mod_geq mod_less_eq_dividend)
    then show ?thesis using \<open>q \<le> d\<close> q(1) mn(2) assms(3) False by (simp add: sp_def d_def)
  qed (use mn assms in \<open>simp add: sp_def\<close>)
  moreover have "payload_overflows n mx mn (unat us) = Inr (True, sp + 4)"
    using payload_overflows_eq [of mn mx "unat us" n] mn(2) q(2) assms(3) by (simp add: sp_def q_def d_def)
  moreover have "spill_size t us mx n = Inr sp"
    using mn q(2) assms(3) by (simp add: spill_size_def sp_def q_def d_def)
  ultimately show thesis using mn(1) that by blast
qed

section \<open>Following the chain\<close>



lemma unat_next_of:
  assumes "0 < n" "n < 2 ^ 32"
  shows "unat (next_of (n # ns)) = n" "next_of (n # ns) \<noteq> 0"
proof -
  show "unat (next_of (n # ns)) = n"
    using assms(2) by (simp add: next_of_def) (simp only: unsigned_of_nat take_bit_eq_mod, simp)
  then show "next_of (n # ns) \<noteq> 0" using assms(1) by (metis unat_0 less_irrefl)
qed

lemma read_chain:
  assumes "chain pages u (n # ns) data" "pages n = Some b" "0 < u"
    and rd: "\<And>m b. pages m = Some b \<Longrightarrow> rd m = Inr b"
    and rr: "read_record (p @ data) rec = (rec', Inr ())"
  shows "read_record_to_end rd (u + 4) pl (Some st) sz
     \<lparr>or_state = Some \<lparr>ro_payload = p, ro_next_page = nx, ro_remaining_to_read = length data, ro_page = b\<rparr>, or_record = rec\<rparr> =
     Some (Inr (), \<lparr>or_state = None, or_record = rec'\<rparr>)"
  using assms(1,2) rr
proof (induction ns arbitrary: n data p b nx)
  case Nil
  then have "length data \<le> u" "slice_u32 b 0 = Inr 0" "u + 4 \<le> length b" "take (length data) (drop 4 b) = data"
    by (auto simp: next_of_def simp del: slice_u32_in intro: slice_u32_take split: if_splits)
  then show ?case using Nil.prems(3)
    by (subst read_record_to_end.simps)
      (simp add: read_record_w_possible_overflow_def process_overflow_read_def Let_def del: slice_u32_in)
next
  case (Cons m ns)
  then have ch: "\<not> length data \<le> u" "chain pages u (m # ns) (drop u data)" "u + 4 \<le> length b"
    "slice_u32 b 0 = Inr (next_of (m # ns))" "take u (drop 4 b) = take u data"
    by (auto intro: slice_u32_take simp del: slice_u32_in chain.simps(2) [of _ _ m] split: if_splits)
  then obtain b' where b': "pages m = Some b'" "0 < m" "m < 2 ^ 32" by auto
  note next_m = unat_next_of [OF b'(2,3), of ns]
  have "read_record ((p @ take u data) @ drop u data) rec = (rec', Inr ())" using Cons.prems(3) by simp
  note IH = Cons.IH [OF ch(2) b'(1) this]
  have "read_record_w_possible_overflow rd (u + 4) False pl (Some st) sz
     \<lparr>or_state = Some \<lparr>ro_payload = p, ro_next_page = nx, ro_remaining_to_read = length data, ro_page = b\<rparr>, or_record = rec\<rparr> =
     (Inr CursorIO, \<lparr>or_state = Some \<lparr>ro_payload = p @ take u data, ro_next_page = next_of (m # ns),
        ro_remaining_to_read = length (drop u data), ro_page = b'\<rparr>, or_record = rec\<rparr>)"
    using ch(1,3,4,5) next_m rd [OF b'(1)]
    by (simp add: read_record_w_possible_overflow_def process_overflow_read_def Let_def min_def del: slice_u32_in)
  then show ?case using IH by (subst read_record_to_end.simps) simp
qed

section \<open>Written cells read back\<close>

lemma write_varint_to_vec_eq: "write_varint_to_vec v p = Inr (p @ varint_ref (unat v))"
proof -
  have "length (varint_ref (unat v)) = varint_len (unat v)"
    by (rule length_varint_ref) (rule unat_u64_less)
  then show ?thesis
    using varint_len_bounds(2) [of "unat v"] by (simp add: write_varint_to_vec_def write_varint_eq)
qed

definition leaf_prefix :: "page_type \<Rightarrow> i64 \<Rightarrow> nat \<Rightarrow> bytes" where
  "leaf_prefix t key n = varint_ref n @ (if t = TableLeaf then varint_ref (unat key) else [])"

definition leaf_cell :: "page_type \<Rightarrow> i64 \<Rightarrow> nat \<Rightarrow> bytes \<Rightarrow> u32 option \<Rightarrow> btree_cell" where
  "leaf_cell t key n local first =
     (if t = TableLeaf
      then TableLeafCell \<lparr>tl_rowid = key, tl_payload = local, tl_payload_size = word_of_nat n, tl_first_overflow_page = first\<rparr>
      else IndexLeafCell \<lparr>il_payload = local, il_first_overflow_page = first, il_payload_size = word_of_nat n\<rparr>)"

lemma cell_prefix_eq:
  assumes "t \<in> {TableLeaf, IndexLeaf}" "length buf < 2 ^ 64"
  shows "cell_prefix t (Some key) [] buf = Inr (leaf_prefix t key (length buf))"
  using assms by (auto simp: cell_prefix_def write_varint_to_vec_eq leaf_prefix_def unat_u64_of_nat)

lemma read_leaf_cell:
  assumes "t \<in> {TableLeaf, IndexLeaf}" "n < 2 ^ 64"
    and "read_local_payload (A @ leaf_prefix t key n @ B) (length A + length (leaf_prefix t key n)) (word_of_nat n) mx mn us =
      Inr (local, first)"
  shows "read_btree_cell (A @ leaf_prefix t key n @ B) t (length A) mx mn us = Inr (leaf_cell t key n local first)"
proof -
  have n: "read_varint (varint_ref n @ C) = Inr (word_of_nat n, varint_len n)" for C
    using assms(2) by (rule read_varint_ref)
  have k: "read_varint (varint_ref (unat key) @ C) = Inr (key, varint_len (unat key))" for C
    using read_varint_ref [of "unat key" C] unat_u64_less [of key] by simp
  have ln: "length (varint_ref n) = varint_len n" "length (varint_ref (unat key)) = varint_len (unat key)"
    using length_varint_ref assms(2) unat_u64_less by blast+
  show ?thesis
    using assms(1,3) by (auto simp: read_btree_cell_def leaf_prefix_def leaf_cell_def n k ln Let_def add.assoc)
qed

lemma read_local_fits:
  assumes "mn \<le> mx" "4 < us" "length p \<le> mx" "length p < 2 ^ 64"
  shows "read_local_payload (A @ p @ B) (length A) (word_of_nat (length p)) mx mn us = Inr (p, None)"
  using assms by (simp add: read_local_payload_def payload_overflows_eq unat_u64_of_nat read_payload_def)

lemma read_local_spills:
  assumes "payload_overflows (length p) mx mn us = Inr (True, sp + 4)" "sp + 4 < length p" "length p < 2 ^ 64"
  shows "read_local_payload (A @ take sp p @ to_be 4 w @ B) (length A) (word_of_nat (length p)) mx mn us =
    Inr (take sp p, Some w)"
proof -
  have "slice_u32 (take sp p @ to_be 4 w) sp = Inr w"
    using slice_u32_append [of "take sp p" w "[]"] assms(2) by simp
  then show ?thesis
    using assms by (simp add: read_local_payload_def unat_u64_of_nat read_payload_def Let_def del: slice_u32_in)
qed

text \<open>What a cell holds once it has been written, with the pages it spills to.\<close>

definition cell_holds :: "(nat \<Rightarrow> bytes option) \<Rightarrow> u16 \<Rightarrow> page_type \<Rightarrow> i64 \<Rightarrow> bytes \<Rightarrow> bytes \<Rightarrow> bool" where
  "cell_holds pages us t key p cell \<longleftrightarrow>
     (\<exists>mx. payload_overflow_threshold_max t us = Inr mx \<and>
        (if length p \<le> mx then \<exists>k. cell = leaf_prefix t key (length p) @ p @ replicate k 0
         else \<exists>sp n ns. spill_size t us mx (length p) = Inr sp \<and>
           cell = leaf_prefix t key (length p) @ take sp p @ to_be 4 (word_of_nat n :: u32) \<and>
           chain pages (unat us - 4) (n # ns) (drop sp p)))"

lemma cell_holds_read:
  assumes "cell_holds pages us t key p cell" "t \<in> {TableLeaf, IndexLeaf}" "480 \<le> unat us" "length p < 2 ^ 64"
    and "payload_overflow_threshold_max t us = Inr mx" "payload_overflow_threshold_min t us = Inr mn"
    and rd: "\<And>m b. pages m = Some b \<Longrightarrow> rd m = Inr b"
    and rr: "read_record p rec = (rec', Inr ())"
  shows "\<exists>local first. read_btree_cell (A @ cell @ B) t (length A) mx mn (unat us) = Inr (leaf_cell t key (length p) local first) \<and>
    read_record_to_end rd (unat us) local first (word_of_nat (length p)) \<lparr>or_state = None, or_record = rec\<rparr> =
      Some (Inr (), \<lparr>or_state = None, or_record = rec'\<rparr>)"
proof (cases "length p \<le> mx")
  case True
  then obtain k where cell: "cell = leaf_prefix t key (length p) @ p @ replicate k 0"
    using assms(1,5) by (auto simp: cell_holds_def)
  have mn: "mn \<le> mx" using thresholds [OF assms(3), of t] assms(5,6) by (metis add_leD1 less_imp_le sum.inject(2))
  have "read_local_payload (A @ leaf_prefix t key (length p) @ p @ replicate k 0 @ B)
      (length A + length (leaf_prefix t key (length p))) (word_of_nat (length p)) mx mn (unat us) = Inr (p, None)"
    using read_local_fits [of mn mx "unat us" p "A @ leaf_prefix t key (length p)" "replicate k 0 @ B"] mn assms(3,4) True by simp
  then have "read_btree_cell (A @ cell @ B) t (length A) mx mn (unat us) = Inr (leaf_cell t key (length p) p None)"
    using read_leaf_cell [OF assms(2,4), of A key "p @ replicate k 0 @ B"] by (simp add: cell)
  moreover have "read_record_to_end rd (unat us) p None (word_of_nat (length p)) \<lparr>or_state = None, or_record = rec\<rparr> =
      Some (Inr (), \<lparr>or_state = None, or_record = rec'\<rparr>)"
    by (subst read_record_to_end.simps) (simp add: read_record_w_possible_overflow_def rr)
  ultimately show ?thesis by blast
next
  case False
  obtain sp n ns where c: "spill_size t us mx (length p) = Inr sp"
    "cell = leaf_prefix t key (length p) @ take sp p @ to_be 4 (word_of_nat n :: u32)"
    "chain pages (unat us - 4) (n # ns) (drop sp p)"
    using assms(1,5) False by (auto simp: cell_holds_def simp del: chain.simps)
  then obtain b where b: "pages n = Some b" "0 < n" "n < 2 ^ 32" by auto
  have po: "payload_overflows (length p) mx mn (unat us) = Inr (True, sp + 4)" "sp + 4 < length p"
    using spill [OF assms(3,5), of "length p"] c(1) assms(6) False by (metis not_le sum.inject(2))+
  let ?w = "word_of_nat n :: u32"
  have w: "unat ?w = n" using unat_next_of [OF b(2,3), of "[]"] by (simp add: next_of_def)
  have "read_local_payload (A @ leaf_prefix t key (length p) @ take sp p @ to_be 4 ?w @ B)
      (length A + length (leaf_prefix t key (length p))) (word_of_nat (length p)) mx mn (unat us) = Inr (take sp p, Some ?w)"
    using read_local_spills [OF po assms(4), of "A @ leaf_prefix t key (length p)" ?w B] by simp
  then have "read_btree_cell (A @ cell @ B) t (length A) mx mn (unat us) = Inr (leaf_cell t key (length p) (take sp p) (Some ?w))"
    using read_leaf_cell [OF assms(2,4), of A key "take sp p @ to_be 4 ?w @ B"] by (simp add: c(2))
  moreover have "read_record_to_end rd (unat us) (take sp p) (Some ?w) (word_of_nat (length p)) \<lparr>or_state = None, or_record = rec\<rparr> =
      Some (Inr (), \<lparr>or_state = None, or_record = rec'\<rparr>)"
    using read_chain [OF c(3) b(1), of rd "take sp p" rec rec' "take sp p" ?w "word_of_nat (length p)" ?w] rd rr po(2) w assms(3,4)
    by (subst read_record_to_end.simps)
      (simp add: read_record_w_possible_overflow_def process_overflow_read_def rd [OF b(1)] unat_u64_of_nat)
  ultimately show ?thesis by blast
qed

context page_allocator
begin

lemma fill_cell_payload_holds:
  assumes "t \<in> {TableLeaf, IndexLeaf}" "480 \<le> unat us" "unat us \<le> psz" "length (ir_payload rec) < 2 ^ 64" "fl_cell s = []"
  shows "\<exists>r s'. fill_cell_payload alloc psz t (Some key) rec us s = Some (r, s') \<and>
    in_use (fl_pager s) \<subseteq> in_use (fl_pager s') \<and>
    (\<forall>m\<in>in_use (fl_pager s). fl_pages s' m = fl_pages s m) \<and>
    (case r of Inl e \<Rightarrow> \<exists>st st'. alloc st = (Inl e, st')
     | Inr _ \<Rightarrow> cell_holds (fl_pages s') us t key (ir_payload rec) (fl_cell s'))"
proof -
  let ?p = "ir_payload rec" and ?pre = "leaf_prefix t key (length (ir_payload rec))"
  obtain mx where mx: "payload_overflow_threshold_max t us = Inr mx" using thresholds [OF assms(2), of t] by blast
  note pre = cell_prefix_eq [OF assms(1,4), of key]
  show ?thesis
  proof (cases "length ?p \<le> mx")
    case True
    define cell where "cell = (if length (?pre @ ?p) < MINIMUM_CELL_SIZE then vec_resize MINIMUM_CELL_SIZE 0 (?pre @ ?p) else ?pre @ ?p)"
    have "fill_cell_payload alloc psz t (Some key) rec us s = Some (Inr (), s\<lparr>fl_cell := cell\<rparr>)"
      using True by (simp add: fill_cell_payload_def Let_def assms(5) pre mx cell_def)
    moreover have "\<exists>k. cell = ?pre @ ?p @ replicate k 0"
      by (auto simp: cell_def vec_resize_def intro: exI [of _ 0])
    ultimately show ?thesis using True mx by (simp add: cell_holds_def)
  next
    case False
    obtain sp where sp: "spill_size t us mx (length ?p) = Inr sp" "sp + 4 < length ?p"
      using spill [OF assms(2) mx, of "length ?p"] False by (metis not_le)
    define u where "u = unat us - 4"
    have u: "unat us = u + 4" "0 < u" "u + 4 \<le> psz" using assms(2,3) by (simp_all add: u_def)
    obtain r s' where r: "fill_loop alloc psz (u + 4) (InCell (length ?pre) (length ?pre + sp)) sp ?p
        (s\<lparr>fl_cell := ?pre @ replicate (sp + 4) 0\<rparr>) = Some (r, s')"
      "length (fl_cell s') = length ?pre + sp + 4" "in_use (fl_pager s) \<subseteq> in_use (fl_pager s')"
      "\<forall>m\<in>in_use (fl_pager s). fl_pages s' m = fl_pages s m"
      "case r of Inl e \<Rightarrow> \<exists>st st'. alloc st = (Inl e, st')
       | Inr _ \<Rightarrow> \<exists>n ns. fl_cell s' = ?pre @ take sp ?p @ to_be 4 (word_of_nat n :: u32) \<and>
            chain (fl_pages s') u (n # ns) (drop sp ?p)"
      using fill_in_cell [OF u(2,3), of "s\<lparr>fl_cell := ?pre @ replicate (sp + 4) 0\<rparr>" ?pre sp ?p] sp(2) by auto
    have "vec_resize (length ?pre + sp + 4) 0 ?pre = ?pre @ replicate (sp + 4) 0" by (simp add: vec_resize_def)
    then have "fill_cell_payload alloc psz t (Some key) rec us s = Some (r, s')"
      using False sp(1) r(1,2) u(1) assms(5) pre mx
      by (cases r) (simp_all add: fill_cell_payload_def Let_def)
    moreover have "case r of Inl e \<Rightarrow> \<exists>st st'. alloc st = (Inl e, st')
      | Inr _ \<Rightarrow> cell_holds (fl_pages s') us t key ?p (fl_cell s')"
      using r(5) False mx sp(1) by (cases r) (auto simp: cell_holds_def u_def simp del: chain.simps)
    ultimately show ?thesis using r(3,4) by blast
  qed
qed

end

section \<open>Reading a cell of any page\<close>

definition cell_type :: "btree_cell \<Rightarrow> page_type" where
  "cell_type c = (case c of TableInteriorCell _ \<Rightarrow> TableInterior | TableLeafCell _ \<Rightarrow> TableLeaf
     | IndexInteriorCell _ \<Rightarrow> IndexInterior | IndexLeafCell _ \<Rightarrow> IndexLeaf)"

definition cell_payload_of :: "btree_cell \<Rightarrow> bytes" where
  "cell_payload_of c = (case c of TableInteriorCell _ \<Rightarrow> [] | TableLeafCell d \<Rightarrow> tl_payload d
     | IndexInteriorCell d \<Rightarrow> ii_payload d | IndexLeafCell d \<Rightarrow> il_payload d)"

lemma read_payload_length: "read_payload b n = Inr (p, first) \<Longrightarrow> length p \<le> length b"
  by (auto simp: read_payload_def Let_def split: if_splits)

lemma read_local_payload_length:
  "read_local_payload page pos n mx mn us = Inr (p, first) \<Longrightarrow> length p \<le> length page"
  by (auto simp: read_local_payload_def slice_range_def split: if_splits dest!: read_payload_length)

lemma read_btree_cell_type:
  "read_btree_cell page t pos mx mn us = Inr c \<Longrightarrow> cell_type c = t \<and> length (cell_payload_of c) \<le> length page"
  by (cases t) (auto simp: read_btree_cell_def Let_def cell_type_def cell_payload_of_def split: if_splits
      dest: read_local_payload_length)

lemma cell_get_type:
  "cell_get pg idx mx mn us = Inr c \<Longrightarrow>
   validate_btree_page_type pg = Inr (cell_type c) \<and> length (cell_payload_of c) \<le> length (pgc_buffer pg)"
  by (auto simp: cell_get_def Let_def split: if_splits dest!: read_btree_cell_type)

text \<open>
  C12. Reading a cell, or the region it occupies, never panics: on a page whose bytes are arbitrary,
  for any cell index and for the overflow thresholds of any usable size from 480 bytes on, the result is
  a cell or a report of corruption. A cell that is returned has the kind of its page, and its local
  payload is no longer than the page.
\<close>

theorem cell_get_safe:
  assumes "480 \<le> unat us" "pgc_offset pg + 8 \<le> length (pgc_buffer pg)"
    and "payload_overflow_threshold_max t us = Inr mx" "payload_overflow_threshold_min t us = Inr mn"
  shows "(case cell_get pg idx mx mn (unat us) of
      Inl e \<Rightarrow> is_corrupt e
    | Inr c \<Rightarrow> validate_btree_page_type pg = Inr (cell_type c) \<and> length (cell_payload_of c) \<le> length (pgc_buffer pg)) \<and>
    (case cell_get_raw_region pg idx mx mn (unat us) of Inl e \<Rightarrow> is_corrupt e | Inr (start, len) \<Rightarrow> MINIMUM_CELL_SIZE \<le> len)"
proof -
  have mn: "mn \<le> mx" using thresholds [OF assms(1), of t] assms(3,4) by (metis add_leD1 less_imp_le sum.inject(2))
  have us: "4 < unat us" "pgc_offset pg + 5 \<le> length (pgc_buffer pg)" using assms(1,2) by simp_all
  have "no_panic (cell_get pg idx mx mn (unat us))" using no_panic_cell_get [OF mn us] .
  moreover have "no_panic (cell_get_raw_region pg idx mx mn (unat us))" using no_panic_cell_get_raw_region [OF mn us] .
  moreover have "MINIMUM_CELL_SIZE \<le> len" if "cell_get_raw_region pg idx mx mn (unat us) = Inr (start, len)" for start len
    using that by (auto simp: cell_get_raw_region_def Let_def split: if_splits)
  ultimately show ?thesis
    using cell_get_type [of pg idx mx mn "unat us"] by (auto simp: no_panic_def split: sum.splits)
qed

definition demo_page :: page_content where
  "demo_page = page_content_new 0 (13 # replicate 511 255)"

lemma demo_page_props:
  "length (pgc_buffer demo_page) = 512" "pgc_offset demo_page = 0"
  "validate_btree_page_type demo_page = Inr TableLeaf" "cell_count demo_page = Inr 65535"
  by (simp_all add: demo_page_def page_content_new_def validate_btree_page_type_def pc_read_u8_def page_type_try_from_def
      cell_count_def pc_read_u16_def nth_Cons' from_be_def be_nat_def)

theorem cell_get_safe_witness:
  "(case cell_get demo_page 7 477 39 512 of Inl e \<Rightarrow> is_corrupt e
    | Inr c \<Rightarrow> validate_btree_page_type demo_page = Inr (cell_type c) \<and> length (cell_payload_of c) \<le> 512)"
proof -
  have "payload_overflow_threshold_max TableLeaf 512 = Inr 477" "payload_overflow_threshold_min TableLeaf 512 = Inr 39"
    by (simp_all add: payload_overflow_threshold_max_def payload_overflow_threshold_min_def usub_def)
  then show ?thesis
    using cell_get_safe [of 512 demo_page TableLeaf 477 39 7] by (simp add: demo_page_props split: sum.splits)
qed

text \<open>
  C37. The row id of a leaf cell has its own reader, which does not check that the slot of the cell
  pointer array lies on the page: for a page that claims more cells than it has room for, it panics
  where \<open>cell_get\<close> reports corruption.
\<close>

theorem read_rowid_slot_unchecked:
  assumes "validate_btree_page_type pg = Inr TableLeaf" "cell_count pg = Inr n" "idx < n"
    "length (pgc_buffer pg) < pgc_offset pg + 8 + idx * 2 + 2"
  shows "cell_table_leaf_read_rowid pg idx = Inl Panic \<and>
    cell_get pg idx mx mn us = Inl (Corrupt ''Cell pointer array slot out of range'')"
  using assms
  by (auto simp: cell_table_leaf_read_rowid_def cell_get_def validate_btree_page_type_def pc_page_type_def assert_page_type_def
      header_size_of_def pc_read_u16_def slice_idx_def Let_def add.assoc)

theorem read_rowid_slot_unchecked_witness:
  "cell_table_leaf_read_rowid demo_page 300 = Inl Panic \<and>
   cell_get demo_page 300 477 39 512 = Inl (Corrupt ''Cell pointer array slot out of range'')"
  using read_rowid_slot_unchecked [OF demo_page_props(3,4), of 300] by (simp add: demo_page_props)

end
