(* ===== verification/PagerAlloc.thy ===== *)
theory PagerAlloc
  imports Pager PagerCache CellProps WalProps
begin

text \<open>
  What the operations of the pager leave alone, and page allocation: a new page number is one past the end of
  the database, and is counted by the header afterwards. This makes the pager an allocator in the sense of the
  overflow chains, so that a cell filled from the pager's pages is read back.
\<close>

section \<open>Fields that an operation keeps\<close>

named_theorems keep_rules

definition keeps :: "(pager \<Rightarrow> 'b) \<Rightarrow> 'a pg \<Rightarrow> bool" where
  "keeps f m \<longleftrightarrow> (\<forall>p. f (snd (m p)) = f p)"

lemma keepsD: "keeps f m \<Longrightarrow> m p = (r, q) \<Longrightarrow> f q = f p"
  unfolding keeps_def by (metis snd_conv)

lemma keeps_bind [keep_rules]: "keeps f m \<Longrightarrow> (\<And>x. keeps f (g x)) \<Longrightarrow> keeps f (pg_bind m g)"
  by (auto simp: keeps_def pg_bind_def split: prod.splits sum.splits) (metis snd_conv)+

lemma keeps_base [keep_rules]: "keeps f (pg_ret x)" "keeps f (pg_err e)" "keeps f (pg_get g)" "keeps f (pg_res r)"
  by (simp_all add: keeps_def pg_ret_def pg_err_def pg_get_def pg_res_def)

lemma keeps_upd: "(\<And>p. f (u p) = f p) \<Longrightarrow> keeps f (pg_upd u)"
  by (simp add: keeps_def pg_upd_def)

lemma keeps_on_cache: "(\<And>p c. f (p\<lparr>pgr_cache := c\<rparr>) = f p) \<Longrightarrow> keeps f (on_cache g)"
  by (simp add: keeps_def on_cache_def split: option.splits prod.splits)

lemma keeps_if [keep_rules]: "(b \<Longrightarrow> keeps f m) \<Longrightarrow> (\<not> b \<Longrightarrow> keeps f n) \<Longrightarrow> keeps f (if b then m else n)"
  by simp

lemma keeps_case [keep_rules]:
  "keeps f m \<Longrightarrow> (\<And>x. keeps f (n x)) \<Longrightarrow> keeps f (case y of None \<Rightarrow> m | Some x \<Rightarrow> n x)"
  "(\<And>a. keeps f (g a)) \<Longrightarrow> (\<And>b. keeps f (h b)) \<Longrightarrow> keeps f (case z of Inl a \<Rightarrow> g a | Inr b \<Rightarrow> h b)"
  "(\<And>a b. keeps f (k a b)) \<Longrightarrow> keeps f (case w of (a, b) \<Rightarrow> k a b)"
  by (auto split: option.splits sum.splits prod.splits)

text \<open>A field that is not one of those that hold the page objects.\<close>

definition outer :: "(pager \<Rightarrow> 'b) \<Rightarrow> bool" where
  "outer f \<longleftrightarrow> (\<forall>p c. f (p\<lparr>pgr_cache := c\<rparr>) = f p) \<and> (\<forall>p c. f (p\<lparr>pgr_contents := c\<rparr>) = f p) \<and>
     (\<forall>p n. f (p\<lparr>pgr_next_ref := n\<rparr>) = f p) \<and> (\<forall>p bs. f (p\<lparr>pgr_pool := bs\<rparr>) = f p) \<and> (\<forall>p ns. f (p\<lparr>pgr_dirty := ns\<rparr>) = f p)"

lemma outer_fields [keep_rules]:
  "outer pgr_header" "outer pgr_auto_vacuum" "outer pgr_con" "outer pgr_sh" "outer pgr_io" "outer pgr_read_error"
  "outer pgr_savepoints" "outer pgr_flush_state" "outer pgr_synchronous"
  by (simp_all add: outer_def)

lemma keeps_objects [keep_rules]:
  assumes "outer f"
  shows "keeps f (on_cache g)" "keeps f (set_page_flags r s)" "keeps f (set_contents r c)"
    "keeps f (add_dirty n)" "keeps f (remove_dirty n)" "keeps f pool_get"
  using assms
  by (auto simp: outer_def keeps_def on_cache_def set_page_flags_def set_contents_def add_dirty_def remove_dirty_def pg_upd_def
    pool_get_def split: option.splits list.splits)

lemma keeps_page [keep_rules]:
  assumes "outer f"
  shows "keeps f (set_dirty r)" "keeps f (clear_dirty r)" "keeps f (clear_locked r)" "keeps f (clear_loaded r)"
    "keeps f (new_page s)" "keeps f (allocate_page_object off)"
proof -
  show n: "keeps f (new_page s)" for s
    unfolding new_page_def using assms by (intro keep_rules keeps_upd) (simp_all add: outer_def)
  show "keeps f (allocate_page_object off)"
    unfolding allocate_page_object_def using assms by (intro keep_rules n)
qed (use assms in \<open>simp_all add: set_dirty_def clear_dirty_def clear_locked_def clear_loaded_def keeps_objects\<close>)

lemma keeps_try [keep_rules]:
  assumes "keeps f m" "\<And>e. keeps f (g e)" "\<And>x. keeps f (h x)"
  shows "keeps f (\<lambda>p. case m p of (Inl e, p) \<Rightarrow> g e p | (Inr x, p) \<Rightarrow> h x p)"
  using assms by (auto simp: keeps_def split: prod.splits sum.splits) (metis snd_conv)+

lemma keeps_fetch [keep_rules]:
  assumes "outer f"
  shows "keeps f (fetch_page n)"
proof -
  have "keeps f pool_get" using assms by (rule keep_rules)
  then show ?thesis
    by (simp add: keeps_def fetch_page_def pg_bind_def pg_res_def pg_ret_def split: option.splits sum.splits)
qed

lemma keeps_read [keep_rules]:
  assumes "outer f"
  shows "keeps f (read_page n)"
proof -
  have "keeps f (unreserve_cache_slot n r)" "keeps f (finish_read_page n r b)" for r b
    unfolding unreserve_cache_slot_def finish_read_page_def using assms by (auto intro!: keep_rules)
  then show ?thesis
    unfolding read_page_def using assms by (intro keep_rules) (auto intro: keep_rules split: cache_error.splits)
qed

lemma keeps_write_database_header [keep_rules]: "outer f \<Longrightarrow> keeps f write_database_header"
  unfolding write_database_header_def by (intro keep_rules)

lemma keeps_insert_new_page [keep_rules]: "outer f \<Longrightarrow> keeps f (insert_new_page n r)"
  unfolding insert_new_page_def by (intro keep_rules) (auto intro: keep_rules split: cache_error.splits)

lemma keeps_reserve [keep_rules]:
  assumes "outer f"
  shows "keeps f (reserve_ptrmap_page n)" "keeps f (unreserve_ptrmap_page x)"
  unfolding reserve_ptrmap_page_def unreserve_ptrmap_page_def using assms by (auto intro!: keep_rules)

section \<open>The pager as an allocator\<close>

definition pager_alloc :: "pager \<Rightarrow> nat res \<times> pager" where
  "pager_alloc = pg_bind allocate_page (\<lambda>(n, _). pg_ret n)"

definition pages_in_use :: "pager \<Rightarrow> nat set" where
  "pages_in_use p = {1..unat (dh_database_size (pgr_header p))}"

lemma pg_bind_eq: "pg_bind m f p = (case m p of (Inl e, p) \<Rightarrow> (Inl e, p) | (Inr x, p) \<Rightarrow> f x p)"
  by (simp add: pg_bind_def)

lemma pg_bind_upd: "pg_bind (pg_upd f) g p = g () (f p)"
  by (simp add: pg_bind_def pg_upd_def)

lemma pg_bind_InrE:
  assumes "pg_bind m f p = (Inr y, q)"
  obtains x p1 where "m p = (Inr x, p1)" "f x p1 = (Inr y, q)"
  using assms by (auto simp: pg_bind_def split: prod.splits sum.splits)

lemma pg_bind_InlE:
  assumes "pg_bind m f p = (Inl e, q)"
  obtains "m p = (Inl e, q)" | x p1 where "m p = (Inr x, p1)" "f x p1 = (Inl e, q)"
  using assms by (auto simp: pg_bind_def split: prod.splits sum.splits)

lemma u32_checked_eq: "u32_checked n p = (r, q) \<Longrightarrow> q = p \<and> (r = Inr n \<and> n < 2 ^ 32 \<or> r = Inl Panic)"
  by (auto simp: u32_checked_def pg_ret_def pg_err_def split: if_splits)

abbreviation db_size :: "pager \<Rightarrow> nat" where
  "db_size p \<equiv> unat (dh_database_size (pgr_header p))"

text \<open>The part of \<open>allocate_page\<close> after the page objects are in the cache.\<close>

definition grow :: "nat \<Rightarrow> page_ref \<Rightarrow> (nat \<times> page_ref) pg" where
  "grow n r =
     pg_bind (set_dirty r) (\<lambda>_.
     pg_bind (add_dirty n) (\<lambda>_.
     pg_bind (set_database_size n) (\<lambda>_.
     pg_bind write_database_header (\<lambda>_. pg_ret (n, r)))))"

lemma grow_header:
  assumes "grow n r p = (x, q)"
  shows "pgr_header q = (pgr_header p)\<lparr>dh_database_size := word_of_nat n\<rparr>" "x = Inr y \<Longrightarrow> y = (n, r)"
proof -
  define p3 where "p3 = snd (set_database_size n (snd (add_dirty n (snd (set_dirty r p)))))"
  have "pg_bind write_database_header (\<lambda>_. pg_ret (n, r)) p3 = (x, q)"
    using assms
    by (simp add: grow_def pg_bind_upd set_dirty_def set_page_flags_def add_dirty_def set_database_size_def p3_def pg_upd_def)
  moreover have "keeps pgr_header (pg_bind write_database_header (\<lambda>_. pg_ret (n, r)))" by (intro keep_rules)
  ultimately have q: "pgr_header q = pgr_header p3" "\<forall>y. x = Inr y \<longrightarrow> y = (n, r)"
    using keepsD by (blast, auto simp: pg_bind_def pg_ret_def split: prod.splits sum.splits)
  show "pgr_header q = (pgr_header p)\<lparr>dh_database_size := word_of_nat n\<rparr>"
    unfolding q(1) by (simp add: p3_def set_database_size_def add_dirty_def set_dirty_def set_page_flags_def pg_upd_def)
  show "x = Inr y \<Longrightarrow> y = (n, r)" using q(2) by blast
qed

lemma allocate_page_unfold:
  assumes "db_size p + 1 < 2 ^ 32" "n < 2 ^ 32" "n = (if pm = None then db_size p + 1 else db_size p + 2)"
    and "reserve_ptrmap_page (db_size p + 1) p = (Inr pm, p1)" "allocate_page_object 0 p1 = (Inr r, p2)"
  shows "allocate_page p = (case insert_new_page n r p2 of
      (Inl e, p) \<Rightarrow> pg_bind (unreserve_ptrmap_page pm) (\<lambda>_. pg_err e) p | (Inr _, p) \<Rightarrow> grow n r p)"
proof (cases pm)
  case None
  then have "n = db_size p + 1" using assms(3) by simp
  then show ?thesis
    using assms None by (simp add: allocate_page_def grow_def pg_bind_def pg_get_def u32_checked_def pg_ret_def split: prod.split sum.split)
next
  case (Some a)
  then have "n = db_size p + 1 + 1" using assms(3) by simp
  then show ?thesis
    using assms Some by (simp add: allocate_page_def grow_def pg_bind_def pg_get_def u32_checked_def pg_ret_def split: prod.split sum.split)
qed

lemma allocate_page_cases:
  assumes "allocate_page p = (x, q)"
  obtains e where "x = Inl e" "pgr_header q = pgr_header p"
  | n r p1 where "n \<in> {db_size p + 1, db_size p + 2}" "n < 2 ^ 32" "pgr_header p1 = pgr_header p" "grow n r p1 = (x, q)"
proof (cases "db_size p + 1 < 2 ^ 32")
  case False
  then show ?thesis using that(1) assms by (auto simp: allocate_page_def pg_bind_def pg_get_def u32_checked_def pg_err_def)
next
  case True
  note [simp] = pg_bind_def pg_get_def u32_checked_def pg_ret_def pg_err_def
  obtain y p1 where p1: "reserve_ptrmap_page (db_size p + 1) p = (y, p1)" by fastforce
  have h1: "pgr_header p1 = pgr_header p" using keepsD [OF keeps_reserve(1) [OF outer_fields(1)] p1] .
  show ?thesis
  proof (cases y)
    case (Inl e)
    then show ?thesis using that(1) assms True p1 h1 by (auto simp: allocate_page_def)
  next
    case (Inr pm)
    define n where "n = (if pm = None then db_size p + 1 else db_size p + 2)"
    show ?thesis
    proof (cases "n < 2 ^ 32")
      case False
      then show ?thesis using that(1) assms True p1 h1 Inr by (auto simp: allocate_page_def n_def split: if_splits)
    next
      case n: True
      obtain z p2 where p2: "allocate_page_object 0 p1 = (z, p2)" by fastforce
      have h2: "pgr_header p2 = pgr_header p1" using keepsD [OF keeps_page(6) [OF outer_fields(1)] p2] .
      show ?thesis
      proof (cases z)
        case (Inl e)
        then show ?thesis using that(1) assms True p1 h1 \<open>y = Inr pm\<close> n p2 h2 by (auto simp: allocate_page_def n_def split: if_splits)
      next
        case r: (Inr r)
        obtain i p3 where p3: "insert_new_page n r p2 = (i, p3)" by fastforce
        have h3: "pgr_header p3 = pgr_header p2" using keepsD [OF keeps_insert_new_page [OF outer_fields(1)] p3] .
        have eq: "allocate_page p = (case insert_new_page n r p2 of
            (Inl e, p) \<Rightarrow> pg_bind (unreserve_ptrmap_page pm) (\<lambda>_. pg_err e) p | (Inr _, p) \<Rightarrow> grow n r p)"
          using allocate_page_unfold [OF _ n _, of p pm p1 r p2] True p1 Inr p2 r by (simp add: n_def)
        show ?thesis
        proof (cases i)
          case (Inl e)
          have k: "keeps pgr_header (pg_bind (unreserve_ptrmap_page pm) (\<lambda>_. pg_err e))" by (intro keep_rules)
          have u: "pg_bind (unreserve_ptrmap_page pm) (\<lambda>_. pg_err e) p3 = (x, q)" using eq assms p3 Inl by simp
          have "\<exists>e. x = Inl e" using u by (auto split: prod.splits sum.splits)
          then show ?thesis using that(1) keepsD [OF k u] h1 h2 h3 by auto
        next
          case (Inr u)
          then show ?thesis using that(2) [of n p3 r] eq assms p3 h1 h2 h3 n by (auto simp: n_def)
        qed
      qed
    qed
  qed
qed

interpretation pg_alloc: page_allocator pager_alloc pages_in_use
proof
  note [simp] = pages_in_use_def
  fix st st' n
  assume "pager_alloc st = (Inr n, st')"
  then obtain r where "allocate_page st = (Inr (n, r), st')"
    by (auto simp: pager_alloc_def pg_bind_def pg_ret_def split: prod.splits sum.splits)
  then show "n \<notin> pages_in_use st \<and> 0 < n \<and> n < 2 ^ 32 \<and> insert n (pages_in_use st) \<subseteq> pages_in_use st'"
  proof (cases rule: allocate_page_cases)
    case (2 m r' p1)
    then have "m = n" "dh_database_size (pgr_header st') = word_of_nat n" using grow_header [OF 2(4)] by auto
    then show ?thesis using 2 by (auto simp: unat_of_nat take_bit_nat_eq_self)
  qed simp
next
  fix st st' e
  assume "pager_alloc st = (Inl e, st')"
  then have "allocate_page st = (Inl e, st')"
    by (auto simp: pager_alloc_def pg_bind_def pg_ret_def split: prod.splits sum.splits)
  then show "pages_in_use st \<subseteq> pages_in_use st'"
  proof (cases rule: allocate_page_cases)
    case (2 m r' p1)
    then have "dh_database_size (pgr_header st') = word_of_nat m" using grow_header [OF 2(4)] by auto
    then show ?thesis using 2 by (auto simp: pages_in_use_def unat_of_nat take_bit_nat_eq_self)
  qed (simp add: pages_in_use_def)
qed

section \<open>Cells on pages of the pager\<close>


definition demo_fill :: "pager fill" where
  "demo_fill = \<lparr>fl_cell = [], fl_pages = Map.empty,
     fl_pager = finish_open database_header_default (the (cache_new 8 (\<lambda>_. \<lparr>pg_locked = False, pg_dirty = False, pg_loaded = False, pg_contents = False\<rparr>)))
       [] (wal_file_new 512) demo_shared demo_io\<rparr>"

text \<open>A row with a blob of 600 bytes, on pages of 512 bytes.\<close>

definition demo_blob :: val where
  "demo_blob = VBlob (replicate 600 7)"

definition demo_long :: bytes where
  "demo_long = varint_ref 3 @ header_of [demo_blob] @ body_of [demo_blob]"

lemma demo_long_read:
  "read_record demo_long r = (\<lparr>ir_payload = demo_long, ir_values = reads_at 3 [demo_blob], ir_recreating = True\<rparr>, Inr ())"
  "length demo_long < 2 ^ 64"
proof -
  have st: "unat (serial_type_of demo_blob) = 1212" "length (content demo_blob) = 600"
    by (simp_all add: serial_type_of_def st_blob_def demo_blob_def content_def)
  have l: "length (header_of [demo_blob]) = 2" "length (varint_ref 3) = 1"
    using st by (simp_all add: st_bytes_def length_varint_ref varint_len_def)
  then have h: "3 = length (header_of [demo_blob]) + varint_len 3" by (simp add: varint_len_def)
  have vs: "list_all val_ok [demo_blob]" by (simp add: val_ok_def demo_blob_def)
  show "read_record demo_long r = (\<lparr>ir_payload = demo_long, ir_values = reads_at 3 [demo_blob], ir_recreating = True\<rparr>, Inr ())"
    unfolding demo_long_def by (rule read_record_encoded [OF vs h]) simp
  have "length demo_long = 603"
    unfolding demo_long_def body_of_def length_append l by (simp add: st)
  then show "length demo_long < 2 ^ 64" by simp
qed


end
