(* ===== verification/PagerLog.thy ===== *)
theory PagerLog
  imports WalSnap
begin

text \<open>
  The write-ahead log as the pager uses it: appending a page always succeeds and changes what the newest snapshot shows
  of this page only; cutting the log back to a frame gives back the view of that frame, whatever was appended
  after it.
\<close>

definition log_ok :: "wal_file \<Rightarrow> wal_shared \<Rightarrow> bool" where
  "log_ok con sh \<longleftrightarrow> index_ok sh \<and> sh_nbackfills sh \<le> sh_max_frame sh \<and> valid_page_size (wf_page_size con) \<and>
     32 + sh_max_frame sh * (24 + unat (wf_page_size con)) \<le> length (sh_file sh)"

text \<open>The newest snapshot.\<close>

definition newest_view :: "wal_file \<Rightarrow> wal_shared \<Rightarrow> wal_io \<Rightarrow> nat \<Rightarrow> bytes option" where
  "newest_view con sh io = WalSnap.view (con\<lparr>wf_max_frame := sh_max_frame sh\<rparr>) sh io"

lemma frame_page_con [simp]: "frame_page (con\<lparr>wf_max_frame := k\<rparr>) sh f = frame_page con sh f"
  by (simp add: frame_page_def)

lemma log_ok_con: "wf_page_size con' = wf_page_size con \<Longrightarrow> log_ok con' sh = log_ok con sh"
  by (simp add: log_ok_def)

lemma newest_view_con: "wf_page_size con' = wf_page_size con \<Longrightarrow> newest_view con' sh io = newest_view con sh io"
  by (rule ext) (simp add: newest_view_def view_def find_frame_newest frame_page_def split: option.splits)

lemma con_simps [simp]:
  "log_ok (con\<lparr>wf_max_frame := k\<rparr>) sh = log_ok con sh"
  "newest_view (con\<lparr>wf_max_frame := k\<rparr>) sh io = newest_view con sh io"
  by (rule log_ok_con newest_view_con, simp)+

lemma frames_of_bounds:
  assumes "log_ok con sh" "f \<in> set (frames_of sh n)"
  shows "0 < f" "f \<le> sh_max_frame sh"
  using index_okD(2) [of sh f n] assms by (auto simp: log_ok_def)

text \<open>A connection whose snapshot ends at the last frame or after it sees the newest one.\<close>

lemma view_newest_view:
  assumes "log_ok con sh" "sh_max_frame sh \<le> wf_max_frame con"
  shows "WalSnap.view con sh io = newest_view con sh io"
proof
  fix n
  have "newest (\<lambda>f. f \<le> wf_max_frame con) (frames_of sh n) = newest (\<lambda>f. f \<le> sh_max_frame sh) (frames_of sh n)"
    using frames_of_bounds(2) [OF assms(1)] assms(2) by (intro newest_cong) (meson le_trans)
  then show "WalSnap.view con sh io n = newest_view con sh io n"
    by (simp add: newest_view_def view_def find_frame_newest split: option.splits)
qed

lemma frame_offset_bound:
  assumes "0 < f" "f \<le> (m :: nat)"
  shows "32 + (f - 1) * (ps + 24) + 24 + ps \<le> 32 + m * (24 + ps)"
proof -
  have "(f - 1) * (ps + 24) + (ps + 24) = f * (ps + 24)" using assms(1) by (cases f) (simp_all add: algebra_simps)
  moreover have "f * (ps + 24) \<le> m * (ps + 24)" using assms(2) by (rule mult_le_mono1)
  ultimately have "(f - 1) * (ps + 24) + (ps + 24) \<le> m * (ps + 24)" by linarith
  then show ?thesis by (simp add: add.commute [of 24])
qed

lemma length_frame_page:
  assumes "log_ok con sh" "0 < f" "f \<le> sh_max_frame sh"
  shows "length (frame_page con sh f) = unat (wf_page_size con)"
proof -
  let ?pos = "32 + (f - 1) * (unat (wf_page_size con) + 24) + 24"
  have "?pos + unat (wf_page_size con) \<le> length (sh_file sh)"
    using frame_offset_bound [OF assms(2,3), of "unat (wf_page_size con)"] assms(1) unfolding log_ok_def by linarith
  then have "unat (wf_page_size con) \<le> length (sh_file sh) - ?pos" by linarith
  then show ?thesis unfolding frame_page_def pread_def length_take length_drop by (rule min_absorb2)
qed

lemma newest_view_length:
  assumes "log_ok con sh" "\<And>n b. io_db io n = Some b \<Longrightarrow> length b = unat (wf_page_size con)" "newest_view con sh io n = Some b"
  shows "length b = unat (wf_page_size con)"
proof -
  have srt: "sorted_wrt (<) (frames_of sh n)" using assms(1) index_okD(1) by (simp add: log_ok_def)
  show ?thesis
    using assms length_frame_page frames_of_bounds
    by (auto simp: newest_view_def view_def find_frame_newest newest_Some [OF srt] split: option.splits)
qed

section \<open>Appending\<close>

lemma append_frame_file:
  assumes "log_ok con sh" "length b = unat (wf_page_size con)"
  obtains sh' hd where "append_frame be n b d con sh = Inr sh'" "length hd = 24"
    "sh_file sh' = pwrite (32 + sh_max_frame sh * (unat (wf_page_size con) + 24)) (hd @ b) (sh_file sh)"
    "sh_write_lock sh' = sh_write_lock sh"
proof -
  let ?ps = "unat (wf_page_size con)"
  have v: "valid_page_size (wf_page_size con)" using assms(1) by (simp add: log_ok_def)
  note vD = valid_page_sizeD [OF v]
  have off: "frame_offset con (Suc m) = Inr (32 + m * (?ps + 24))" for m
    by (simp add: frame_offset_def WAL_HEADER_SIZE_def WAL_FRAME_HEADER_SIZE_def)
  have fid: "(if sh_max_frame sh = 0 then 1 else sh_max_frame sh + 1) = Suc (sh_max_frame sh)" by simp
  let ?meta = "to_be 4 (word_of_nat n :: u32) @ to_be 4 d"
  let ?ne = "be = (wh_magic (sh_wal_header sh) AND 1 \<noteq> 0)"
  obtain c1 where c1: "checksum_wal be ?meta (sh_last_checksum sh) ?ne = Inr c1" by (simp add: checksum_wal_def)
  have "take ?ps b = b" using assms(2) by simp
  moreover obtain c2 where c2: "checksum_wal be b c1 ?ne = Inr c2" using vD(4) assms(2) by (simp add: checksum_wal_def)
  ultimately have w: "begin_write_wal_frame be off n b (ucast (wf_page_size con)) d (sh_wal_header sh) (sh_last_checksum sh) fl =
      Inr (pwrite off ((?meta @ (to_be 4 (wh_salt_1 (sh_wal_header sh)) @ to_be 4 (wh_salt_2 (sh_wal_header sh))) @
        to_be 4 (fst c2) @ to_be 4 (snd c2)) @ b) fl, c2)" for off fl
    using c1 vD(6) assms(2) by (simp add: begin_write_wal_frame_def Let_def)
  let ?hd = "?meta @ (to_be 4 (wh_salt_1 (sh_wal_header sh)) @ to_be 4 (wh_salt_2 (sh_wal_header sh))) @ to_be 4 (fst c2) @ to_be 4 (snd c2)"
  let ?sh = "sh\<lparr>sh_file := pwrite (32 + sh_max_frame sh * (?ps + 24)) (?hd @ b) (sh_file sh), sh_last_checksum := c2, sh_max_frame := Suc (sh_max_frame sh)\<rparr>"
  have l: "length ?hd = 24" by simp
  show thesis
  proof (cases "sh_frame_cache sh n")
    case None
    then show ?thesis
      using that [of "?sh\<lparr>sh_frame_cache := (sh_frame_cache sh)(n \<mapsto> [Suc (sh_max_frame sh)]), sh_pages_in_frames := sh_pages_in_frames sh @ [n]\<rparr>" ?hd]
        w off l unfolding append_frame_def Let_def fid by simp
  next
    case (Some fr)
    then show ?thesis
      using that [of "?sh\<lparr>sh_frame_cache := (sh_frame_cache sh)(n \<mapsto> fr @ [Suc (sh_max_frame sh)])\<rparr>" ?hd]
        w off l unfolding append_frame_def Let_def fid by simp
  qed
qed

lemma pwrite_parts:
  assumes "pos \<le> length fl" "data \<noteq> []"
  shows "length (pwrite pos data fl) = max (length fl) (pos + length data)"
    "pread pos (length data) (pwrite pos data fl) = data"
    "q + k \<le> pos \<Longrightarrow> pread q k (pwrite pos data fl) = pread q k fl"
  using assms by (auto simp: pwrite_def pread_def take_drop min_def)

lemma append_frame_ok:
  assumes "log_ok con sh" "length b = unat (wf_page_size con)"
  obtains sh' where "append_frame be n b d con sh = Inr sh'" "log_ok con sh'" "sh_max_frame sh' = Suc (sh_max_frame sh)"
    "\<And>m. frames_of sh' m = (if m = n then frames_of sh n @ [Suc (sh_max_frame sh)] else frames_of sh m)"
    "frame_page con sh' (Suc (sh_max_frame sh)) = b"
    "\<And>f. 0 < f \<Longrightarrow> f \<le> sh_max_frame sh \<Longrightarrow> frame_page con sh' f = frame_page con sh f"
    "sh_nbackfills sh' = sh_nbackfills sh" "sh_read_locks sh' = sh_read_locks sh" "sh_write_lock sh' = sh_write_lock sh"
proof -
  let ?ps = "unat (wf_page_size con)" and ?m = "sh_max_frame sh"
  let ?pos = "32 + ?m * (?ps + 24)"
  obtain sh' hd where a: "append_frame be n b d con sh = Inr sh'" "length hd = 24"
    "sh_file sh' = pwrite ?pos (hd @ b) (sh_file sh)" "sh_write_lock sh' = sh_write_lock sh"
    using append_frame_file [OF assms] .
  note ix = append_frame_index [OF a(1)]
  have ok: "index_ok sh" "sh_nbackfills sh \<le> ?m" "valid_page_size (wf_page_size con)" "?pos \<le> length (sh_file sh)"
    using assms(1) by (simp_all add: log_ok_def add.commute [of 24])
  have ne: "hd @ b \<noteq> []" using a(2) by auto
  note pw = pwrite_parts [OF ok(4) ne, folded a(3)]
  have len: "length (hd @ b) = 24 + ?ps" using a(2) assms(2) by simp
  have "length (sh_file sh') \<ge> ?pos + (24 + ?ps)" using pw(1) len by simp
  then have "32 + sh_max_frame sh' * (24 + ?ps) \<le> length (sh_file sh')" by (simp add: ix(1) add.commute [of 24])
  then have ok': "log_ok con sh'"
    using append_frame_index_ok [OF a(1) ok(1,2)] ok(3) by (simp add: log_ok_def)
  have new: "frame_page con sh' (Suc ?m) = b"
  proof -
    have "frame_page con sh' (Suc ?m) = drop 24 (pread ?pos (length (hd @ b)) (sh_file sh'))"
      unfolding len by (simp add: frame_page_def pread_def drop_take add.commute [of _ 24])
    then show ?thesis using pw(2) a(2) by simp
  qed
  have old: "frame_page con sh' f = frame_page con sh f" if "0 < f" "f \<le> ?m" for f
    using pw(3) [of "32 + (f - 1) * (?ps + 24) + 24" ?ps] frame_offset_bound [OF that, of ?ps]
    by (simp add: frame_page_def add.commute [of 24])
  show thesis
    by (rule that [OF a(1) ok' ix(1) _ new old ix(4,5) a(4)])
      (auto simp: frames_of_def ix(2) cache_push_def split: option.splits)
qed

lemma newest_snoc: "sorted_wrt (<) fr \<Longrightarrow> \<forall>f\<in>set fr. f \<le> m \<Longrightarrow> newest (\<lambda>f. f \<le> Suc m) (fr @ [Suc m]) = Some (Suc m)"
  by (simp add: newest_def)

lemma newest_view_append:
  assumes "log_ok con sh" "log_ok con sh'" "sh_max_frame sh' = Suc (sh_max_frame sh)"
    "\<And>m. frames_of sh' m = (if m = n then frames_of sh n @ [Suc (sh_max_frame sh)] else frames_of sh m)"
    "frame_page con sh' (Suc (sh_max_frame sh)) = b"
    "\<And>f. 0 < f \<Longrightarrow> f \<le> sh_max_frame sh \<Longrightarrow> frame_page con sh' f = frame_page con sh f"
  shows "newest_view con sh' io = (newest_view con sh io)(n \<mapsto> b)"
proof
  fix m
  show "newest_view con sh' io m = ((newest_view con sh io)(n \<mapsto> b)) m"
  proof (cases "m = n")
    case True
    then show ?thesis by (simp add: newest_view_def view_def find_frame_newest assms(3,4,5) newest_def)
  next
    case False
    have srt: "sorted_wrt (<) (frames_of sh m)" using assms(1) index_okD(1) by (simp add: log_ok_def)
    have "newest (\<lambda>f. f \<le> Suc (sh_max_frame sh)) (frames_of sh m) = newest (\<lambda>f. f \<le> sh_max_frame sh) (frames_of sh m)"
      using frames_of_bounds(2) [OF assms(1)] by (intro newest_cong) (auto dest: le_SucI)
    moreover have "frame_page con sh' f = frame_page con sh f"
      if "newest (\<lambda>f. f \<le> sh_max_frame sh) (frames_of sh m) = Some f" for f
      using that assms(6) frames_of_bounds(1) [OF assms(1)] by (auto simp: newest_Some [OF srt])
    ultimately show ?thesis
      using False by (simp add: newest_view_def view_def find_frame_newest assms(3,4) split: option.splits)
  qed
qed

section \<open>Cutting back\<close>

text \<open>\<open>log_ext k con sh0 sh\<close>: up to frame \<open>k\<close>, the log is that of \<open>sh0\<close>.\<close>

definition log_ext :: "nat \<Rightarrow> wal_file \<Rightarrow> wal_shared \<Rightarrow> wal_shared \<Rightarrow> bool" where
  "log_ext k con sh0 sh \<longleftrightarrow> sh_nbackfills sh \<le> k \<and> k \<le> sh_max_frame sh \<and>
     (\<forall>n. filter (\<lambda>f. f \<le> k) (frames_of sh n) = filter (\<lambda>f. f \<le> k) (frames_of sh0 n)) \<and>
     (\<forall>f. 0 < f \<longrightarrow> f \<le> k \<longrightarrow> frame_page con sh f = frame_page con sh0 f)"

lemma log_ext_refl: "log_ok con sh \<Longrightarrow> log_ext (sh_max_frame sh) con sh sh"
  by (simp add: log_ext_def log_ok_def)

lemma log_ext_con [simp]: "log_ext k (con\<lparr>wf_max_frame := m\<rparr>) sh0 sh = log_ext k con sh0 sh"
  by (simp add: log_ext_def)

lemma filter_le_le: "k \<le> m \<Longrightarrow> filter (\<lambda>f. f \<le> k) (filter (\<lambda>f. f \<le> m) xs) = filter (\<lambda>f. f \<le> (k :: nat)) xs"
  by (induction xs) auto

lemma log_ext_trans:
  assumes "log_ext k con sh0 sh" "log_ext (sh_max_frame sh) con sh sh'" "sh_nbackfills sh' = sh_nbackfills sh"
  shows "log_ext k con sh0 sh'"
proof -
  have k: "sh_nbackfills sh \<le> k" "k \<le> sh_max_frame sh" "sh_max_frame sh \<le> sh_max_frame sh'" using assms(1,2) by (simp_all add: log_ext_def)
  have "filter (\<lambda>f. f \<le> k) (frames_of sh' n) = filter (\<lambda>f. f \<le> k) (frames_of sh0 n)" for n
  proof -
    have "filter (\<lambda>f. f \<le> k) (filter (\<lambda>f. f \<le> sh_max_frame sh) (frames_of sh' n)) =
        filter (\<lambda>f. f \<le> k) (filter (\<lambda>f. f \<le> sh_max_frame sh) (frames_of sh n))"
      using assms(2) by (simp add: log_ext_def)
    then have "filter (\<lambda>f. f \<le> k) (frames_of sh' n) = filter (\<lambda>f. f \<le> k) (frames_of sh n)"
      using filter_le_le [OF k(2)] by metis
    then show ?thesis using assms(1) by (simp add: log_ext_def)
  qed
  then show ?thesis using assms k by (auto simp: log_ext_def)
qed

lemma log_ext_append:
  assumes "log_ext k con sh0 sh" "sh_max_frame sh' = Suc (sh_max_frame sh)" "sh_nbackfills sh' = sh_nbackfills sh"
    "\<And>m. frames_of sh' m = (if m = n then frames_of sh n @ [Suc (sh_max_frame sh)] else frames_of sh m)"
    "\<And>f. 0 < f \<Longrightarrow> f \<le> sh_max_frame sh \<Longrightarrow> frame_page con sh' f = frame_page con sh f"
  shows "log_ext k con sh0 sh'"
  using assms by (auto simp: log_ext_def)

lemma frames_of_rollback: "frames_of (rollback_to_frame k c sh) n = filter (\<lambda>f. f \<le> k) (frames_of sh n)"
  by (simp add: rollback_to_frame_def retain_frames_def frames_of_def Let_def split: option.splits)

lemma rollback_to_frame_fields [simp]:
  "sh_max_frame (rollback_to_frame k c sh) = k" "sh_file (rollback_to_frame k c sh) = sh_file sh"
  "sh_nbackfills (rollback_to_frame k c sh) = sh_nbackfills sh" "sh_read_locks (rollback_to_frame k c sh) = sh_read_locks sh"
  "sh_write_lock (rollback_to_frame k c sh) = sh_write_lock sh" "frame_page con (rollback_to_frame k c sh) f = frame_page con sh f"
  by (simp_all add: rollback_to_frame_def retain_frames_def Let_def frame_page_def)

lemma rollback_to_frame_index_ok:
  assumes "index_ok sh" "k \<le> sh_max_frame sh"
  shows "index_ok (rollback_to_frame k c sh)"
  unfolding index_ok_def
proof (intro conjI allI impI)
  let ?sh = "rollback_to_frame k c sh"
  have fc: "sh_frame_cache ?sh p = (case sh_frame_cache sh p of None \<Rightarrow> None
      | Some fr \<Rightarrow> if filter (\<lambda>f. f \<le> k) fr = [] then None else Some (filter (\<lambda>f. f \<le> k) fr))" for p
    by (simp add: rollback_to_frame_def retain_frames_def Let_def split: option.splits)
  fix p frames
  assume "sh_frame_cache ?sh p = Some frames"
  then obtain fr where fr: "sh_frame_cache sh p = Some fr" "frames = filter (\<lambda>f. f \<le> k) fr" "frames \<noteq> []"
    by (auto simp: fc split: option.splits if_splits)
  then have "sorted_wrt (<) fr" "\<forall>f\<in>set fr. sh_nbackfills sh < f" using assms(1) by (auto simp: index_ok_def)
  then show "frames \<noteq> []" "sorted_wrt (<) frames" "\<forall>f\<in>set frames. sh_nbackfills ?sh < f \<and> f \<le> sh_max_frame ?sh"
    using fr by (auto simp: sorted_wrt_filter)
next
  show "set (sh_pages_in_frames (rollback_to_frame k c sh)) = dom (sh_frame_cache (rollback_to_frame k c sh))"
    using assms(1) by (auto simp: rollback_to_frame_def retain_frames_def Let_def index_ok_def dom_def split: option.splits if_splits)
qed

lemma rollback_log_ok:
  assumes "log_ok con sh" "sh_nbackfills sh \<le> k" "k \<le> sh_max_frame sh"
  shows "log_ok con (rollback_to_frame k c sh)"
proof -
  have "k * (24 + unat (wf_page_size con)) \<le> sh_max_frame sh * (24 + unat (wf_page_size con))"
    using assms(3) by (rule mult_le_mono1)
  then have "32 + k * (24 + unat (wf_page_size con)) \<le> length (sh_file sh)"
    using assms(1) unfolding log_ok_def by linarith
  then show ?thesis using assms rollback_to_frame_index_ok [of sh k c] by (simp add: log_ok_def)
qed

lemma rollback_log_ext:
  assumes "log_ext k con sh0 sh" "k \<le> m" "m \<le> sh_max_frame sh"
  shows "log_ext k con sh0 (rollback_to_frame m c sh)"
  using assms filter_le_le [OF assms(2)] by (simp add: log_ext_def frames_of_rollback del: filter_filter)

lemma newest_filter_self: "newest P (filter P xs) = newest P xs"
  by (simp add: newest_filter)

text \<open>Cutting back to frame \<open>k\<close> gives what the log showed when \<open>k\<close> was its last frame.\<close>

lemma rollback_view:
  assumes "log_ext k con sh0 sh" "log_ok con sh0" "sh_max_frame sh0 = k"
  shows "newest_view con (rollback_to_frame k c sh) io = newest_view con sh0 io"
proof
  fix n
  have "newest (\<lambda>f. f \<le> k) (filter (\<lambda>f. f \<le> k) (frames_of sh n)) = newest (\<lambda>f. f \<le> k) (frames_of sh0 n)"
    using assms(1) newest_filter_self [of "\<lambda>f. f \<le> k" "frames_of sh0 n"] by (simp add: log_ext_def)
  moreover have "frame_page con sh f = frame_page con sh0 f" if "newest (\<lambda>f. f \<le> k) (frames_of sh0 n) = Some f" for f
  proof -
    have "sorted_wrt (<) (frames_of sh0 n)" using assms(2) index_okD(1) by (simp add: log_ok_def)
    then have "f \<in> set (frames_of sh0 n)" using that newest_Some by blast
    then show ?thesis using assms frames_of_bounds [OF assms(2)] by (auto simp: log_ext_def)
  qed
  ultimately show "newest_view con (rollback_to_frame k c sh) io n = newest_view con sh0 io n"
    using assms(3) by (simp add: newest_view_def view_def find_frame_newest frames_of_rollback split: option.splits)
qed

section \<open>Checkpoint\<close>

lemma ck_shared_log_ok:
  assumes ok: "log_ok con sh" and mx: "mx \<le> sh_max_frame sh"
    and sh': "ck_shared be mode rnd mx (sh\<lparr>sh_read_locks := locks\<rparr>) = Inr sh'"
  shows "log_ok con sh'" "sh_read_locks sh' = locks" "sh_write_lock sh' = sh_write_lock sh"
proof -
  have ix: "index_ok sh" "valid_page_size (wf_page_size con)" "32 + sh_max_frame sh * (24 + unat (wf_page_size con)) \<le> length (sh_file sh)"
    using ok by (simp_all add: log_ok_def)
  have "log_ok con sh' \<and> sh_read_locks sh' = locks \<and> sh_write_lock sh' = sh_write_lock sh"
  proof (cases "sh_max_frame sh = mx")
    case True
    have len: "32 \<le> length (begin_write_wal_header h f)" for h f
      by (simp add: begin_write_wal_header_def pwrite_def wal_header_buffer_def)
    have s': "sh_frame_cache sh' = Map.empty" "sh_pages_in_frames sh' = []" "sh_max_frame sh' = 0" "sh_nbackfills sh' = 0"
      "32 \<le> length (sh_file sh')" "sh_read_locks sh' = locks" "sh_write_lock sh' = sh_write_lock sh"
      using sh' True len by (auto simp: ck_shared_def reset_wal_file_def res_bind_def Let_def split: sum.splits)
    then show ?thesis using ix(2) by (simp add: log_ok_def index_ok_def)
  next
    case False
    have s': "sh' = trim_backfilled_frames mx (sh\<lparr>sh_read_locks := locks, sh_nbackfills := mx\<rparr>)" using sh' False by (simp add: ck_shared_def)
    then have f: "sh_max_frame sh' = sh_max_frame sh" "sh_nbackfills sh' = mx" "sh_file sh' = sh_file sh" "sh_read_locks sh' = locks" "sh_write_lock sh' = sh_write_lock sh"
      by (simp_all add: trim_backfilled_frames_def retain_frames_def Let_def)
    have pos: "0 < f" if "sh_frame_cache sh n = Some fr" "f \<in> set fr" for n fr f
      using ix(1) that unfolding index_ok_def by fastforce
    have "index_ok sh'"
      using ix(1) pos unfolding index_ok_def s' trim_backfilled_frames_def retain_frames_def
      by (auto simp: Let_def dom_def filter_empty_conv sorted_wrt_filter split: option.splits if_splits)
    then show ?thesis using f ix mx by (simp add: log_ok_def)
  qed
  then show "log_ok con sh'" "sh_read_locks sh' = locks" "sh_write_lock sh' = sh_write_lock sh" by simp_all
qed

end
