(* ===== verification/PagerInv.thy ===== *)
theory PagerInv
  imports PagerAlloc PagerLog
begin

text \<open>
  The invariant of the pager and the contents of the database as the pager shows it. A page that is dirty has the bytes of
  its page object, any other page those of the log or of the database file; the invariant makes cached clean pages agree
  with them. Reading changes neither the invariant nor the contents.
\<close>

section \<open>Invariant\<close>

definition rest :: "pager \<Rightarrow> auto_vacuum_mode \<times> wal_file \<times> wal_shared \<times> wal_io \<times> (nat \<Rightarrow> limbo_error option) \<times>
    savepoint_frame list \<times> flush_state \<times> nat \<times> pager_checkpoint_state \<times> bool \<times> synchronous_mode" where
  "rest p = (pgr_auto_vacuum p, pgr_con p, pgr_sh p, pgr_io p, pgr_read_error p, pgr_savepoints p, pgr_flush_state p,
     pgr_in_flight p, pgr_checkpoint_state p, pgr_syncing p, pgr_synchronous p)"

abbreviation objs :: "pager \<Rightarrow> nat \<Rightarrow> page_ref option" where
  "objs p \<equiv> cached (pgr_cache p)"

abbreviation buf_of :: "pager \<Rightarrow> page_ref \<Rightarrow> bytes" where
  "buf_of p r \<equiv> pgc_buffer (pgr_contents p r)"

definition disk :: "pager \<Rightarrow> nat \<Rightarrow> bytes option" where
  "disk p = newest_view (pgr_con p) (pgr_sh p) (pgr_io p)"

definition page_view :: "pager \<Rightarrow> nat \<Rightarrow> bytes option" where
  "page_view p n = (if n \<in> set (pgr_dirty p) then map_option (buf_of p) (objs p n) else disk p n)"

definition store_ok :: "pager \<Rightarrow> bool" where
  "store_ok p \<longleftrightarrow> log_ok (pgr_con p) (pgr_sh p) \<and> sh_max_frame (pgr_sh p) \<le> wf_max_frame (pgr_con p) \<and>
     page_size_of p = unat (wf_page_size (pgr_con p)) \<and> (\<forall>b\<in>set (pgr_pool p). length b = page_size_of p) \<and>
     (\<forall>n b. io_db (pgr_io p) n = Some b \<longrightarrow> length b = page_size_of p) \<and> (\<forall>n. pgr_read_error p n \<noteq> Some Panic) \<and>
     header_ok (pgr_header p) \<and> 480 + unat (dh_reserved_space (pgr_header p)) \<le> page_size_of p"

definition obj_ok :: "pager \<Rightarrow> nat \<Rightarrow> page_ref \<Rightarrow> bool" where
  "obj_ok p n r \<longleftrightarrow> r < pgr_next_ref p \<and> \<not> pg_locked (page_flags r p) \<and> pg_contents (page_flags r p) \<and>
     (pg_dirty (page_flags r p) \<longleftrightarrow> n \<in> set (pgr_dirty p)) \<and> length (buf_of p r) = page_size_of p \<and>
     pgc_offset (pgr_contents p r) = (if n = 1 then 100 else 0) \<and>
     (n \<notin> set (pgr_dirty p) \<longrightarrow> (\<forall>b. disk p n = Some b \<longrightarrow> buf_of p r = b))"

definition pager_ok :: "pager \<Rightarrow> bool" where
  "pager_ok p \<longleftrightarrow> store_ok p \<and> cache_ok (pgr_cache p) \<and> distinct (pgr_dirty p) \<and>
     (\<forall>n r. objs p n = Some r \<longrightarrow> obj_ok p n r) \<and> (\<forall>n\<in>set (pgr_dirty p). objs p n \<noteq> None)"

lemma pager_okD:
  assumes "pager_ok p"
  shows "store_ok p" "cache_ok (pgr_cache p)" "distinct (pgr_dirty p)" "objs p n = Some r \<Longrightarrow> obj_ok p n r"
    "n \<in> set (pgr_dirty p) \<Longrightarrow> \<exists>r. objs p n = Some r"
  using assms by (auto simp: pager_ok_def)

lemma outer_rest [keep_rules]: "outer rest"
  by (simp add: outer_def rest_def)

lemma rest_store:
  assumes "rest q = rest p" "pgr_header q = pgr_header p" "set (pgr_pool q) \<subseteq> set (pgr_pool p)" "store_ok p"
  shows "store_ok q"
proof -
  have "page_size_of q = page_size_of p" using assms(2) by (simp add: page_size_of_def)
  then show ?thesis
    using assms unfolding store_ok_def by (simp add: rest_def subset_iff)
qed

lemma rest_disk: "rest q = rest p \<Longrightarrow> disk q = disk p"
  by (simp add: disk_def rest_def)

lemmas pg_defs = pg_bind_def pg_ret_def pg_err_def pg_get_def pg_upd_def pg_res_def on_cache_def

section \<open>Changing the cache\<close>

text \<open>\<open>shrunk K p c\<close>: outside of the pages \<open>K\<close>, the cache \<open>c\<close> has pages of the pager's cache, the dirty ones among them.\<close>

definition shrunk :: "nat set \<Rightarrow> pager \<Rightarrow> page_cache \<Rightarrow> bool" where
  "shrunk K p c \<longleftrightarrow> cache_ok c \<and>
     (\<forall>m x. m \<notin> K \<longrightarrow> cached c m = Some x \<longrightarrow> objs p m = Some x \<and> pc_pages c x = page_flags x p) \<and>
     (\<forall>m\<in>set (pgr_dirty p) - K. cached c m = objs p m)"

text \<open>Nothing happened to the pages outside \<open>K\<close> but that some were dropped.\<close>

definition untouched :: "nat set \<Rightarrow> pager \<Rightarrow> pager \<Rightarrow> bool" where
  "untouched K p q \<longleftrightarrow> shrunk K p (pgr_cache q) \<and> (\<forall>m x. m \<notin> K \<longrightarrow> objs q m = Some x \<longrightarrow> pgr_contents q x = pgr_contents p x) \<and>
     pgr_next_ref p \<le> pgr_next_ref q \<and> set (pgr_pool q) \<subseteq> set (pgr_pool p) \<and> rest q = rest p \<and>
     pgr_header q = pgr_header p \<and> set (pgr_dirty q) - K = set (pgr_dirty p) - K \<and> distinct (pgr_dirty q)"

lemma shrunkD:
  assumes "shrunk K p c"
  shows "cache_ok c" "m \<notin> K \<Longrightarrow> cached c m = Some x \<Longrightarrow> objs p m = Some x"
    "m \<notin> K \<Longrightarrow> cached c m = Some x \<Longrightarrow> pc_pages c x = page_flags x p"
    "m \<in> set (pgr_dirty p) \<Longrightarrow> m \<notin> K \<Longrightarrow> cached c m = objs p m"
  using assms unfolding shrunk_def by blast+

lemma untouchedD:
  assumes "untouched K p q"
  shows "shrunk K p (pgr_cache q)"
    "m \<notin> K \<Longrightarrow> objs q m = Some x \<Longrightarrow> pgr_contents q x = pgr_contents p x"
    "pgr_next_ref p \<le> pgr_next_ref q" "set (pgr_pool q) \<subseteq> set (pgr_pool p)" "rest q = rest p"
    "pgr_header q = pgr_header p" "m \<notin> K \<Longrightarrow> m \<in> set (pgr_dirty q) \<longleftrightarrow> m \<in> set (pgr_dirty p)" "distinct (pgr_dirty q)"
  using assms unfolding untouched_def by blast+

lemma untouched_refl: "pager_ok p \<Longrightarrow> untouched K p p"
  using pager_okD(2,3) [of p] by (simp add: untouched_def shrunk_def page_flags_def)

lemma untouched_trans:
  assumes "untouched K p q" "untouched L q s" "K \<union> L \<subseteq> M"
  shows "untouched M p s"
  unfolding untouched_def
proof (intro conjI allI impI)
  note a = untouchedD [OF assms(1)] and b = untouchedD [OF assms(2)]
  note sa = shrunkD [OF a(1)] and sb = shrunkD [OF b(1)]
  have M: "m \<notin> K \<and> m \<notin> L" if "m \<notin> M" for m using that assms(3) by blast
  show "shrunk M p (pgr_cache s)"
    unfolding shrunk_def
  proof (intro conjI allI impI ballI)
    show "cache_ok (pgr_cache s)" by (rule sb)
    fix m x
    assume m: "m \<notin> M" "objs s m = Some x"
    have q: "objs q m = Some x" using sb(2) m M by blast
    show "objs p m = Some x" using sa(2) q m M by blast
    have "pc_pages (pgr_cache s) x = pc_pages (pgr_cache q) x" using sb(3) m M unfolding page_flags_def by blast
    also have "\<dots> = page_flags x p" using sa(3) q m M by blast
    finally show "pc_pages (pgr_cache s) x = page_flags x p" .
  next
    fix m
    assume m: "m \<in> set (pgr_dirty p) - M"
    then have "objs q m = objs p m" "m \<in> set (pgr_dirty q)" using sa(4) a(7) M by blast+
    then show "objs s m = objs p m" using sb(4) [of m] M m by simp
  qed
  show "pgr_contents s x = pgr_contents p x" if "m \<notin> M" "objs s m = Some x" for m x
    using b(2) a(2) sb(2) that M by metis
  show "set (pgr_dirty s) - M = set (pgr_dirty p) - M" using a(7) b(7) M by blast
  show "pgr_next_ref p \<le> pgr_next_ref s" "set (pgr_pool s) \<subseteq> set (pgr_pool p)" "rest s = rest p" "pgr_header s = pgr_header p"
    "distinct (pgr_dirty s)"
    using a(3-6) b(3-6,8) by auto
qed

lemma untouched_page:
  assumes ok: "pager_ok p" and u: "untouched K p q" and "m \<notin> K"
  shows "objs q m = Some x \<Longrightarrow> obj_ok q m x" "m \<in> set (pgr_dirty q) \<Longrightarrow> objs q m \<noteq> None" "page_view q m = page_view p m"
proof -
  note uD = untouchedD [OF u] and sD = shrunkD [OF untouchedD(1) [OF u]]
  have d: "m \<in> set (pgr_dirty q) \<longleftrightarrow> m \<in> set (pgr_dirty p)" using uD(7) assms(3) by blast
  have dk: "disk q = disk p" using uD(5) by (rule rest_disk)
  have o: "objs p m = Some x" "page_flags x q = page_flags x p" "pgr_contents q x = pgr_contents p x" "obj_ok p m x"
    if "objs q m = Some x" for x
  proof -
    show p: "objs p m = Some x" using sD(2) [OF assms(3) that] .
    show "page_flags x q = page_flags x p" using sD(3) [OF assms(3) that] unfolding page_flags_def .
    show ok': "obj_ok p m x" using pager_okD(4) [OF ok p] .
    show "pgr_contents q x = pgr_contents p x" using uD(2) [OF assms(3) that] .
  qed
  show "obj_ok q m x" if "objs q m = Some x"
    using o(4) [OF that] uD(3) unfolding obj_ok_def o(2,3) [OF that] d dk page_size_of_def uD(6) by (blast intro: less_le_trans)
  have dirty: "objs q m = objs p m" if "m \<in> set (pgr_dirty p)" using sD(4) that assms(3) .
  show "objs q m \<noteq> None" if "m \<in> set (pgr_dirty q)"
    using dirty d that pager_okD(5) [OF ok, of m] by auto
  show "page_view q m = page_view p m"
  proof (cases "m \<in> set (pgr_dirty p)")
    case True
    then obtain x where x: "objs p m = Some x" using pager_okD(5) [OF ok] by blast
    then have "objs q m = Some x" using dirty True by simp
    then show ?thesis using x True d o(3) by (simp add: page_view_def)
  qed (use d dk in \<open>simp add: page_view_def\<close>)
qed

lemma untouched_ok:
  assumes "pager_ok p" "untouched K p q" "store_ok q"
    and "\<And>m x. m \<in> K \<Longrightarrow> objs q m = Some x \<Longrightarrow> obj_ok q m x" "\<And>m. m \<in> K \<Longrightarrow> m \<in> set (pgr_dirty q) \<Longrightarrow> objs q m \<noteq> None"
  shows "pager_ok q"
  unfolding pager_ok_def
proof (intro conjI allI impI ballI)
  show "cache_ok (pgr_cache q)" "distinct (pgr_dirty q)" using untouchedD(1,8) [OF assms(2)] shrunkD(1) by blast+
  show "obj_ok q n r" if "objs q n = Some r" for n r
    using untouched_page(1) [OF assms(1,2)] assms(4) that by blast
  show "objs q n \<noteq> None" if "n \<in> set (pgr_dirty q)" for n
    using untouched_page(2) [OF assms(1,2)] assms(5) that by blast
qed (rule assms(3))

lemma untouched_store:
  assumes "store_ok p" "untouched K p q"
  shows "store_ok q"
  using rest_store [OF untouchedD(5,6,4) [OF assms(2)] assms(1)] .

lemma untouched_none:
  assumes "pager_ok p" "untouched {} p q"
  shows "pager_ok q" "page_view q = page_view p" "set (pgr_dirty q) = set (pgr_dirty p)"
proof -
  show "pager_ok q" using untouched_ok [OF assms untouched_store [OF pager_okD(1) [OF assms(1)] assms(2)]] by blast
  show "page_view q = page_view p" using untouched_page(3) [OF assms] by blast
  show "set (pgr_dirty q) = set (pgr_dirty p)" using untouchedD(7) [OF assms(2)] by blast
qed

section \<open>Reading\<close>

lemma fetch_page_ok:
  assumes "store_ok p"
  obtains e where "fetch_page n p = (Inl e, p)" "pgr_read_error p n = Some e" "e \<noteq> Panic"
  | b bs where "fetch_page n p = (Inr b, p\<lparr>pgr_pool := bs\<rparr>)" "set bs \<subseteq> set (pgr_pool p)" "length b = page_size_of p"
    "\<And>d. disk p n = Some d \<Longrightarrow> b = d"
proof (cases "pgr_read_error p n")
  case (Some e)
  then show ?thesis using that(1) assms by (auto simp: fetch_page_def store_ok_def)
next
  case None
  have ok: "log_ok (pgr_con p) (pgr_sh p)" "sh_max_frame (pgr_sh p) \<le> wf_max_frame (pgr_con p)"
    "page_size_of p = unat (wf_page_size (pgr_con p))" "\<forall>b\<in>set (pgr_pool p). length b = page_size_of p"
    "\<forall>n b. io_db (pgr_io p) n = Some b \<longrightarrow> length b = page_size_of p"
    using assms by (simp_all add: store_ok_def)
  have d: "disk p = WalSnap.view (pgr_con p) (pgr_sh p) (pgr_io p)"
    unfolding disk_def using view_newest_view [OF ok(1,2)] by simp
  have len: "length b = page_size_of p" if "disk p n = Some b" for b
    using newest_view_length [OF ok(1), of "pgr_io p" n b] ok(3,5) that by (simp add: disk_def)
  show ?thesis
  proof (cases "find_frame (pgr_con p) (pgr_sh p) n")
    case (Some f)
    have srt: "sorted_wrt (<) (frames_of (pgr_sh p) n)" using ok(1) index_okD(1) by (simp add: log_ok_def)
    have "0 < f" using Some frames_of_bounds(1) [OF ok(1)] by (auto simp: find_frame_newest newest_Some [OF srt])
    then have off: "frame_data_offset (pgr_con p) f = Inr (32 + (f - 1) * (unat (wf_page_size (pgr_con p)) + 24) + 24)"
      by (simp add: frame_data_offset_def frame_offset_def WAL_HEADER_SIZE_def WAL_FRAME_HEADER_SIZE_def)
    have v: "disk p n = Some (frame_page (pgr_con p) (pgr_sh p) f)" using Some by (simp add: d view_def)
    have "fetch_page n p = (Inr (frame_page (pgr_con p) (pgr_sh p) f), p\<lparr>pgr_pool := pgr_pool p\<rparr>)"
      using None Some off by (simp add: fetch_page_def pg_defs frame_page_def)
    then show ?thesis by (rule that(2)) (use v len [OF v] in simp_all)
  next
    case nf: None
    then have v: "disk p n = io_db (pgr_io p) n" by (simp add: d view_def)
    show ?thesis
    proof (cases "io_db (pgr_io p) n")
      case (Some b)
      then have "fetch_page n p = (Inr b, p\<lparr>pgr_pool := pgr_pool p\<rparr>)" using None nf by (simp add: fetch_page_def)
      then show ?thesis by (rule that(2)) (use v Some len in simp_all)
    next
      case nd: None
      show ?thesis
      proof (cases "pgr_pool p")
        case Nil
        then have "fetch_page n p = (Inr (replicate (page_size_of p) 0), p\<lparr>pgr_pool := []\<rparr>)"
          using None nf nd by (simp add: fetch_page_def pool_get_def)
        then show ?thesis by (rule that(2)) (use v nd in simp_all)
      next
        case (Cons b bs)
        then have "fetch_page n p = (Inr b, p\<lparr>pgr_pool := bs\<rparr>)"
          using None nf nd by (simp add: fetch_page_def pool_get_def)
        then show ?thesis by (rule that(2)) (use v nd ok(4) Cons in auto)
      qed
    qed
  qed
qed

text \<open>A page object that was just made, put in the cache.\<close>

lemma pager_fresh: "pager_ok p \<Longrightarrow> objs p n \<noteq> Some (pgr_next_ref p)"
  using pager_okD(4) [of p n "pgr_next_ref p"] by (auto simp: obj_ok_def)

lemma dirty_busy:
  assumes "pager_ok p" "n \<in> set (pgr_dirty p)"
  obtains r where "objs p n = Some r" "busy (pc_pages (pgr_cache p) r)"
proof -
  obtain r where r: "objs p n = Some r" using pager_okD(5) [OF assms] by blast
  then have "pg_dirty (page_flags r p)" using pager_okD(4) [OF assms(1) r] assms(2) by (simp add: obj_ok_def)
  then show thesis using that r by (simp add: busy_def page_flags_def)
qed

lemma shrunk_same:
  assumes "pager_ok p" "cache_ok c" "cached c = objs p" "pc_pages c = pc_pages (pgr_cache p)"
  shows "shrunk K p c"
  using assms(2) unfolding shrunk_def page_flags_def assms(3,4) by blast

lemma shrunk_drops:
  assumes ok: "pager_ok p" and d: "drops c c'" and c: "cached c = objs p"
    and pages: "\<forall>x. x \<noteq> pgr_next_ref p \<longrightarrow> pc_pages c x = page_flags x p"
  shows "shrunk {} p c'"
  unfolding shrunk_def
proof (intro conjI allI impI ballI)
  note dD = dropsD [OF d]
  show "cache_ok c'" by (rule dD)
  fix m x
  assume x: "cached c' m = Some x"
  show o: "objs p m = Some x" using dD(2) [OF x] c by simp
  have "x \<noteq> pgr_next_ref p" using pager_fresh [OF ok, of m] o by auto
  then show "pc_pages c' x = page_flags x p" using dD(3) [OF x] pages by simp
next
  fix m
  assume "m \<in> set (pgr_dirty p) - {}"
  then obtain x where x: "objs p m = Some x" "busy (pc_pages (pgr_cache p) x)" using dirty_busy [OF ok] by blast
  have "x \<noteq> pgr_next_ref p" using pager_fresh [OF ok, of m] x by auto
  then have "busy (pc_pages c x)" using pages x(2) by (simp add: page_flags_def)
  then show "cached c' m = objs p m" using dropsD(4) [OF d, of m x] x(1) c by simp
qed

lemma insert_object:
  assumes ok: "pager_ok p" and n: "objs p n = None" and c: "cache_ok c" "cached c = objs p"
    and pages: "\<forall>x. x \<noteq> pgr_next_ref p \<longrightarrow> pc_pages c x = page_flags x p"
  obtains c' where "cache_insert n (pgr_next_ref p) c = Some (Inl cache_error.Full, c')" "shrunk {} p c'"
  | c' where "cache_insert n (pgr_next_ref p) c = Some (Inr (), c')" "shrunk {n} p c'" "cached c' n = Some (pgr_next_ref p)"
    "pc_pages c' (pgr_next_ref p) = pc_pages c (pgr_next_ref p)"
proof -
  let ?r = "pgr_next_ref p"
  have fresh: "x \<noteq> ?r" if "objs p m = Some x" for m x using pager_fresh [OF ok, of m] that by auto
  have new: "cached c m \<noteq> Some ?r" for m using pager_fresh [OF ok] c(2) by simp
  have none: "cached c n = None" using n c(2) by simp
  show thesis
    using c(1) none new
  proof (cases rule: cache_insert_ok)
    case (1 c')
    then show ?thesis using that(1) shrunk_drops [OF ok 1(2) c(2) pages] by blast
  next
    case (2 c')
    have "shrunk {n} p c'"
      unfolding shrunk_def
    proof (intro conjI allI impI ballI)
      fix m x
      assume m: "m \<notin> {n}" "cached c' m = Some x"
      then have x: "cached c m = Some x" "pc_pages c' x = pc_pages c x" using 2(5) by blast+
      then show "objs p m = Some x" using c(2) by simp
      then show "pc_pages c' x = page_flags x p" using x(2) pages fresh by simp
    next
      fix m
      assume "m \<in> set (pgr_dirty p) - {n}"
      then obtain x where x: "objs p m = Some x" "busy (pc_pages (pgr_cache p) x)" using dirty_busy [OF ok] by blast
      then have "busy (pc_pages c x)" using pages fresh by (simp add: page_flags_def)
      then show "cached c' m = objs p m" using 2(6) [of m x] x(1) c(2) by simp
    qed (rule 2(2))
    then show ?thesis using that(2) [OF 2(1)] 2(3,4) by blast
  qed
qed

lemma read_page_ok:
  assumes ok: "pager_ok p"
  obtains r q where "read_page n p = (Inr r, q)" "pager_ok q" "page_view q = page_view p" "objs q n = Some r"
    "untouched {n} p q" "pgr_dirty q = pgr_dirty p" "objs p n \<noteq> None \<Longrightarrow> objs q = objs p"
  | e q where "read_page n p = (Inl e, q)" "pager_ok q" "page_view q = page_view p" "untouched {} p q" "pgr_dirty q = pgr_dirty p" "e \<noteq> Panic"
proof -
  let ?r = "pgr_next_ref p" and ?new = "\<lparr>pg_locked = True, pg_dirty = False, pg_loaded = False, pg_contents = False\<rparr>"
  note okD = pager_okD [OF ok]
  obtain c1 where c1: "cache_get n (pgr_cache p) = Some (objs p n, c1)" "cache_ok c1" "cached c1 = objs p" "pc_pages c1 = pc_pages (pgr_cache p)"
    using cache_get_ok [OF okD(2)] .
  show thesis
  proof (cases "objs p n")
    case (Some r)
    let ?q = "p\<lparr>pgr_cache := c1\<rparr>"
    have rd: "read_page n p = (Inr r, ?q)" using c1(1) Some by (simp add: read_page_def pg_defs)
    have u: "untouched K p ?q" for K
      using shrunk_same [OF ok c1(2-4)] okD(3) by (simp add: untouched_def rest_def page_size_of_def)
    show ?thesis
      by (rule that(1) [OF rd untouched_none(1,2) [OF ok u] _ u]) (use Some c1(3) in simp_all)
  next
    case None
    let ?c2 = "c1\<lparr>pc_pages := (pc_pages c1)(?r := ?new)\<rparr>"
    let ?p2 = "p\<lparr>pgr_next_ref := Suc ?r, pgr_cache := ?c2\<rparr>"
    have c2: "cache_ok ?c2" "cached ?c2 = objs p" using cache_set_flags_ok [OF c1(2)] c1(3) by simp_all
    have pages: "\<forall>x. x \<noteq> ?r \<longrightarrow> pc_pages ?c2 x = page_flags x p" using c1(4) by (simp add: page_flags_def)
    have rd: "read_page n p = (case cache_insert n ?r ?c2 of
        None \<Rightarrow> (Inl Panic, ?p2)
      | Some (Inl cache_error.Full, c) \<Rightarrow> (Inl CacheFull, ?p2\<lparr>pgr_cache := c\<rparr>)
      | Some (Inl KeyExists, c) \<Rightarrow> (Inl Panic, ?p2\<lparr>pgr_cache := c\<rparr>)
      | Some (Inl _, c) \<Rightarrow> (Inl (limbo_error.InternalError ''Failed to insert page into cache: ''), ?p2\<lparr>pgr_cache := c\<rparr>)
      | Some (Inr _, c) \<Rightarrow> (case fetch_page n (?p2\<lparr>pgr_cache := c\<rparr>) of
            (Inl e, p) \<Rightarrow> pg_bind (unreserve_cache_slot n ?r) (\<lambda>_. pg_err e) p
          | (Inr b, p) \<Rightarrow> pg_bind (finish_read_page n ?r b) (\<lambda>_. pg_ret ?r) p))"
      using c1 None by (simp add: read_page_def new_page_def set_page_flags_def pg_defs
        split: option.splits sum.splits cache_error.splits prod.splits)
    show ?thesis
      using ok None c2 pages
    proof (cases rule: insert_object)
      case (1 c)
      let ?q = "?p2\<lparr>pgr_cache := c\<rparr>"
      have u: "untouched {} p ?q" using 1(2) okD(3) by (simp add: untouched_def rest_def page_size_of_def)
      show ?thesis by (rule that(2) [of CacheFull ?q]) (use 1(1) rd untouched_none [OF ok u] u in simp_all)
    next
      case (2 c)
      let ?p3 = "?p2\<lparr>pgr_cache := c\<rparr>"
      have st: "store_ok ?p3" using okD(1) by (rule rest_store [rotated 3]) (simp_all add: rest_def)
      have pd: "disk ?p3 = disk p" "page_size_of ?p3 = page_size_of p" by (simp_all add: disk_def page_size_of_def)
      have flags: "pc_pages c ?r = ?new" using 2(4) by simp
      show ?thesis
        using st
      proof (cases rule: fetch_page_ok [where n = n])
        case (1 e)
        let ?c3 = "c\<lparr>pc_pages := (pc_pages c)(?r := ?new\<lparr>pg_locked := False\<rparr>)\<rparr>"
        have c3: "cache_ok ?c3" "cached ?c3 = cached c"
          using cache_set_flags_ok [OF shrunkD(1) [OF 2(2)]] by simp_all
        obtain res c4 where c4: "cache_delete n ?c3 = Some (res, c4)" "drops ?c3 c4" "\<And>m. m \<noteq> n \<Longrightarrow> cached c4 m = cached ?c3 m"
          "\<And>x. cached ?c3 n = Some x \<Longrightarrow> \<not> busy (pc_pages ?c3 x) \<Longrightarrow> cached c4 n = None"
          using cache_delete_ok [OF c3(1), of n] by blast
        have n4: "cached c4 n = None" using c4(4) [of ?r] 2(3) c3(2) by (simp add: busy_def)
        let ?q = "?p2\<lparr>pgr_cache := c4\<rparr>"
        have sh: "shrunk {} p c4"
          unfolding shrunk_def
        proof (intro conjI allI impI ballI)
          show "cache_ok c4" using dropsD(1) [OF c4(2)] .
          fix m x
          assume x: "cached c4 m = Some x"
          then have m: "m \<notin> {n}" "cached c m = Some x" using n4 c4(3) [of m] c3(2) by (cases "m = n"; simp)+
          show o: "objs p m = Some x" using shrunkD(2) [OF 2(2) m] .
          have "x \<noteq> ?r" using pager_fresh [OF ok, of m] o by auto
          then show "pc_pages c4 x = page_flags x p" using dropsD(3) [OF c4(2) x] shrunkD(3) [OF 2(2) m] by simp
        next
          fix m
          assume m: "m \<in> set (pgr_dirty p) - {}"
          then have "m \<noteq> n" using okD(5) [of m] None by auto
          then show "cached c4 m = objs p m" using c4(3) [of m] c3(2) shrunkD(4) [OF 2(2), of m] m by simp
        qed
        have u: "untouched {} p ?q" using sh okD(3) by (simp add: untouched_def rest_def page_size_of_def)
        have "read_page n p = (Inl e, ?q)"
          using rd 2(1) 1(1) c4(1) flags
          by (simp add: unreserve_cache_slot_def clear_locked_def set_page_flags_def page_flags_def pg_defs)
        then show ?thesis by (rule that(2)) (use untouched_none [OF ok u] u 1(3) in simp_all)
      next
        case f: (2 b bs)
        let ?ct = "page_content_new (if n = DATABASE_HEADER_PAGE_ID then 100 else 0) b"
        let ?c3 = "c\<lparr>pc_pages := (pc_pages c)(?r := ?new\<lparr>pg_locked := False, pg_loaded := True, pg_contents := True\<rparr>)\<rparr>"
        let ?q = "?p2\<lparr>pgr_cache := ?c3, pgr_pool := bs, pgr_contents := (pgr_contents p)(?r := ?ct)\<rparr>"
        have c3: "cache_ok ?c3" "cached ?c3 = cached c"
          using cache_set_flags_ok [OF shrunkD(1) [OF 2(2)]] by simp_all
        have q: "read_page n p = (Inr ?r, ?q)"
          using rd 2(1) f(1) flags by (simp add: finish_read_page_def set_contents_def set_page_flags_def page_flags_def pg_defs)
        have sh: "shrunk {n} p ?c3"
          unfolding shrunk_def
        proof (intro conjI allI impI ballI)
          show "cache_ok ?c3" by (rule c3)
          fix m x
          assume m: "m \<notin> {n}" and "cached ?c3 m = Some x"
          then have x: "cached c m = Some x" using c3(2) by simp
          show o: "objs p m = Some x" using shrunkD(2) [OF 2(2) m x] .
          have "x \<noteq> ?r" using pager_fresh [OF ok, of m] o by auto
          then show "pc_pages ?c3 x = page_flags x p" using shrunkD(3) [OF 2(2) m x] by simp
        next
          fix m
          assume "m \<in> set (pgr_dirty p) - {n}"
          then show "cached ?c3 m = objs p m" using shrunkD(4) [OF 2(2), of m] c3(2) by simp
        qed
        have "x \<noteq> ?r" if "m \<notin> {n}" "cached c m = Some x" for m x
          using pager_fresh [OF ok, of m] shrunkD(2) [OF 2(2) that] by auto
        then have u: "untouched {n} p ?q"
          using sh okD(3) f(2) c3(2) by (auto simp: untouched_def rest_def)
        have nd: "n \<notin> set (pgr_dirty p)" using okD(5) [of n] None by auto
        have dq: "disk ?q = disk p" "page_size_of ?q = page_size_of p" by (simp_all add: disk_def page_size_of_def)
        have oq: "objs ?q n = Some ?r" "pgr_dirty ?q = pgr_dirty p" using 2(3) c3(2) by simp_all
        have obj: "obj_ok ?q n ?r"
          using f(3,4) pd nd dq by (simp add: obj_ok_def page_flags_def page_content_new_def DATABASE_HEADER_PAGE_ID_def)
        have okq: "pager_ok ?q"
        proof (rule untouched_ok [OF ok u untouched_store [OF okD(1) u]])
          show "obj_ok ?q m x" if "m \<in> {n}" "objs ?q m = Some x" for m x
            using that obj oq(1) by (metis option.inject singletonD)
        qed (use oq nd in auto)
        have "page_view ?q m = page_view p m" for m
          using untouched_page(3) [OF ok u, of m] nd dq by (cases "m = n") (simp_all add: page_view_def)
        then have "page_view ?q = page_view p" by blast
        then show ?thesis using 2(3) c3(2) None by (intro that(1) [OF q okq _ _ u]) simp_all
      qed
    qed
  qed
qed

section \<open>Changing a page\<close>

text \<open>A cached page gets new contents and new flags, and is dirty.\<close>

definition put_page :: "nat \<Rightarrow> page_ref \<Rightarrow> page_state \<Rightarrow> page_content \<Rightarrow> pager \<Rightarrow> pager" where
  "put_page n r s ct p = p\<lparr>pgr_cache := (pgr_cache p)\<lparr>pc_pages := (pc_pages (pgr_cache p))(r := s)\<rparr>,
     pgr_dirty := (if n \<in> set (pgr_dirty p) then pgr_dirty p else pgr_dirty p @ [n]), pgr_contents := (pgr_contents p)(r := ct)\<rparr>"

definition dirty_flags :: "page_state \<Rightarrow> bool" where
  "dirty_flags s \<longleftrightarrow> \<not> pg_locked s \<and> pg_contents s \<and> pg_dirty s"

lemma put_page_ok:
  assumes ok: "pager_ok p" and r: "objs p n = Some r" and s: "dirty_flags s"
    and ct: "length (pgc_buffer ct) = page_size_of p" "pgc_offset ct = (if n = 1 then 100 else 0)"
  shows "pager_ok (put_page n r s ct p)" "page_view (put_page n r s ct p) = (page_view p)(n \<mapsto> pgc_buffer ct)"
    "untouched {n} p (put_page n r s ct p)" "objs (put_page n r s ct p) = objs p"
proof -
  let ?q = "put_page n r s ct p"
  note okD = pager_okD [OF ok]
  show oq: "objs ?q = objs p" using cache_set_flags_ok(2) [OF okD(2)] by (simp add: put_page_def)
  have inj: "objs p m = Some r \<Longrightarrow> m = n" for m using okD(2) r unfolding cache_ok_def by blast
  have "shrunk {n} p (pgr_cache ?q)"
    unfolding shrunk_def
  proof (intro conjI allI impI ballI)
    show "cache_ok (pgr_cache ?q)" using cache_set_flags_ok(1) [OF okD(2)] by (simp add: put_page_def)
    fix m x
    assume m: "m \<notin> {n}" "objs ?q m = Some x"
    then show o: "objs p m = Some x" using oq by simp
    have "x \<noteq> r" using inj [of m] o m(1) by auto
    then show "pc_pages (pgr_cache ?q) x = page_flags x p" by (simp add: put_page_def page_flags_def)
  qed (simp add: oq)
  moreover have "pgr_contents ?q x = pgr_contents p x" if "m \<notin> {n}" "objs ?q m = Some x" for m x
    using inj [of m] that oq by (auto simp: put_page_def)
  moreover have "set (pgr_dirty ?q) - {n} = set (pgr_dirty p) - {n}" "distinct (pgr_dirty ?q)"
    using okD(3) by (auto simp: put_page_def)
  ultimately show u: "untouched {n} p ?q"
    unfolding untouched_def by (simp add: put_page_def rest_def)
  have d: "n \<in> set (pgr_dirty ?q)" by (simp add: put_page_def)
  have obj: "obj_ok ?q n r"
    using s ct okD(4) [OF r] d by (simp add: obj_ok_def put_page_def page_flags_def dirty_flags_def page_size_of_def)
  show "pager_ok ?q"
  proof (rule untouched_ok [OF ok u untouched_store [OF okD(1) u]])
    show "obj_ok ?q m x" if "m \<in> {n}" "objs ?q m = Some x" for m x
      using that obj oq r by (metis option.inject singletonD)
  qed (use oq r in auto)
  show "page_view ?q = (page_view p)(n \<mapsto> pgc_buffer ct)"
  proof
    fix m
    show "page_view ?q m = ((page_view p)(n \<mapsto> pgc_buffer ct)) m"
      using untouched_page(3) [OF ok u, of m] d oq r by (cases "m = n") (simp_all add: page_view_def put_page_def)
  qed
qed

lemma set_page_flags_ok:
  assumes ok: "pager_ok p" and s: "\<And>x. pg_locked (f x) = pg_locked x" "\<And>x. pg_dirty (f x) = pg_dirty x" "\<And>x. pg_contents (f x) = pg_contents x"
  obtains q where "set_page_flags r f p = (Inr (), q)" "pager_ok q" "page_view q = page_view p" "objs q = objs p" "rest q = rest p"
    "pgr_header q = pgr_header p" "pgr_dirty q = pgr_dirty p"
proof -
  let ?q = "p\<lparr>pgr_cache := (pgr_cache p)\<lparr>pc_pages := (pc_pages (pgr_cache p))(r := f (page_flags r p))\<rparr>\<rparr>"
  note okD = pager_okD [OF ok]
  have q: "set_page_flags r f p = (Inr (), ?q)" by (simp add: set_page_flags_def pg_upd_def)
  have oq: "objs ?q = objs p" "cache_ok (pgr_cache ?q)" using cache_set_flags_ok [OF okD(2)] by simp_all
  have same: "pg_locked (page_flags x ?q) = pg_locked (page_flags x p)" "pg_dirty (page_flags x ?q) = pg_dirty (page_flags x p)"
    "pg_contents (page_flags x ?q) = pg_contents (page_flags x p)" for x
    by (simp_all add: page_flags_def s)
  have "store_ok ?q" using okD(1) by (rule rest_store [rotated 3]) (simp_all add: rest_def)
  moreover have "obj_ok ?q n x" if "objs ?q n = Some x" for n x
    using okD(4) [of n x] that oq same [of x] by (simp add: obj_ok_def page_size_of_def disk_def)
  ultimately have "pager_ok ?q" using okD(3,5) oq by (auto simp: pager_ok_def)
  moreover have "page_view ?q = page_view p" using oq(1) by (simp add: fun_eq_iff page_view_def disk_def)
  ultimately show thesis using that [OF q] oq(1) by (simp add: rest_def)
qed

lemma upd_header_ok:
  assumes ok: "pager_ok p" and h: "get_page_size h = get_page_size (pgr_header p)" "dh_reserved_space h = dh_reserved_space (pgr_header p)" "header_ok h"
  shows "pager_ok (p\<lparr>pgr_header := h\<rparr>)" "page_view (p\<lparr>pgr_header := h\<rparr>) = page_view p"
proof -
  let ?q = "p\<lparr>pgr_header := h\<rparr>"
  note okD = pager_okD [OF ok]
  have ps: "page_size_of ?q = page_size_of p" using h by (simp add: page_size_of_def)
  have dk: "disk ?q = disk p" by (simp add: disk_def)
  have "store_ok ?q" using okD(1) h ps by (simp add: store_ok_def)
  moreover have "obj_ok ?q n x = obj_ok p n x" for n x by (simp add: obj_ok_def ps dk page_flags_def)
  ultimately show "pager_ok ?q" using ok by (simp add: pager_ok_def)
  show "page_view ?q = page_view p" by (simp add: fun_eq_iff page_view_def dk)
qed

end
