(* ===== verification/PagerOps.thy ===== *)
theory PagerOps
  imports PagerInv
begin

text \<open>
  What the operations of the pager do to its invariant and to the contents of the database, on success and on every error:
  writing the header page, allocating and freeing pages, writing pointer map entries.
\<close>

section \<open>The header page\<close>

lemma store_okD:
  assumes "store_ok p"
  shows "log_ok (pgr_con p) (pgr_sh p)" "sh_max_frame (pgr_sh p) \<le> wf_max_frame (pgr_con p)"
    "page_size_of p = unat (wf_page_size (pgr_con p))" "b \<in> set (pgr_pool p) \<Longrightarrow> length b = page_size_of p"
    "io_db (pgr_io p) n = Some b \<Longrightarrow> length b = page_size_of p" "header_ok (pgr_header p)"
    "480 + unat (dh_reserved_space (pgr_header p)) \<le> page_size_of p" "512 \<le> page_size_of p" "page_size_of p \<le> 32768"
proof -
  show "log_ok (pgr_con p) (pgr_sh p)" "sh_max_frame (pgr_sh p) \<le> wf_max_frame (pgr_con p)"
    and ps: "page_size_of p = unat (wf_page_size (pgr_con p))" and "b \<in> set (pgr_pool p) \<Longrightarrow> length b = page_size_of p"
    and "io_db (pgr_io p) n = Some b \<Longrightarrow> length b = page_size_of p" "header_ok (pgr_header p)"
    "480 + unat (dh_reserved_space (pgr_header p)) \<le> page_size_of p"
    using assms by (simp_all add: store_ok_def)
  have "valid_page_size (wf_page_size (pgr_con p))" using assms by (simp add: store_ok_def log_ok_def)
  then show "512 \<le> page_size_of p" "page_size_of p \<le> 32768"
    using ps by (auto simp: valid_page_size_def)
qed

text \<open>
  \<open>alters K p q\<close>: from \<open>p\<close> to \<open>q\<close> the contents changed at most on the pages \<open>K\<close>, the log and the other fields did not
  change, and dirty pages stayed dirty and kept their objects.
\<close>

definition alters :: "nat set \<Rightarrow> pager \<Rightarrow> pager \<Rightarrow> bool" where
  "alters K p q \<longleftrightarrow> pager_ok q \<and> rest q = rest p \<and> (\<forall>m. m \<notin> K \<longrightarrow> page_view q m = page_view p m) \<and>
     (\<forall>m\<in>set (pgr_dirty p). m \<in> set (pgr_dirty q) \<and> objs q m = objs p m)"

lemma altersD:
  assumes "alters K p q"
  shows "pager_ok q" "rest q = rest p" "m \<notin> K \<Longrightarrow> page_view q m = page_view p m"
    "m \<in> set (pgr_dirty p) \<Longrightarrow> m \<in> set (pgr_dirty q)" "m \<in> set (pgr_dirty p) \<Longrightarrow> objs q m = objs p m"
  using assms unfolding alters_def by blast+

lemma alters_trans:
  assumes "alters K p q" "alters L q s" "K \<union> L \<subseteq> M"
  shows "alters M p s"
proof -
  note a = altersD [OF assms(1)] and b = altersD [OF assms(2)]
  have "page_view s m = page_view p m" if "m \<notin> M" for m
  proof -
    have "m \<notin> K" "m \<notin> L" using that assms(3) by blast+
    then show ?thesis using a(3) b(3) by simp
  qed
  moreover have "m \<in> set (pgr_dirty s) \<and> objs s m = objs p m" if "m \<in> set (pgr_dirty p)" for m
    using a(4,5) [OF that] b(4,5) [of m] by auto
  ultimately show ?thesis using a(2) b(1,2) unfolding alters_def by auto
qed

lemma untouched_alters:
  assumes "pager_ok p" "untouched {} p q"
  shows "alters {} p q"
proof -
  note u = untouched_none [OF assms]
  have "objs q m = objs p m" if "m \<in> set (pgr_dirty p)" for m
    using shrunkD(4) [OF untouchedD(1) [OF assms(2)] that] by simp
  then show ?thesis using u untouchedD(5) [OF assms(2)] unfolding alters_def by simp
qed

lemma alters_upd_header:
  assumes "pager_ok p" "get_page_size h = get_page_size (pgr_header p)" "dh_reserved_space h = dh_reserved_space (pgr_header p)" "header_ok h"
  shows "alters {} p (p\<lparr>pgr_header := h\<rparr>)"
  using upd_header_ok [OF assms] by (simp add: alters_def rest_def)

lemma alters_put_page:
  assumes "pager_ok p" "objs p n = Some r" "dirty_flags s" "length (pgc_buffer ct) = page_size_of p" "pgc_offset ct = (if n = 1 then 100 else 0)"
  shows "alters {n} p (put_page n r s ct p)"
  using put_page_ok [OF assms] by (simp add: alters_def put_page_def rest_def)

lemma read_page_alters:
  assumes ok: "pager_ok p"
  obtains r q where "read_page n p = (Inr r, q)" "alters {} p q" "objs q n = Some r" "obj_ok q n r" "pgr_header q = pgr_header p"
    "pgr_dirty q = pgr_dirty p" "untouched {n} p q" "objs p n \<noteq> None \<Longrightarrow> objs q = objs p"
    "\<And>b. page_view p n = Some b \<Longrightarrow> buf_of q r = b"
  | e q where "read_page n p = (Inl e, q)" "alters {} p q" "pgr_header q = pgr_header p" "pgr_dirty q = pgr_dirty p" "untouched {} p q" "e \<noteq> Panic"
  using ok
proof (cases rule: read_page_ok [where n = n])
  case (1 r q)
  note uD = untouchedD [OF 1(5)]
  have "objs q m = objs p m" if md: "m \<in> set (pgr_dirty p)" for m
  proof (cases "m = n")
    case True
    then show ?thesis using 1(7) pager_okD(5) [OF ok md] by auto
  next
    case False
    then show ?thesis using shrunkD(4) [OF uD(1) md] by simp
  qed
  then have al: "alters {} p q" using 1(2,3,6) uD(5) unfolding alters_def by simp
  have obj: "obj_ok q n r" using pager_okD(4) [OF 1(2,4)] .
  have "buf_of q r = b" if "page_view p n = Some b" for b
  proof -
    have "page_view q n = Some b" using that 1(3) by simp
    then show ?thesis using obj 1(4) by (auto simp: page_view_def obj_ok_def split: if_splits)
  qed
  then show ?thesis using that(1) [OF 1(1) al 1(4) obj uD(6) 1(6,5,7)] by blast
next
  case (2 e q)
  show ?thesis by (rule that(2) [OF 2(1) untouched_alters [OF ok 2(4)] untouchedD(6) [OF 2(4)] 2(5,4,6)])
qed

lemma write_database_header_ok:
  assumes ok: "pager_ok p"
  obtains q b where "write_database_header p = (Inr (), q)" "alters {1} p q" "page_view q 1 = Some (header_bytes (pgr_header p) @ b)"
    "pgr_header q = pgr_header p" "\<And>old. page_view p 1 = Some old \<Longrightarrow> b = drop 100 old"
  | e q where "write_database_header p = (Inl e, q)" "alters {} p q" "pgr_header q = pgr_header p" "e \<noteq> Panic"
  using ok
proof (cases rule: read_page_alters [where n = 1])
  case (1 r q)
  note okq = altersD(1) [OF 1(2)]
  note okD = pager_okD [OF okq]
  let ?c = "pgr_contents q r" and ?s = "(page_flags r q)\<lparr>pg_dirty := True\<rparr>"
  have len: "100 \<le> length (pgc_buffer ?c)" using 1(4) store_okD(8) [OF okD(1)] by (simp add: obj_ok_def)
  have hok: "header_ok (pgr_header p)" using store_okD(6) [OF okD(1)] 1(5) by simp
  let ?b = "header_bytes (pgr_header p) @ drop 100 (pgc_buffer ?c)"
  have w: "write_header_to_buf (pgr_header p) (pgc_buffer ?c) = Inr ?b" by (rule write_header_to_buf_eq [OF hok len])
  let ?q = "put_page 1 r ?s (?c\<lparr>pgc_buffer := ?b\<rparr>) q"
  have fl: "dirty_flags ?s" using 1(4) by (simp add: obj_ok_def dirty_flags_def)
  have "length ?b = page_size_of q" using 1(4) len header_ok_fields(2) [OF hok] by (simp add: obj_ok_def)
  then have pre: "length (pgc_buffer (?c\<lparr>pgc_buffer := ?b\<rparr>)) = page_size_of q"
    "pgc_offset (?c\<lparr>pgc_buffer := ?b\<rparr>) = (if (1::nat) = 1 then 100 else 0)"
    using 1(4) by (simp_all add: obj_ok_def)
  note put = put_page_ok [OF okq 1(3) fl pre]
  have run: "write_database_header p = (Inr (), ?q)"
    using 1(1,4) w 1(5)
    by (simp add: write_database_header_def DATABASE_HEADER_PAGE_ID_def set_dirty_def set_page_flags_def add_dirty_def set_contents_def
      page_flags_def obj_ok_def put_page_def pg_defs)
  have al: "alters {1} p ?q" using alters_trans [OF 1(2) alters_put_page [OF okq 1(3) fl pre]] by simp
  show ?thesis
  proof (rule that(1) [OF run al])
    show "page_view ?q 1 = Some ?b" using put(2) by simp
    show "drop 100 (pgc_buffer ?c) = drop 100 old" if "page_view p 1 = Some old" for old using 1(9) [OF that] by simp
  qed (simp add: put_page_def 1(5))
next
  case (2 e q)
  have "write_database_header p = (Inl e, q)"
    using 2(1) by (simp add: write_database_header_def DATABASE_HEADER_PAGE_ID_def pg_defs)
  then show ?thesis using that(2) 2 by blast
qed

section \<open>Allocating\<close>

lemma pool_get_ok:
  assumes "store_ok p"
  obtains b bs where "pool_get p = (Inr b, p\<lparr>pgr_pool := bs\<rparr>)" "set bs \<subseteq> set (pgr_pool p)" "length b = page_size_of p"
proof (cases "pgr_pool p")
  case Nil
  then show ?thesis by (intro that [of "replicate (page_size_of p) 0" "[]"]) (simp_all add: pool_get_def)
next
  case (Cons b bs)
  then show ?thesis using store_okD(4) [OF assms, of b] by (intro that [of b bs]) (auto simp: pool_get_def)
qed

text \<open>A new page object in the cache, marked dirty.\<close>

lemma new_object_ok:
  assumes ok: "pager_ok p" and n: "n \<noteq> 1"
  obtains p1 e q where "allocate_page_object 0 p = (Inr (pgr_next_ref p), p1)" "insert_new_page n (pgr_next_ref p) p1 = (Inl e, q)"
    "alters {} p q" "pgr_header q = pgr_header p" "pgr_dirty q = pgr_dirty p" "e \<noteq> Panic"
  | p1 q1 q where "allocate_page_object 0 p = (Inr (pgr_next_ref p), p1)" "insert_new_page n (pgr_next_ref p) p1 = (Inr (), q1)"
    "pg_bind (set_dirty (pgr_next_ref p)) (\<lambda>_. add_dirty n) q1 = (Inr (), q)"
    "alters {n} p q" "objs q n = Some (pgr_next_ref p)" "n \<in> set (pgr_dirty q)" "n \<notin> set (pgr_dirty p)" "objs p n = None"
    "pgr_header q = pgr_header p" "disk q n = disk p n"
proof -
  let ?r = "pgr_next_ref p" and ?s = "\<lparr>pg_locked = False, pg_dirty = False, pg_loaded = True, pg_contents = True\<rparr>"
  note okD = pager_okD [OF ok]
  obtain b bs where b: "pool_get p = (Inr b, p\<lparr>pgr_pool := bs\<rparr>)" "set bs \<subseteq> set (pgr_pool p)" "length b = page_size_of p"
    using pool_get_ok [OF okD(1)] .
  let ?c = "(pgr_cache p)\<lparr>pc_pages := (pc_pages (pgr_cache p))(?r := ?s)\<rparr>"
  let ?ct = "page_content_new 0 b"
  let ?p1 = "p\<lparr>pgr_pool := bs, pgr_next_ref := Suc ?r, pgr_cache := ?c, pgr_contents := (pgr_contents p)(?r := ?ct)\<rparr>"
  have a: "allocate_page_object 0 p = (Inr ?r, ?p1)"
    using b(1) by (simp add: allocate_page_object_def new_page_def set_page_flags_def set_contents_def pg_defs)
  have c: "cache_ok ?c" "cached ?c = objs p" using cache_set_flags_ok [OF okD(2)] by simp_all
  have pages: "\<forall>x. x \<noteq> ?r \<longrightarrow> pc_pages ?c x = page_flags x p" by (simp add: page_flags_def)
  have fresh: "x \<noteq> ?r" if "objs p m = Some x" for m x using pager_fresh [OF ok, of m] that by auto
  have unt: "untouched {} p (?p1\<lparr>pgr_cache := c'\<rparr>)" if "shrunk {} p c'" for c'
  proof -
    have "pgr_contents (?p1\<lparr>pgr_cache := c'\<rparr>) x = pgr_contents p x" if "cached c' m = Some x" for m x
      using fresh [of m x] shrunkD(2) [OF \<open>shrunk {} p c'\<close>] that by auto
    then show ?thesis using that okD(3) b(2) by (simp add: untouched_def rest_def)
  qed
  show thesis
  proof (cases "objs p n")
    case (Some x)
    have k: "cached ?c n = Some x" using Some c(2) by simp
    obtain e c' where c': "cache_insert n ?r ?c = Some (Inl e, c')" "cache_ok c'" "cached c' = cached ?c" "pc_pages c' = pc_pages ?c"
      using cache_insert_exists [OF c(1) k] .
    have sh: "shrunk {} p c'"
      using c'(2-4) c(2) fresh by (auto simp: shrunk_def page_flags_def)
    have i: "insert_new_page n ?r ?p1 = (Inl (case e of cache_error.Full \<Rightarrow> CacheFull | _ \<Rightarrow> limbo_error.InternalError ''Unknown error inserting page to cache''),
        ?p1\<lparr>pgr_cache := c'\<rparr>)"
      using c'(1) by (simp add: insert_new_page_def pg_defs split: cache_error.splits)
    show ?thesis
      by (rule that(1) [OF a i untouched_alters [OF ok unt [OF sh]]]) (simp_all split: cache_error.splits)
  next
    case None
    show ?thesis
      using ok None c pages
    proof (cases rule: insert_object)
      case (1 c')
      have i: "insert_new_page n ?r ?p1 = (Inl CacheFull, ?p1\<lparr>pgr_cache := c'\<rparr>)"
        using 1(1) by (simp add: insert_new_page_def pg_defs)
      show ?thesis by (rule that(1) [OF a i untouched_alters [OF ok unt [OF 1(2)]]]) simp_all
    next
      case (2 c')
      let ?q1 = "?p1\<lparr>pgr_cache := c'\<rparr>"
      have i: "insert_new_page n ?r ?p1 = (Inr (), ?q1)" using 2(1) by (simp add: insert_new_page_def pg_defs)
      have nd: "n \<notin> set (pgr_dirty p)" using okD(5) [of n] None by auto
      let ?c3 = "c'\<lparr>pc_pages := (pc_pages c')(?r := ?s\<lparr>pg_dirty := True\<rparr>)\<rparr>"
      let ?q = "?q1\<lparr>pgr_cache := ?c3, pgr_dirty := pgr_dirty p @ [n]\<rparr>"
      have d: "pg_bind (set_dirty ?r) (\<lambda>_. add_dirty n) ?q1 = (Inr (), ?q)"
        using nd 2(4) by (simp add: set_dirty_def set_page_flags_def add_dirty_def page_flags_def pg_defs)
      have c3: "cache_ok ?c3" "cached ?c3 = cached c'" using cache_set_flags_ok [OF shrunkD(1) [OF 2(2)]] by simp_all
      have fresh': "x \<noteq> ?r" if "m \<notin> {n}" "cached c' m = Some x" for m x
        using fresh shrunkD(2) [OF 2(2) that] by blast
      have "shrunk {n} p ?c3"
        unfolding shrunk_def
      proof (intro conjI allI impI ballI)
        fix m x
        assume m: "m \<notin> {n}" "cached ?c3 m = Some x"
        then have x: "cached c' m = Some x" using c3(2) by simp
        show "objs p m = Some x" using shrunkD(2) [OF 2(2) m(1) x] .
        show "pc_pages ?c3 x = page_flags x p" using shrunkD(3) [OF 2(2) m(1) x] fresh' [OF m(1) x] by simp
      next
        fix m
        assume "m \<in> set (pgr_dirty p) - {n}"
        then show "cached ?c3 m = objs p m" using shrunkD(4) [OF 2(2), of m] c3(2) by simp
      qed (rule c3)
      moreover have "pgr_contents ?q x = pgr_contents p x" if "m \<notin> {n}" "objs ?q m = Some x" for m x
        using fresh' [of m x] that c3(2) by simp
      ultimately have u: "untouched {n} p ?q"
        using okD(3) b(2) nd unfolding untouched_def by (simp add: rest_def)
      have oq: "objs ?q n = Some ?r" using 2(3) c3(2) by simp
      have obj: "obj_ok ?q n ?r"
        using n b(3) by (simp add: obj_ok_def page_flags_def page_size_of_def page_content_new_def)
      have okq: "pager_ok ?q"
      proof (rule untouched_ok [OF ok u untouched_store [OF okD(1) u]])
        show "obj_ok ?q m x" if "m \<in> {n}" "objs ?q m = Some x" for m x
          using that obj oq by (metis option.inject singletonD)
      qed (use oq in auto)
      have "objs ?q m = objs p m" if "m \<in> set (pgr_dirty p)" for m
      proof -
        have "m \<notin> {n}" using that nd by blast
        then show ?thesis using shrunkD(4) [OF untouchedD(1) [OF u] that] by simp
      qed
      then have al: "alters {n} p ?q"
        using okq untouched_page(3) [OF ok u] untouchedD(5) [OF u] unfolding alters_def by auto
      show ?thesis by (rule that(2) [OF a i d al oq _ nd None]) (simp_all add: disk_def)
    qed
  qed
qed

lemma unreserve_ok:
  assumes ok: "pager_ok p" and r: "objs p n = Some r" "n \<in> set (pgr_dirty p)"
  obtains q where "unreserve_ptrmap_page (Some (n, r)) p = (Inr (), q)" "pager_ok q" "rest q = rest p" "pgr_header q = pgr_header p"
    "page_view q = (page_view p)(n := disk p n)" "\<And>m. m \<in> set (pgr_dirty p) \<Longrightarrow> m \<noteq> n \<Longrightarrow> m \<in> set (pgr_dirty q) \<and> objs q m = objs p m"
proof -
  note okD = pager_okD [OF ok]
  have obj: "obj_ok p n r" using okD(4) [OF r(1)] .
  let ?c1 = "(pgr_cache p)\<lparr>pc_pages := (pc_pages (pgr_cache p))(r := (page_flags r p)\<lparr>pg_dirty := False\<rparr>)\<rparr>"
  have c1: "cache_ok ?c1" "cached ?c1 = objs p" using cache_set_flags_ok [OF okD(2)] by simp_all
  obtain res c2 where c2: "cache_delete n ?c1 = Some (res, c2)" "drops ?c1 c2" "\<And>m. m \<noteq> n \<Longrightarrow> cached c2 m = cached ?c1 m"
    "\<And>x. cached ?c1 n = Some x \<Longrightarrow> \<not> busy (pc_pages ?c1 x) \<Longrightarrow> cached c2 n = None"
    using cache_delete_ok [OF c1(1), of n] by blast
  have n2: "cached c2 n = None" using c2(4) [of r] r(1) c1(2) obj by (simp add: busy_def obj_ok_def)
  have eq2: "cached c2 m = objs p m" if "m \<noteq> n" for m using c2(3) [OF that] c1(2) by simp
  let ?q = "p\<lparr>pgr_cache := c2, pgr_dirty := filter (\<lambda>m. m \<noteq> n) (pgr_dirty p)\<rparr>"
  have run: "unreserve_ptrmap_page (Some (n, r)) p = (Inr (), ?q)"
    using c2(1) by (simp add: unreserve_ptrmap_page_def clear_dirty_def set_page_flags_def remove_dirty_def page_flags_def pg_defs)
  have "shrunk {n} p c2"
    unfolding shrunk_def
  proof (intro conjI allI impI ballI)
    show "cache_ok c2" using dropsD(1) [OF c2(2)] .
    fix m x
    assume m: "m \<notin> {n}" "cached c2 m = Some x"
    then show o: "objs p m = Some x" using eq2 [of m] by simp
    have "x \<noteq> r" using okD(2) r(1) o m(1) unfolding cache_ok_def by blast
    then show "pc_pages c2 x = page_flags x p" using dropsD(3) [OF c2(2) m(2)] by (simp add: page_flags_def)
  qed (use eq2 in auto)
  then have u: "untouched {n} p ?q" using okD(3) unfolding untouched_def by (auto simp: rest_def)
  have okq: "pager_ok ?q"
    by (rule untouched_ok [OF ok u untouched_store [OF okD(1) u]]) (use n2 in simp_all)
  have "page_view ?q m = ((page_view p)(n := disk p n)) m" for m
    using untouched_page(3) [OF ok u, of m] by (cases "m = n") (simp_all add: page_view_def disk_def)
  then have "page_view ?q = (page_view p)(n := disk p n)" by blast
  then show thesis using eq2 by (intro that [OF run okq]) (simp_all add: rest_def)
qed

lemma is_ptrmap_page_ok:
  assumes "512 \<le> ps" "ps \<le> 65536" "1 \<le> n"
  shows "\<exists>b. is_ptrmap_page n ps = Inr b"
proof (cases "n = 1")
  case False
  then obtain k where "get_ptrmap_page_no_for_db_page n ps = Inr (k * (ps div 5 + 1) + 2)"
    using ptrmap_page_no [OF assms(1,2), of n] assms(3) by fastforce
  then show ?thesis by (auto simp: is_ptrmap_page_def ptrmap_consts)
qed (auto simp: is_ptrmap_page_def)

text \<open>The pointer map page before the new page.\<close>

lemma reserve_ok:
  assumes ok: "pager_ok p" and n: "2 \<le> n"
  obtains q where "reserve_ptrmap_page n p = (Inr None, q)" "q = p"
  | r q where "reserve_ptrmap_page n p = (Inr (Some (n, r)), q)" "alters {n} p q" "objs q n = Some r" "n \<in> set (pgr_dirty q)"
    "n \<notin> set (pgr_dirty p)" "pgr_header q = pgr_header p" "disk q n = disk p n"
  | e q where "reserve_ptrmap_page n p = (Inl e, q)" "alters {} p q" "pgr_header q = pgr_header p" "e \<noteq> Panic"
proof (cases "pgr_auto_vacuum p = VacuumFull \<and> is_ptrmap_page n (page_size_of p) = Inr True")
  case False
  obtain b where b: "is_ptrmap_page n (page_size_of p) = Inr b"
    using is_ptrmap_page_ok [of "page_size_of p" n] store_okD(8,9) [OF pager_okD(1) [OF ok]] n by auto
  then have "reserve_ptrmap_page n p = (Inr None, p)" using False by (cases b) (auto simp: reserve_ptrmap_page_def pg_defs)
  then show ?thesis using that(1) by blast
next
  case True
  have n1: "n \<noteq> 1" using n by simp
  show ?thesis
    using ok n1
  proof (cases rule: new_object_ok)
    case (1 p1 e q)
    have "reserve_ptrmap_page n p = (Inl e, q)" using True 1(1,2) by (simp add: reserve_ptrmap_page_def pg_defs)
    then show ?thesis using that(3) 1(3,4,6) by blast
  next
    case (2 p1 q1 q)
    have "reserve_ptrmap_page n p = (Inr (Some (n, pgr_next_ref p)), q)"
      using True 2(1-3) by (auto simp: reserve_ptrmap_page_def pg_defs split: prod.splits sum.splits)
    then show ?thesis using that(2) 2(4-7,9,10) by blast
  qed
qed

abbreviation resized :: "nat \<Rightarrow> pager \<Rightarrow> database_header" where
  "resized n p \<equiv> (pgr_header p)\<lparr>dh_database_size := word_of_nat n\<rparr>"

lemma grow_ok:
  assumes ok: "pager_ok q" and q: "pg_bind (set_dirty r) (\<lambda>_. add_dirty n) q1 = (Inr (), q)"
  obtains s b where "grow n r q1 = (Inr (n, r), s)" "alters {1} q s" "pgr_header s = resized n q"
    "page_view s 1 = Some (header_bytes (resized n q) @ b)"
  | e s where "grow n r q1 = (Inl e, s)" "alters {} q s" "pgr_header s = resized n q" "e \<noteq> Panic"
proof -
  let ?q = "q\<lparr>pgr_header := resized n q\<rparr>"
  have al: "alters {} q ?q"
    using ok by (rule alters_upd_header) (use store_okD(6) [OF pager_okD(1) [OF ok]] in \<open>simp_all add: get_page_size_def header_ok_def\<close>)
  have g: "grow n r q1 = pg_bind write_database_header (\<lambda>_. pg_ret (n, r)) ?q"
    using q by (auto simp: grow_def pg_bind_def set_database_size_def pg_upd_def split: prod.splits sum.splits)
  have okq: "pager_ok ?q" using altersD(1) [OF al] .
  show thesis
    using okq
  proof (cases rule: write_database_header_ok)
    case (1 s b)
    have "grow n r q1 = (Inr (n, r), s)" using g 1(1) by (simp add: pg_defs)
    then show ?thesis using that(1) 1(3,4) alters_trans [OF al 1(2)] by simp
  next
    case (2 e s)
    have "grow n r q1 = (Inl e, s)" using g 2(1) by (simp add: pg_defs)
    then show ?thesis using that(2) 2(3,4) alters_trans [OF al 2(2)] by simp
  qed
qed

lemma alters_unreserve:
  assumes "alters {n} p p1" "objs p1 n = Some r" "n \<in> set (pgr_dirty p1)" "n \<notin> set (pgr_dirty p)" "disk p1 n = disk p n"
  obtains q where "unreserve_ptrmap_page (Some (n, r)) p1 = (Inr (), q)" "alters {} p q" "pgr_header q = pgr_header p1"
proof -
  note a = altersD [OF assms(1)]
  obtain q where q: "unreserve_ptrmap_page (Some (n, r)) p1 = (Inr (), q)" "pager_ok q" "rest q = rest p1" "pgr_header q = pgr_header p1"
    "page_view q = (page_view p1)(n := disk p1 n)"
    "\<And>m. m \<in> set (pgr_dirty p1) \<Longrightarrow> m \<noteq> n \<Longrightarrow> m \<in> set (pgr_dirty q) \<and> objs q m = objs p1 m"
    using unreserve_ok [OF a(1) assms(2,3)] by blast
  have "page_view q m = page_view p m" for m
    using a(3) [of m] q(5) assms(4,5) by (cases "m = n") (simp_all add: page_view_def)
  moreover have "m \<in> set (pgr_dirty q) \<and> objs q m = objs p m" if "m \<in> set (pgr_dirty p)" for m
    using q(6) a(4,5) that assms(4) by metis
  ultimately have "alters {} p q" using q(2,3) a(2) unfolding alters_def by simp
  then show thesis using that q(1,4) by blast
qed

text \<open>
  Allocating a page. The contents of the database change at most on the header page and on the new pages; on an error, on the
  new pages only.
\<close>

lemma allocate_page_ok:
  assumes ok: "pager_ok p" and sz: "1 \<le> db_size p" "db_size p + 2 < 2 ^ 32"
  obtains n r q where "allocate_page p = (Inr (n, r), q)" "n = db_size p + 1 \<or> n = db_size p + 2" "alters {1, db_size p + 1, db_size p + 2} p q"
    "objs q n = Some r" "n \<in> set (pgr_dirty q)" "pgr_header q = resized n p" "\<exists>b. page_view q 1 = Some (header_bytes (resized n p) @ b)"
  | e q where "allocate_page p = (Inl e, q)" "e \<noteq> Panic" "alters {db_size p + 1, db_size p + 2} p q"
    "pgr_header q = pgr_header p \<or> pgr_header q = resized (db_size p + 1) p \<or> pgr_header q = resized (db_size p + 2) p"
    "pgr_header q = pgr_header p \<Longrightarrow> alters {} p q"
proof -
  note good = that(1) and bad = that(2)
  let ?k = "db_size p + 1" and ?D = "{db_size p + 1, db_size p + 2}"
  have k: "2 \<le> ?k" "?k < 2 ^ 32" "?k + 1 < 2 ^ 32" using sz by simp_all
  have wide: "alters ?D p q" if "alters {} p q" for q
    using that unfolding alters_def by blast
  have main: thesis
    if pm: "reserve_ptrmap_page ?k p = (Inr pm, p1)" and n: "n = (if pm = None then ?k else db_size p + 2)"
      and okp1: "pager_ok p1" and al: "alters (?D - {n}) p p1" and hd: "pgr_header p1 = pgr_header p"
      and undo: "\<And>p2 e. alters {} p1 p2 \<Longrightarrow> pgr_header p2 = pgr_header p1 \<Longrightarrow>
        \<exists>q. pg_bind (unreserve_ptrmap_page pm) (\<lambda>_. pg_err e :: (nat \<times> page_ref) pg) p2 = (Inl e, q) \<and> alters {} p q \<and> pgr_header q = pgr_header p"
    for pm p1 n
  proof -
    have n': "n < 2 ^ 32" "n \<noteq> 1" "n = db_size p + 1 \<or> n = db_size p + 2" using n k sz by (auto split: if_splits)
    show thesis
      using okp1 n'(2)
    proof (cases rule: new_object_ok)
      case (1 p2 e q)
      have eq: "allocate_page p = pg_bind (unreserve_ptrmap_page pm) (\<lambda>_. pg_err e) q"
        using allocate_page_unfold [OF k(2) n'(1) n pm 1(1)] 1(2) by simp
      obtain s where s: "pg_bind (unreserve_ptrmap_page pm) (\<lambda>_. pg_err e :: (nat \<times> page_ref) pg) q = (Inl e, s)"
        "alters {} p s" "pgr_header s = pgr_header p"
        using undo [OF 1(3,4)] by blast
      show thesis by (rule bad [OF _ 1(6) wide [OF s(2)]]) (use eq s in simp_all)
    next
      case (2 p2 q1 q)
      have eq: "allocate_page p = grow n (pgr_next_ref p1) q1"
        using allocate_page_unfold [OF k(2) n'(1) n pm 2(1)] 2(2) by simp
      have alq: "alters ?D p q" using alters_trans [OF al 2(4)] n'(3) by blast
      have hq: "resized n q = resized n p" using 2(9) hd by simp
      show thesis
        using altersD(1) [OF 2(4)] 2(3)
      proof (cases rule: grow_ok)
        case (1 s b)
        have als: "alters {1, db_size p + 1, db_size p + 2} p s" using alters_trans [OF alq 1(2)] by blast
        have "objs s n = Some (pgr_next_ref p1)" "n \<in> set (pgr_dirty s)" using altersD(4,5) [OF 1(2) 2(6)] 2(5) by simp_all
        then show thesis using good [OF _ n'(3) als] eq 1(1,3,4) hq by simp
      next
        case g: (2 e s)
        have als: "alters ?D p s" using alters_trans [OF alq g(2)] by blast
        have "word_of_nat n \<noteq> dh_database_size (pgr_header p)"
          using n'(1,3) by (auto simp: unat_of_nat take_bit_nat_eq_self dest: arg_cong [where f = unat])
        then have "dh_database_size (pgr_header s) \<noteq> dh_database_size (pgr_header p)" using g(3) hq by simp
        then have "pgr_header s \<noteq> pgr_header p" by auto
        moreover have "pgr_header s = resized (db_size p + 1) p \<or> pgr_header s = resized (db_size p + 2) p"
          using g(3) hq n'(3) by (elim disjE) simp_all
        moreover have "allocate_page p = (Inl e, s)" using eq g(1) by simp
        ultimately show thesis using bad [OF _ g(4) als] by blast
      qed
    qed
  qed
  show thesis
    using ok k(1)
  proof (cases rule: reserve_ok)
    case (1 q)
    show thesis
    proof (rule main)
      show "reserve_ptrmap_page ?k p = (Inr None, p)" using 1 by simp
      show "alters (?D - {?k}) p p" using ok by (simp add: alters_def)
      show "\<exists>s. pg_bind (unreserve_ptrmap_page None) (\<lambda>_. pg_err e :: (nat \<times> page_ref) pg) p2 = (Inl e, s) \<and> alters {} p s \<and> pgr_header s = pgr_header p"
        if "alters {} p p2" "pgr_header p2 = pgr_header p" for p2 e
        using that by (simp add: unreserve_ptrmap_page_def pg_defs)
    qed (use ok in simp_all)
  next
    case (2 r q)
    show thesis
    proof (rule main)
      show "alters (?D - {db_size p + 2}) p q" using 2(2) by (simp add: insert_Diff_if)
      show "\<exists>s. pg_bind (unreserve_ptrmap_page (Some (?k, r))) (\<lambda>_. pg_err e :: (nat \<times> page_ref) pg) p2 = (Inl e, s) \<and> alters {} p s \<and> pgr_header s = pgr_header p"
        if al: "alters {} q p2" "pgr_header p2 = pgr_header q" for p2 e
      proof -
        have "alters {?k} p p2" using alters_trans [OF 2(2) al(1)] by simp
        moreover have "objs p2 ?k = Some r" "?k \<in> set (pgr_dirty p2)" using altersD(4,5) [OF al(1) 2(4)] 2(3) by simp_all
        moreover have "disk p2 ?k = disk p ?k" using rest_disk [OF altersD(2) [OF al(1)]] 2(7) by simp
        ultimately show ?thesis
          using alters_unreserve [of ?k p p2 r] 2(5,6) al(2) by (metis (no_types, lifting) pg_bind_def pg_err_def prod.case sum.case(2))
      qed
    qed (use 2 altersD(1) in auto)
  next
    case (3 e q)
    have "allocate_page p = (Inl e, q)"
      using 3(1) k(2) by (simp add: allocate_page_def pg_defs u32_checked_def)
    then show thesis using bad 3(2-4) wide by blast
  qed
qed

end
