(* ===== verification/PagerTx.thy ===== *)
theory PagerTx
  imports PagerOps
begin

text \<open>
  Flushing, savepoints, rollback and commit. A flush moves the contents of the dirty pages into the log and leaves what the pager
  shows as it was; the log before the flush stays, so that cutting it back restores what the pager showed then.
\<close>

section \<open>Flushing\<close>

text \<open>\<open>flushed ns p q\<close>: the cached pages \<open>ns\<close> were appended to the log, and their objects are clean.\<close>

definition flushed :: "nat list \<Rightarrow> pager \<Rightarrow> pager \<Rightarrow> bool" where
  "flushed ns p q \<longleftrightarrow> (\<exists>c sh. q = p\<lparr>pgr_cache := c, pgr_sh := sh\<rparr> \<and> cache_ok c \<and> cached c = objs p \<and>
     (\<forall>x. pc_pages c x = (page_flags x p)\<lparr>pg_dirty := pg_dirty (page_flags x p) \<and> (\<forall>n\<in>set ns. objs p n \<noteq> Some x)\<rparr>) \<and>
     log_ok (pgr_con p) sh \<and>
     newest_view (pgr_con p) sh (pgr_io p) = (\<lambda>n. if n \<in> set ns then map_option (buf_of p) (objs p n) else disk p n) \<and>
     sh_max_frame sh = sh_max_frame (pgr_sh p) + length ns \<and> log_ext (sh_max_frame (pgr_sh p)) (pgr_con p) (pgr_sh p) sh \<and>
     sh_nbackfills sh = sh_nbackfills (pgr_sh p) \<and> sh_read_locks sh = sh_read_locks (pgr_sh p) \<and> sh_write_lock sh = sh_write_lock (pgr_sh p))"

definition flushable :: "nat list \<Rightarrow> pager \<Rightarrow> bool" where
  "flushable ns p \<longleftrightarrow> cache_ok (pgr_cache p) \<and> log_ok (pgr_con p) (pgr_sh p) \<and> distinct ns \<and>
     (\<forall>n\<in>set ns. \<exists>r. objs p n = Some r \<and> pg_contents (page_flags r p) \<and> length (buf_of p r) = unat (wf_page_size (pgr_con p)))"

lemma wal_append_ok:
  assumes "flushable (n # ns) p" "cached c = objs p" "cache_ok c" "pc_pages c = pc_pages (pgr_cache p)"
  obtains r q where "objs p n = Some r" "pg_contents (page_flags r p)"
    "wal_append be n r d (p\<lparr>pgr_cache := c\<rparr>) = (Inr (), q)" "clear_dirty r q = (Inr (), q)" "flushed [n] p q"
proof -
  have fl: "cache_ok (pgr_cache p)" "log_ok (pgr_con p) (pgr_sh p)" using assms(1) by (simp_all add: flushable_def)
  obtain r where r: "objs p n = Some r" "pg_contents (page_flags r p)" "length (buf_of p r) = unat (wf_page_size (pgr_con p))"
    using assms(1) by (auto simp: flushable_def)
  obtain sh where sh: "append_frame be n (buf_of p r) d (pgr_con p) (pgr_sh p) = Inr sh" "log_ok (pgr_con p) sh"
    "sh_max_frame sh = Suc (sh_max_frame (pgr_sh p))"
    "\<And>m. frames_of sh m = (if m = n then frames_of (pgr_sh p) n @ [Suc (sh_max_frame (pgr_sh p))] else frames_of (pgr_sh p) m)"
    "frame_page (pgr_con p) sh (Suc (sh_max_frame (pgr_sh p))) = buf_of p r"
    "\<And>f. 0 < f \<Longrightarrow> f \<le> sh_max_frame (pgr_sh p) \<Longrightarrow> frame_page (pgr_con p) sh f = frame_page (pgr_con p) (pgr_sh p) f"
    "sh_nbackfills sh = sh_nbackfills (pgr_sh p)" "sh_read_locks sh = sh_read_locks (pgr_sh p)" "sh_write_lock sh = sh_write_lock (pgr_sh p)"
    by (rule append_frame_ok [OF fl(2) r(3), of be n d]) blast
  let ?c = "c\<lparr>pc_pages := (pc_pages c)(r := (page_flags r p)\<lparr>pg_dirty := False\<rparr>)\<rparr>"
  let ?q = "p\<lparr>pgr_cache := ?c, pgr_sh := sh\<rparr>"
  have w: "wal_append be n r d (p\<lparr>pgr_cache := c\<rparr>) = (Inr (), ?q)"
    using sh(1) assms(4) by (simp add: wal_append_def clear_dirty_def set_page_flags_def page_flags_def pg_defs)
  have cl: "clear_dirty r ?q = (Inr (), ?q)"
    by (simp add: clear_dirty_def set_page_flags_def page_flags_def pg_defs)
  have inj: "objs p n = Some x \<longleftrightarrow> x = r" for x using r(1) by auto
  have "flushed [n] p ?q"
    unfolding flushed_def
  proof (intro exI conjI allI)
    show "cache_ok ?c" "cached ?c = objs p" using cache_set_flags_ok [OF assms(3)] assms(2) by simp_all
    show "pc_pages ?c x = (page_flags x p)\<lparr>pg_dirty := pg_dirty (page_flags x p) \<and> (\<forall>n\<in>set [n]. objs p n \<noteq> Some x)\<rparr>" for x
      using assms(4) inj [of x] by (simp add: page_flags_def)
    show "newest_view (pgr_con p) sh (pgr_io p) = (\<lambda>m. if m \<in> set [n] then map_option (buf_of p) (objs p m) else disk p m)"
      using newest_view_append [OF fl(2) sh(2-6)] r(1) by (auto simp: fun_eq_iff disk_def)
    show "log_ext (sh_max_frame (pgr_sh p)) (pgr_con p) (pgr_sh p) sh"
      by (rule log_ext_append [OF log_ext_refl [OF fl(2)] sh(3,7,4,6)])
  qed (use sh in simp_all)
  then show thesis using that r(1,2) w cl by blast
qed

lemma flushed_trans:
  assumes "flushed ms p q" "flushed ns q s" "set ms \<inter> set ns = {}"
  shows "flushed (ms @ ns) p s"
proof -
  obtain c sh where q: "q = p\<lparr>pgr_cache := c, pgr_sh := sh\<rparr>" "cached c = objs p"
    "\<And>x. pc_pages c x = (page_flags x p)\<lparr>pg_dirty := pg_dirty (page_flags x p) \<and> (\<forall>n\<in>set ms. objs p n \<noteq> Some x)\<rparr>"
    "newest_view (pgr_con p) sh (pgr_io p) = (\<lambda>n. if n \<in> set ms then map_option (buf_of p) (objs p n) else disk p n)"
    "sh_max_frame sh = sh_max_frame (pgr_sh p) + length ms" "log_ext (sh_max_frame (pgr_sh p)) (pgr_con p) (pgr_sh p) sh"
    "sh_nbackfills sh = sh_nbackfills (pgr_sh p)" "sh_read_locks sh = sh_read_locks (pgr_sh p)" "sh_write_lock sh = sh_write_lock (pgr_sh p)"
    using assms(1) unfolding flushed_def by blast
  obtain c' sh' where s: "s = q\<lparr>pgr_cache := c', pgr_sh := sh'\<rparr>" "cache_ok c'" "cached c' = objs q"
    "\<And>x. pc_pages c' x = (page_flags x q)\<lparr>pg_dirty := pg_dirty (page_flags x q) \<and> (\<forall>n\<in>set ns. objs q n \<noteq> Some x)\<rparr>"
    "log_ok (pgr_con q) sh'"
    "newest_view (pgr_con q) sh' (pgr_io q) = (\<lambda>n. if n \<in> set ns then map_option (buf_of q) (objs q n) else disk q n)"
    "sh_max_frame sh' = sh_max_frame (pgr_sh q) + length ns" "log_ext (sh_max_frame (pgr_sh q)) (pgr_con q) (pgr_sh q) sh'"
    "sh_nbackfills sh' = sh_nbackfills (pgr_sh q)" "sh_read_locks sh' = sh_read_locks (pgr_sh q)" "sh_write_lock sh' = sh_write_lock (pgr_sh q)"
    using assms(2) unfolding flushed_def by blast
  show ?thesis
    unfolding flushed_def
  proof (intro exI conjI allI)
    show "s = p\<lparr>pgr_cache := c', pgr_sh := sh'\<rparr>" using s(1) q(1) by simp
    show "pc_pages c' x = (page_flags x p)\<lparr>pg_dirty := pg_dirty (page_flags x p) \<and> (\<forall>n\<in>set (ms @ ns). objs p n \<noteq> Some x)\<rparr>" for x
      using s(4) [of x] q(1,2) q(3) [of x] by (simp add: page_flags_def ball_Un)
    show "newest_view (pgr_con p) sh' (pgr_io p) = (\<lambda>n. if n \<in> set (ms @ ns) then map_option (buf_of p) (objs p n) else disk p n)"
      using s(6) q(1,2,4) by (auto simp: fun_eq_iff disk_def)
    show "log_ext (sh_max_frame (pgr_sh p)) (pgr_con p) (pgr_sh p) sh'"
      using log_ext_trans [OF q(6), of sh'] s(8,9) q(1) by simp
  qed (use s q in simp_all)
qed

lemma flushed_nil: "flushable ns p \<Longrightarrow> flushed [] p p"
  unfolding flushed_def
  by (intro exI [of _ "pgr_cache p"] exI [of _ "pgr_sh p"])
    (auto simp: flushable_def page_flags_def disk_def log_ext_refl)

lemma flushed_flushable:
  assumes "flushable (n # ns) p" "flushed [n] p q"
  shows "flushable ns q"
  using assms by (auto simp: flushable_def flushed_def page_flags_def)

lemma flush_ok:
  assumes "flushable ns p"
  shows "\<exists>q. flush_pages be d ns p = (Inr (), q) \<and> flush_commit be d ns p = (Inr (), q) \<and> flushed ns p q"
  using assms
proof (induction ns arbitrary: p)
  case Nil
  then show ?case using flushed_nil by (simp add: pg_defs)
next
  case (Cons n ns)
  have "cache_ok (pgr_cache p)" using Cons(2) by (simp add: flushable_def)
  then obtain c where c: "cache_get n (pgr_cache p) = Some (objs p n, c)" "cache_ok c" "cached c = objs p" "pc_pages c = pc_pages (pgr_cache p)"
    using cache_get_ok by blast
  obtain r q where q: "objs p n = Some r" "pg_contents (page_flags r p)"
    "wal_append be n r d (p\<lparr>pgr_cache := c\<rparr>) = (Inr (), q)" "clear_dirty r q = (Inr (), q)" "flushed [n] p q"
    using wal_append_ok [OF Cons(2) c(3,2,4)] by blast
  obtain s where s: "flush_pages be d ns q = (Inr (), s)" "flush_commit be d ns q = (Inr (), s)" "flushed ns q s"
    using Cons(1) [OF flushed_flushable [OF Cons(2) q(5)]] by blast
  have "flushed (n # ns) p s" using flushed_trans [OF q(5) s(3)] Cons(2) by (simp add: flushable_def)
  moreover have "flush_pages be d (n # ns) p = (Inr (), s)" using c(1) q(1,3) s(1) by (simp add: pg_defs)
  moreover have "flush_commit be d (n # ns) p = (Inr (), s)"
    using c(1,4) q s(2) by (simp add: pg_defs page_flags_def)
  ultimately show ?case by blast
qed

lemma pager_flushable:
  assumes ok: "pager_ok p"
  shows "flushable (pgr_dirty p) p"
  unfolding flushable_def
proof (intro conjI ballI)
  note okD = pager_okD [OF ok] and st = store_okD [OF pager_okD(1) [OF ok]]
  show "cache_ok (pgr_cache p)" "log_ok (pgr_con p) (pgr_sh p)" "distinct (pgr_dirty p)" by (rule okD st)+
  fix n
  assume "n \<in> set (pgr_dirty p)"
  then obtain r where r: "objs p n = Some r" using okD(5) by blast
  then show "\<exists>r. objs p n = Some r \<and> pg_contents (page_flags r p) \<and> length (buf_of p r) = unat (wf_page_size (pgr_con p))"
    using okD(4) [OF r] st(3) by (simp add: obj_ok_def)
qed

text \<open>The log and the cache after a flush of all dirty pages, with the reader at the end of the log.\<close>

lemma flushed_store:
  assumes "store_ok p" "flushed ns p q" "rest s = rest (q\<lparr>pgr_con := (pgr_con p)\<lparr>wf_max_frame := sh_max_frame (pgr_sh q)\<rparr>\<rparr>)"
    "pgr_header s = pgr_header p" "pgr_pool s = pgr_pool p"
  shows "store_ok s"
  using assms by (auto simp: flushed_def store_ok_def rest_def page_size_of_def)

lemma flushed_ok:
  assumes ok: "pager_ok p" and fl: "flushed (pgr_dirty p) p q"
    and s: "s = q\<lparr>pgr_dirty := [], pgr_con := (pgr_con p)\<lparr>wf_max_frame := sh_max_frame (pgr_sh q)\<rparr>\<rparr>"
  shows "pager_ok s" "page_view s = page_view p" "disk s = page_view p"
proof -
  note okD = pager_okD [OF ok]
  obtain c sh where q: "q = p\<lparr>pgr_cache := c, pgr_sh := sh\<rparr>" "cache_ok c" "cached c = objs p"
    "\<And>x. pc_pages c x = (page_flags x p)\<lparr>pg_dirty := pg_dirty (page_flags x p) \<and> (\<forall>n\<in>set (pgr_dirty p). objs p n \<noteq> Some x)\<rparr>"
    "newest_view (pgr_con p) sh (pgr_io p) = (\<lambda>n. if n \<in> set (pgr_dirty p) then map_option (buf_of p) (objs p n) else disk p n)"
    using fl unfolding flushed_def by blast
  show dk: "disk s = page_view p" using q(1,5) s by (simp add: disk_def page_view_def fun_eq_iff)
  then show "page_view s = page_view p" using s by (simp add: fun_eq_iff page_view_def)
  have st: "store_ok s" by (rule flushed_store [OF okD(1) fl]) (use s q(1) in \<open>simp_all add: rest_def\<close>)
  have os: "objs s = objs p" using s q(1,3) by simp
  have "obj_ok s n r" if r: "objs s n = Some r" for n r
  proof -
    have r': "objs p n = Some r" using r os by simp
    note o = okD(4) [OF r', unfolded obj_ok_def]
    have "\<not> pg_dirty (page_flags r s)" using o r' q(1) q(4) [of r] s by (auto simp: page_flags_def)
    moreover have "buf_of p r = b" if "page_view p n = Some b" for b
      using that o r' by (auto simp: page_view_def split: if_splits)
    ultimately show ?thesis
      using o q(1) q(4) [of r] s dk by (auto simp: obj_ok_def page_flags_def page_size_of_def)
  qed
  then show "pager_ok s" using st q(1,2) s by (simp add: pager_ok_def)
qed

section \<open>Savepoints\<close>

text \<open>What the log shows when it is cut back to a savepoint, and the abstract state of the pager: the contents of the database and the stack of savepoints.\<close>

definition saved :: "pager \<Rightarrow> savepoint_frame \<Rightarrow> nat \<Rightarrow> bytes option" where
  "saved p sp = newest_view (pgr_con p) (rollback_to_frame (sp_wal_max_frame sp) (sp_wal_checksum sp) (pgr_sh p)) (pgr_io p)"

type_synonym contents = "nat \<Rightarrow> bytes option"

type_synonym db_state = "contents \<times> (string \<times> bool \<times> contents) list"

definition db_of :: "pager \<Rightarrow> db_state" where
  "db_of p = (page_view p, map (\<lambda>sp. (sp_name sp, sp_is_transaction_owner sp, saved p sp)) (pgr_savepoints p))"

definition savepoints_ok :: "pager \<Rightarrow> bool" where
  "savepoints_ok p \<longleftrightarrow> sorted (map sp_wal_max_frame (pgr_savepoints p)) \<and>
     (\<forall>sp\<in>set (pgr_savepoints p). sh_nbackfills (pgr_sh p) \<le> sp_wal_max_frame sp \<and> sp_wal_max_frame sp \<le> sh_max_frame (pgr_sh p))"

definition pager_inv :: "pager \<Rightarrow> bool" where
  "pager_inv p \<longleftrightarrow> pager_ok p \<and> savepoints_ok p"

text \<open>What the log shows when it is cut back to the start of the write transaction.\<close>

definition txn_start :: "pager \<Rightarrow> contents" where
  "txn_start p = newest_view (pgr_con p) (wal_rollback (pgr_con p) (pgr_sh p)) (pgr_io p)"

definition in_txn :: "pager \<Rightarrow> bool" where
  "in_txn p \<longleftrightarrow> sh_nbackfills (pgr_sh p) \<le> wf_txn_start_max_frame (pgr_con p) \<and> wf_txn_start_max_frame (pgr_con p) \<le> sh_max_frame (pgr_sh p) \<and>
     (\<forall>sp\<in>set (pgr_savepoints p). wf_txn_start_max_frame (pgr_con p) \<le> sp_wal_max_frame sp)"

text \<open>No flush, sync or checkpoint is under way.\<close>

definition commit_ready :: "pager \<Rightarrow> bool" where
  "commit_ready p \<longleftrightarrow> pgr_flush_state p = FlushStart \<and> pgr_checkpoint_state p = PcCheckpoint \<and> pgr_in_flight p = 0 \<and>
     wf_sync_state (pgr_con p) = NotSyncing \<and> oc_state (wf_ongoing (pgr_con p)) = CStart \<and> io_pending (pgr_io p) = [] \<and>
     io_write_counter (pgr_io p) = 0 \<and> wf_min_frame (pgr_con p) \<le> sh_nbackfills (pgr_sh p) + 1 \<and>
     wf_max_frame_read_lock_index (pgr_con p) < length (sh_read_locks (pgr_sh p))"

definition txn_kept :: "pager \<Rightarrow> pager \<Rightarrow> bool" where
  "txn_kept p q \<longleftrightarrow> (in_txn p \<longrightarrow> in_txn q \<and> txn_start q = txn_start p) \<and> (commit_ready p \<longrightarrow> commit_ready q) \<and>
     sh_write_lock (pgr_sh q) = sh_write_lock (pgr_sh p)"

lemma txn_kept_trans: "txn_kept p q \<Longrightarrow> txn_kept q s \<Longrightarrow> txn_kept p s"
  by (simp add: txn_kept_def)

lemma txn_kept_rest: "rest q = rest p \<Longrightarrow> txn_kept p q"
  by (simp add: txn_kept_def in_txn_def txn_start_def commit_ready_def rest_def)

lemma log_ext_rollback:
  assumes "log_ok con sh" "sh_nbackfills sh \<le> k" "k \<le> sh_max_frame sh"
  shows "log_ext k con (rollback_to_frame k c sh) sh"
  using assms filter_le_le [of k k] by (simp add: log_ext_def frames_of_rollback)

lemma rollback_view_ext:
  assumes "log_ok con sh" "sh_nbackfills sh \<le> k" "k \<le> sh_max_frame sh" "log_ext (sh_max_frame sh) con sh sh'" "sh_nbackfills sh' = sh_nbackfills sh"
  shows "newest_view con (rollback_to_frame k c sh') io = newest_view con (rollback_to_frame k c sh) io"
  using rollback_view [OF log_ext_trans [OF log_ext_rollback [OF assms(1-3)] assms(4,5)] rollback_log_ok [OF assms(1-3)]] by simp

lemma rollback_view_rollback:
  assumes "log_ok con sh" "sh_nbackfills sh \<le> k" "k \<le> m" "m \<le> sh_max_frame sh"
  shows "newest_view con (rollback_to_frame k c (rollback_to_frame m d sh)) io = newest_view con (rollback_to_frame k c sh) io"
proof -
  have k: "k \<le> sh_max_frame sh" using assms(3,4) by simp
  show ?thesis
    using rollback_view [OF rollback_log_ext [OF log_ext_rollback [OF assms(1,2) k] assms(3,4)] rollback_log_ok [OF assms(1,2) k]] by simp
qed

lemma flush_dirty_ok:
  assumes inv: "pager_inv p"
  obtains q where "flush_dirty_pages_to_wal be p = (Inr (), q)" "pager_inv q" "db_of q = db_of p" "pgr_dirty q = []"
    "pgr_savepoints q = pgr_savepoints p" "disk q = page_view p" "pgr_header q = pgr_header p" "txn_kept p q"
proof (cases "pgr_dirty p = []")
  case True
  then have "flush_dirty_pages_to_wal be p = (Inr (), p)" by (simp add: flush_dirty_pages_to_wal_def pg_defs)
  then show ?thesis using that inv True by (simp add: page_view_def fun_eq_iff txn_kept_def)
next
  case False
  have ok: "pager_ok p" and sp: "savepoints_ok p" using inv by (simp_all add: pager_inv_def)
  have log: "log_ok (pgr_con p) (pgr_sh p)" using store_okD(1) [OF pager_okD(1) [OF ok]] .
  obtain q where q: "flush_pages be (dh_database_size (pgr_header p)) (pgr_dirty p) p = (Inr (), q)" "flushed (pgr_dirty p) p q"
    using flush_ok [OF pager_flushable [OF ok]] by blast
  obtain c sh where cs: "q = p\<lparr>pgr_cache := c, pgr_sh := sh\<rparr>" "log_ext (sh_max_frame (pgr_sh p)) (pgr_con p) (pgr_sh p) sh"
    "sh_nbackfills sh = sh_nbackfills (pgr_sh p)" "sh_max_frame sh = sh_max_frame (pgr_sh p) + length (pgr_dirty p)"
    "sh_read_locks sh = sh_read_locks (pgr_sh p)" "sh_write_lock sh = sh_write_lock (pgr_sh p)"
    using q(2) unfolding flushed_def by blast
  let ?s = "q\<lparr>pgr_dirty := [], pgr_con := (pgr_con p)\<lparr>wf_max_frame := sh_max_frame (pgr_sh q)\<rparr>\<rparr>"
  note s = flushed_ok [OF ok q(2) refl]
  have run: "flush_dirty_pages_to_wal be p = (Inr (), ?s)"
    using False q(1) cs(1) by (simp add: flush_dirty_pages_to_wal_def pg_defs set_reader_frame_def set_reader_max_frame_def current_frame_state_def)
  have "saved ?s x = saved p x" if "x \<in> set (pgr_savepoints p)" for x
    using that sp rollback_view_ext [OF log _ _ cs(2,3)] cs(1) by (simp add: saved_def savepoints_ok_def)
  then have db: "db_of ?s = db_of p" using s(2) cs(1) by (simp add: db_of_def)
  have "txn_kept p ?s"
    using rollback_view_ext [OF log _ _ cs(2,3)] cs by (auto simp: txn_kept_def in_txn_def txn_start_def wal_rollback_def commit_ready_def)
  moreover have "savepoints_ok ?s" using sp cs by (fastforce simp: savepoints_ok_def)
  ultimately show ?thesis using s db cs(1) by (intro that [OF run]) (simp_all add: pager_inv_def)
qed

lemma open_savepoint_ok:
  assumes inv: "pager_inv p"
  obtains q where "open_savepoint be name own p = (Inr (), q)" "pager_inv q"
    "db_of q = (fst (db_of p), snd (db_of p) @ [(name, own, fst (db_of p))])" "pgr_header q = pgr_header p" "txn_kept p q"
proof -
  obtain s where s: "flush_dirty_pages_to_wal be p = (Inr (), s)" "pager_inv s" "db_of s = db_of p" "pgr_dirty s = []"
    "pgr_savepoints s = pgr_savepoints p" "disk s = page_view p" "pgr_header s = pgr_header p" "txn_kept p s"
    using flush_dirty_ok [OF inv] .
  let ?sp = "\<lparr>sp_name = name, sp_wal_max_frame = sh_max_frame (pgr_sh s), sp_wal_checksum = sh_last_checksum (pgr_sh s), sp_is_transaction_owner = own\<rparr>"
  let ?q = "s\<lparr>pgr_savepoints := pgr_savepoints s @ [?sp]\<rparr>"
  have run: "open_savepoint be name own p = (Inr (), ?q)"
    using s(1) by (simp add: open_savepoint_def pg_defs current_frame_state_def)
  have ok: "pager_ok s" and sp: "savepoints_ok s" using s(2) by (simp_all add: pager_inv_def)
  have log: "log_ok (pgr_con s) (pgr_sh s)" using store_okD(1) [OF pager_okD(1) [OF ok]] .
  have "pager_ok ?q" using ok by (simp add: pager_ok_def store_ok_def obj_ok_def page_size_of_def page_flags_def disk_def)
  moreover have "savepoints_ok ?q" using sp log by (auto simp: savepoints_ok_def sorted_append log_ok_def)
  moreover have "saved ?q x = saved s x" for x by (simp add: saved_def)
  moreover have "saved s ?sp = page_view p"
    using rollback_view [OF log_ext_refl [OF log] log refl] s(6) by (simp add: saved_def disk_def)
  moreover have "page_view ?q = page_view s" by (simp add: fun_eq_iff page_view_def disk_def)
  moreover have "txn_kept s ?q" by (auto simp: txn_kept_def in_txn_def txn_start_def commit_ready_def)
  ultimately show thesis
    using s(3,7) txn_kept_trans [OF s(8)] by (intro that [OF run]) (simp_all add: pager_inv_def db_of_def)
qed

lemma rposition_map: "rposition P (map f xs) = rposition (\<lambda>x. P (f x)) xs"
  by (induction xs) (simp_all split: option.split)

lemma rpositionD: "rposition P xs = Some i \<Longrightarrow> i < length xs \<and> P (xs ! i)"
  by (induction xs arbitrary: i) (auto split: option.splits if_splits)

text \<open>Emptying the cache drops the changes that are not in the log.\<close>

lemma clear_page_cache_ok:
  assumes ok: "pager_ok p"
  obtains c where "\<forall>q. pgr_cache q = pgr_cache p \<longrightarrow> clear_page_cache q = (Inr (), q\<lparr>pgr_dirty := [], pgr_cache := c\<rparr>)" "cache_ok c" "\<forall>n. cached c n = None"
proof -
  note okD = pager_okD [OF ok]
  obtain c where c: "unset_dirty_all_pages (pgr_cache p) = Some c" "cache_ok c" "cached c = objs p"
    "\<And>r. pg_locked (pc_pages c r) = pg_locked (pc_pages (pgr_cache p) r)" "\<And>n r. objs p n = Some r \<Longrightarrow> \<not> pg_dirty (pc_pages c r)"
    using unset_dirty_ok [OF okD(2)] by blast
  have nb: "\<not> busy (pc_pages c r)" if "cached c n = Some r" for n r
    using c(3,4) c(5) [of n r] okD(4) [of n r] that by (simp add: busy_def obj_ok_def page_flags_def)
  obtain c' where c': "cache_clear c = Some (Inr (), c')" "cache_ok c'" "\<And>n. cached c' n = None"
    by (rule cache_clear_ok [OF c(2)]) (use nb in blast)+
  have "\<forall>q. pgr_cache q = pgr_cache p \<longrightarrow> clear_page_cache q = (Inr (), q\<lparr>pgr_dirty := [], pgr_cache := c'\<rparr>)"
    using c(1) c'(1) by (simp add: clear_page_cache_def pg_defs)
  then show thesis using that c'(2,3) by blast
qed

lemma empty_cache_ok:
  assumes "store_ok p" "cache_ok (pgr_cache p)" "\<And>n. objs p n = None" "pgr_dirty p = []"
  shows "pager_ok p" "page_view p = disk p"
  using assms by (simp_all add: pager_ok_def page_view_def fun_eq_iff)

lemma cut_store:
  assumes "store_ok p" "sh_nbackfills (pgr_sh p) \<le> k" "k \<le> sh_max_frame (pgr_sh p)" "k \<le> m"
    "pgr_con s = (pgr_con p)\<lparr>wf_max_frame := m\<rparr>" "pgr_sh s = rollback_to_frame k c (pgr_sh p)" "pgr_io s = pgr_io p" "pgr_read_error s = pgr_read_error p"
    "pgr_header s = pgr_header p" "pgr_pool s = pgr_pool p"
  shows "store_ok s"
  using assms(1,4-) rollback_log_ok [OF store_okD(1) [OF assms(1)] assms(2,3), of c]
  by (simp add: store_ok_def page_size_of_def)

lemma rollback_to_savepoint_missing:
  assumes "rposition (\<lambda>sp. eq_ignore_ascii_case (sp_name sp) name) (pgr_savepoints p) = None"
  shows "rollback_to_savepoint name p = (Inl (ParseError ''no such savepoint: ''), p)"
    "release_savepoint name p = (Inl (ParseError ''no such savepoint: ''), p)"
  using assms by (simp_all add: rollback_to_savepoint_def release_savepoint_def find_savepoint_def pg_defs)

lemma rollback_to_savepoint_ok:
  assumes inv: "pager_inv p" and i: "rposition (\<lambda>sp. eq_ignore_ascii_case (sp_name sp) name) (pgr_savepoints p) = Some i"
  obtains q where "rollback_to_savepoint name p = (Inr (), q)" "pager_inv q"
    "db_of q = (snd (snd (snd (db_of p) ! i)), take (i + 1) (snd (db_of p)))" "pgr_header q = pgr_header p" "txn_kept p q"
proof -
  have ok: "pager_ok p" and sp: "savepoints_ok p" using inv by (simp_all add: pager_inv_def)
  note st = pager_okD(1) [OF ok]
  note log = store_okD(1) [OF st]
  have il: "i < length (pgr_savepoints p)" using rpositionD [OF i] by simp
  let ?sp = "pgr_savepoints p ! i"
  let ?k = "sp_wal_max_frame ?sp"
  have k: "sh_nbackfills (pgr_sh p) \<le> ?k" "?k \<le> sh_max_frame (pgr_sh p)" using sp il by (auto simp: savepoints_ok_def)
  obtain c where c: "\<forall>q. pgr_cache q = pgr_cache p \<longrightarrow> clear_page_cache q = (Inr (), q\<lparr>pgr_dirty := [], pgr_cache := c\<rparr>)" "cache_ok c" "\<forall>n. cached c n = None"
    using clear_page_cache_ok [OF ok] .
  define q where "q = p\<lparr>pgr_savepoints := take (i + 1) (pgr_savepoints p), pgr_dirty := [], pgr_cache := c,
    pgr_sh := rollback_to_frame ?k (sp_wal_checksum ?sp) (pgr_sh p), pgr_con := (pgr_con p)\<lparr>wf_max_frame := ?k\<rparr>,
    pgr_flush_state := FlushStart, pgr_checkpoint_state := PcCheckpoint, pgr_syncing := False\<rparr>"
  have run: "rollback_to_savepoint name p = (Inr (), q)"
    using i il c(1) by (simp add: rollback_to_savepoint_def find_savepoint_def pg_defs slice_idx_def set_reader_frame_def set_reader_max_frame_def q_def)
  have "store_ok q" by (rule cut_store [OF st k order_refl]) (simp_all add: q_def)
  then have okq: "pager_ok q" "page_view q = disk q" using empty_cache_ok [of q] c(2,3) by (simp_all add: q_def)
  have sorted: "sp_wal_max_frame (pgr_savepoints p ! j) \<le> ?k" if "j \<le> i" for j
    using sp that il sorted_nth_mono [of "map sp_wal_max_frame (pgr_savepoints p)" j i] by (simp add: savepoints_ok_def)
  have below: "sh_nbackfills (pgr_sh p) \<le> sp_wal_max_frame x \<and> sp_wal_max_frame x \<le> ?k" if x: "x \<in> set (take (i + 1) (pgr_savepoints p))" for x
  proof -
    obtain j where j: "x = pgr_savepoints p ! j" "j \<le> i" using x il by (auto simp: in_set_conv_nth)
    then show ?thesis using sp sorted [of j] il by (auto simp: savepoints_ok_def)
  qed
  have sv: "saved q x = saved p x" if "x \<in> set (take (i + 1) (pgr_savepoints p))" for x
    using rollback_view_rollback [OF log _ _ k(2)] below [OF that] by (simp add: q_def saved_def)
  have "disk q = saved p ?sp" by (simp add: q_def disk_def saved_def)
  then have db: "db_of q = (saved p ?sp, map (\<lambda>sp. (sp_name sp, sp_is_transaction_owner sp, saved p sp)) (take (i + 1) (pgr_savepoints p)))"
    using okq(2) sv by (simp add: db_of_def q_def)
  have "savepoints_ok q"
    using below sp by (simp add: savepoints_ok_def q_def take_map [symmetric] sorted_wrt_take)
  moreover have "txn_kept p q"
  proof -
    have "wf_txn_start_max_frame (pgr_con p) \<le> ?k" if "in_txn p" using that il by (simp add: in_txn_def)
    then show ?thesis
      using rollback_view_rollback [OF log _ _ k(2)] by (auto simp: txn_kept_def in_txn_def txn_start_def commit_ready_def wal_rollback_def q_def dest: in_set_takeD)
  qed
  ultimately show thesis using okq(1) db il by (intro that [OF run]) (simp_all add: pager_inv_def db_of_def take_map q_def)
qed

lemma release_savepoint_ok:
  assumes inv: "pager_inv p" and i: "rposition (\<lambda>sp. eq_ignore_ascii_case (sp_name sp) name) (pgr_savepoints p) = Some i"
  obtains q where "release_savepoint name p = (Inr (fst (snd (snd (db_of p) ! i))), q)" "pager_inv q"
    "db_of q = (fst (db_of p), take i (snd (db_of p)))" "pgr_header q = pgr_header p" "txn_kept p q"
proof -
  have il: "i < length (pgr_savepoints p)" using rpositionD [OF i] by simp
  let ?q = "p\<lparr>pgr_savepoints := take i (pgr_savepoints p)\<rparr>"
  have run: "release_savepoint name p = (Inr (sp_is_transaction_owner (pgr_savepoints p ! i)), ?q)"
    using i il by (simp add: release_savepoint_def find_savepoint_def pg_defs slice_idx_def)
  have "pager_ok ?q" using inv by (simp add: pager_inv_def pager_ok_def store_ok_def obj_ok_def page_size_of_def page_flags_def disk_def)
  moreover have "savepoints_ok ?q"
    using inv by (auto simp: pager_inv_def savepoints_ok_def take_map [symmetric] sorted_wrt_take dest: in_set_takeD)
  moreover have "page_view ?q = page_view p" "saved ?q x = saved p x" for x by (simp_all add: fun_eq_iff page_view_def disk_def saved_def)
  moreover have "txn_kept p ?q" by (auto simp: txn_kept_def in_txn_def txn_start_def commit_ready_def dest: in_set_takeD)
  ultimately show thesis using run il by (intro that [of ?q]) (simp_all add: pager_inv_def db_of_def take_map)
qed

section \<open>Rollback and commit\<close>

lemma pager_rollback_ok:
  assumes ok: "pager_ok p" and tx: "in_txn p"
  obtains q where "pager_rollback p = (Inr (), q)" "pager_inv q" "db_of q = (txn_start p, [])" "pgr_dirty q = []"
    "pgr_header q = pgr_header p" "pgr_con q = pgr_con p" "pgr_sh q = wal_rollback (pgr_con p) (pgr_sh p)"
proof -
  note st = pager_okD(1) [OF ok]
  obtain c where c: "\<forall>q. pgr_cache q = pgr_cache p \<longrightarrow> clear_page_cache q = (Inr (), q\<lparr>pgr_dirty := [], pgr_cache := c\<rparr>)" "cache_ok c" "\<forall>n. cached c n = None"
    using clear_page_cache_ok [OF ok] .
  define q where "q = p\<lparr>pgr_dirty := [], pgr_cache := c, pgr_flush_state := FlushStart, pgr_in_flight := 0, pgr_checkpoint_state := PcCheckpoint,
    pgr_syncing := False, pgr_sh := wal_rollback (pgr_con p) (pgr_sh p), pgr_savepoints := []\<rparr>"
  have run: "pager_rollback p = (Inr (), q)" using c(1) by (simp add: pager_rollback_def pg_defs q_def)
  have k: "sh_nbackfills (pgr_sh p) \<le> wf_txn_start_max_frame (pgr_con p)" "wf_txn_start_max_frame (pgr_con p) \<le> sh_max_frame (pgr_sh p)"
    "wf_txn_start_max_frame (pgr_con p) \<le> wf_max_frame (pgr_con p)"
    using tx store_okD(2) [OF st] by (simp_all add: in_txn_def)
  have "store_ok q" by (rule cut_store [OF st k]) (simp_all add: q_def wal_rollback_def)
  then have "pager_ok q" "page_view q = disk q" using empty_cache_ok [of q] c(2,3) by (simp_all add: q_def)
  moreover have "disk q = txn_start p" by (simp add: q_def disk_def txn_start_def)
  ultimately show thesis by (intro that [OF run]) (simp_all add: pager_inv_def savepoints_ok_def db_of_def q_def)
qed

text \<open>
  The first step of a commit. The log shows what the pager showed; the connection's own snapshot still ends where it
  ended, and the next read transaction moves it.
\<close>

lemma cacheflush_start_ok:
  assumes ok: "pager_ok p"
  obtains c sh q where "cacheflush_start be p = (Inr (), q)" "q = p\<lparr>pgr_cache := c, pgr_sh := sh, pgr_dirty := [], pgr_flush_state := WaitAppendFrames\<rparr>"
    "cache_ok c" "\<forall>n. cached c n = None" "log_ok (pgr_con p) sh" "newest_view (pgr_con p) sh (pgr_io p) = page_view p"
    "sh_max_frame sh = sh_max_frame (pgr_sh p) + length (pgr_dirty p)" "sh_nbackfills sh = sh_nbackfills (pgr_sh p)"
    "log_ext (sh_max_frame (pgr_sh p)) (pgr_con p) (pgr_sh p) sh" "sh_read_locks sh = sh_read_locks (pgr_sh p)" "sh_write_lock sh = sh_write_lock (pgr_sh p)"
proof -
  note okD = pager_okD [OF ok]
  obtain q where q: "flush_commit be (dh_database_size (pgr_header p)) (pgr_dirty p) p = (Inr (), q)" "flushed (pgr_dirty p) p q"
    using flush_ok [OF pager_flushable [OF ok]] by blast
  obtain c sh where f: "q = p\<lparr>pgr_cache := c, pgr_sh := sh\<rparr>" "cache_ok c" "cached c = objs p"
    "\<And>x. pc_pages c x = (page_flags x p)\<lparr>pg_dirty := pg_dirty (page_flags x p) \<and> (\<forall>n\<in>set (pgr_dirty p). objs p n \<noteq> Some x)\<rparr>"
    "log_ok (pgr_con p) sh"
    "newest_view (pgr_con p) sh (pgr_io p) = (\<lambda>n. if n \<in> set (pgr_dirty p) then map_option (buf_of p) (objs p n) else disk p n)"
    "sh_max_frame sh = sh_max_frame (pgr_sh p) + length (pgr_dirty p)" "log_ext (sh_max_frame (pgr_sh p)) (pgr_con p) (pgr_sh p) sh"
    "sh_nbackfills sh = sh_nbackfills (pgr_sh p)" "sh_read_locks sh = sh_read_locks (pgr_sh p)" "sh_write_lock sh = sh_write_lock (pgr_sh p)"
    using q(2) unfolding flushed_def by blast
  have nb: "\<not> busy (pc_pages c r)" if "cached c n = Some r" for n r
    using that f(3) f(4) [of r] okD(4) [of n r] by (auto simp: busy_def obj_ok_def)
  obtain c' where c': "cache_clear c = Some (Inr (), c')" "cache_ok c'" "\<And>n. cached c' n = None"
    by (rule cache_clear_ok [OF f(2)]) (use nb in blast)+
  have run: "cacheflush_start be p = (Inr (), p\<lparr>pgr_cache := c', pgr_sh := sh, pgr_dirty := [], pgr_flush_state := WaitAppendFrames\<rparr>)"
    using q(1) f(1) c'(1) by (simp add: cacheflush_start_def pg_defs)
  show thesis
    by (rule that [OF run refl]) (use c' f in \<open>simp_all add: page_view_def fun_eq_iff\<close>)
qed

end
