(* ===== verification/PagerCommit.thy ===== *)
theory PagerCommit
  imports PagerTx
begin

text \<open>
  The commit of a write transaction, from the first call of \<open>end_tx\<close> to its result, with the turns of the I/O loop in between: the
  flush of the dirty pages, the sync of the log, the checkpoint when the log is long enough with the sync of the
  database, and the release of the locks.
\<close>

section \<open>The loop\<close>

lemma commit_io: "end_tx be r p = (Inr FlushIO, q) \<Longrightarrow> commit_loop be r p = commit_loop be r (pager_run_once q)"
  by (subst commit_loop.simps) simp

lemma commit_done: "end_tx be r p = (Inr (FlushDone res), q) \<Longrightarrow> commit_loop be r p = Some (Inr res, q)"
  by (subst commit_loop.simps) simp

lemma commit_same: "end_tx be r p = end_tx be r q \<Longrightarrow> commit_loop be r p = commit_loop be r q"
  by (subst (1 2) commit_loop.simps) simp

text \<open>A result with the state after it, or an error.\<close>

definition settle :: "(cacheflush_result res \<times> pager) option \<Rightarrow> (limbo_error + cacheflush_result \<times> pager) option" where
  "settle = map_option (\<lambda>(res, q). case res of Inl e \<Rightarrow> Inl e | Inr x \<Rightarrow> Inr (x, q))"

lemma settleD: "settle x = Some (Inr (res, q)) \<Longrightarrow> x = Some (Inr res, q)"
  by (cases x; cases "fst (the x)") (auto simp: settle_def)

definition with_world :: "pager \<Rightarrow> wal_world \<Rightarrow> pager" where
  "with_world p w = (case w of (con, sh, io) \<Rightarrow> p\<lparr>pgr_flush_state := FlushCheckpoint, pgr_checkpoint_state := PcCheckpoint,
     pgr_syncing := False, pgr_con := con, pgr_sh := sh, pgr_io := io\<rparr>)"

definition finish_tx :: "cacheflush_status \<Rightarrow> cacheflush_status pg" where
  "finish_tx status = (case status of
       FlushIO \<Rightarrow> pg_ret FlushIO
     | FlushDone _ \<Rightarrow>
         pg_bind (pg_upd (\<lambda>p. p\<lparr>pgr_sh := end_write_tx (pgr_sh p)\<rparr>)) (\<lambda>_.
         pg_bind pager_end_read_tx (\<lambda>_.
         pg_bind (pg_upd (\<lambda>p. p\<lparr>pgr_savepoints := []\<rparr>)) (\<lambda>_. pg_ret status))))"

lemma end_tx_finish: "end_tx be r = pg_bind (cacheflush be r) finish_tx"
  by (simp add: end_tx_def finish_tx_def [abs_def] fun_eq_iff)

definition pck_finish :: "checkpoint_status \<Rightarrow> cacheflush_status pg" where
  "pck_finish status = (case status of
       CkIO \<Rightarrow> pg_ret FlushIO
     | CkDone res \<Rightarrow> pg_bind (pg_bind (set_checkpoint_state PcSyncDbFile) (\<lambda>_. pck_sync res)) (\<lambda>status. case status of
         CkIO \<Rightarrow> pg_ret FlushIO
       | CkDone res \<Rightarrow> pg_bind (set_flush_state SyncDbFile) (\<lambda>_. cf_sync_db res)))"

lemma end_tx_checkpoint:
  "end_tx be r (with_world p w) = pg_bind (pg_bind (on_world (wal_checkpoint_loop be Passive r)) pck_finish) finish_tx (with_world p w)"
proof -
  have "cacheflush be r (with_world p w) = pg_bind (on_world (wal_checkpoint_loop be Passive r)) pck_finish (with_world p w)"
    by (cases w) (auto simp: cacheflush_def cf_checkpoint_def pager_checkpoint_def pck_checkpoint_def with_world_def pck_finish_def
      pg_bind_def pg_get_def pg_ret_def split: prod.splits sum.splits checkpoint_status.splits)
  then show ?thesis by (simp add: end_tx_finish pg_bind_def [of _ finish_tx])
qed

lemma on_world_with_world:
  "on_world f (with_world p w) = (case f w of
     None \<Rightarrow> (Inl Panic, with_world p w)
   | Some (Inl e) \<Rightarrow> (Inl e, with_world p w)
   | Some (Inr (w', x)) \<Rightarrow> (Inr x, with_world p w'))"
  by (cases w) (simp add: on_world_def with_world_def split: option.split sum.split prod.split)

lemma run_once_idle: "run_once (con, sh, io) = (con', sh', io') \<Longrightarrow> wf_syncing con' = wf_syncing con"
  by (auto simp: run_once_def upd_ongoing_def split: list.splits io_req.splits)

lemma pager_run_once_world:
  assumes "\<not> wf_syncing con"
  shows "pager_run_once (with_world p (con, sh, io)) = with_world p (run_once (con, sh, io))"
proof -
  obtain con' sh' io' where r: "run_once (con, sh, io) = (con', sh', io')" by (metis prod_cases3)
  then have "con'\<lparr>wf_syncing := False\<rparr> = con'" using assms run_once_idle by (cases con') fastforce
  then show ?thesis using r by (simp add: pager_run_once_def with_world_def sync_complete_def)
qed

interpretation commit_drive: checkpoint_driver be Passive r "\<lambda>con. \<not> wf_syncing con" "\<lambda>w. settle (commit_loop be r (with_world p w))" for be r p
proof unfold_locales
  fix con sh io con' sh' io'
  show "settle (commit_loop be r (with_world p (con, sh, io))) = settle (commit_loop be r (with_world p (con', sh', io')))"
    if "wal_checkpoint_loop be Passive r (con, sh, io) = wal_checkpoint_loop be Passive r (con', sh', io')"
  proof (cases "wal_checkpoint_loop be Passive r (con, sh, io)")
    case None
    then show ?thesis
      using that by (subst (1 2) commit_loop.simps) (simp add: end_tx_checkpoint pg_bind_def on_world_with_world settle_def)
  next
    case (Some x)
    then show ?thesis
      using that by (cases x; subst (1 2) commit_loop.simps)
       (auto simp: end_tx_checkpoint pg_bind_def on_world_with_world settle_def split: prod.splits)
  qed
  show "settle (commit_loop be r (with_world p (con, sh, io))) = settle (commit_loop be r (with_world p (run_once (con', sh', io'))))"
    if "wal_checkpoint_loop be Passive r (con, sh, io) = Some (Inr ((con', sh', io'), CkIO))" "\<not> wf_syncing con'"
  proof -
    have "end_tx be r (with_world p (con, sh, io)) = (Inr FlushIO, with_world p (con', sh', io'))"
      using that(1) by (simp add: end_tx_checkpoint pg_bind_def on_world_with_world pg_ret_def pck_finish_def finish_tx_def)
    then show ?thesis using pager_run_once_world [OF that(2)] by (simp add: commit_io)
  qed
qed simp

section \<open>Release of the locks\<close>

definition released :: "wal_file \<Rightarrow> wal_shared \<Rightarrow> wal_shared" where
  "released con sh = (end_write_tx sh)\<lparr>sh_read_locks :=
     (sh_read_locks sh)[wf_max_frame_read_lock_index con := rw_unlock (sh_read_locks sh ! wf_max_frame_read_lock_index con)]\<rparr>"

lemma released_fields [simp]:
  "frames_of (released con sh) n = frames_of sh n" "sh_max_frame (released con sh) = sh_max_frame sh"
  "log_ok con' (released con sh) = log_ok con' sh" "newest_view con' (released con sh) io = newest_view con' sh io"
  "sh_write_lock (released con sh) = rw_unlock (sh_write_lock sh)"
proof -
  show f: "frames_of (released con sh) n = frames_of sh n" for n by (simp add: released_def end_write_tx_def frames_of_def)
  show m: "sh_max_frame (released con sh) = sh_max_frame sh" by (simp add: released_def end_write_tx_def)
  show "log_ok con' (released con sh) = log_ok con' sh" by (simp add: log_ok_def index_ok_def released_def end_write_tx_def)
  have "frame_page con' (released con sh) = frame_page con' sh" by (simp add: fun_eq_iff frame_page_def released_def end_write_tx_def)
  then show "newest_view con' (released con sh) io = newest_view con' sh io"
    by (simp add: fun_eq_iff newest_view_def view_def find_frame_newest f m split: option.split)
  show "sh_write_lock (released con sh) = rw_unlock (sh_write_lock sh)" by (simp add: released_def end_write_tx_def)
qed

lemma finish_done:
  assumes "wf_max_frame_read_lock_index (pgr_con p) < length (sh_read_locks (pgr_sh p))"
  shows "finish_tx (FlushDone res) p = (Inr (FlushDone res), p\<lparr>pgr_sh := released (pgr_con p) (pgr_sh p), pgr_savepoints := []\<rparr>)"
  using assms by (simp add: finish_tx_def pager_end_read_tx_def end_read_tx_def slice_idx_def slice_set_def released_def end_write_tx_def pg_defs)

section \<open>The checkpoint inside of a commit\<close>

lemma commit_synced:
  assumes "io_pending io = []" "io_write_counter io = 0" "\<not> wf_syncing con" "wf_max_frame_read_lock_index con < length (sh_read_locks sh)"
    and p: "end_tx be r p = pg_bind (pck_finish (CkDone res)) finish_tx (with_world q (con, sh, io))"
  shows "\<exists>res. commit_loop be r p = Some (Inr (Checkpointed res),
    (with_world q (con, sh, io))\<lparr>pgr_flush_state := FlushStart, pgr_sh := released con sh, pgr_savepoints := []\<rparr>)"
proof (cases "pgr_synchronous q = SyncOff")
  case True
  have "end_tx be r p = (Inr (FlushDone (Checkpointed res)),
      (with_world q (con, sh, io))\<lparr>pgr_flush_state := FlushStart, pgr_sh := released con sh, pgr_savepoints := []\<rparr>)"
    using p True assms(2,4) by (simp add: pck_finish_def pck_sync_def pck_done_def set_checkpoint_state_def set_flush_state_def cf_sync_db_def
      finish_done with_world_def pg_defs)
  then show ?thesis using commit_done by blast
next
  case False
  let ?p = "with_world q (con, sh, io)"
  let ?p1 = "?p\<lparr>pgr_checkpoint_state := PcWaitSyncDbFile\<rparr>"
  have con: "con\<lparr>wf_syncing := False\<rparr> = con" using assms(3) by (cases con) simp
  have run: "pager_run_once (?p\<lparr>pgr_checkpoint_state := a, pgr_flush_state := b, pgr_syncing := True\<rparr>) =
      ?p\<lparr>pgr_checkpoint_state := a, pgr_flush_state := b, pgr_syncing := False\<rparr>" for a b
    using assms(1) con by (simp add: pager_run_once_def with_world_def run_once_def sync_complete_def)
  have "end_tx be r p = (Inr FlushIO, ?p\<lparr>pgr_checkpoint_state := PcWaitSyncDbFile, pgr_flush_state := FlushCheckpoint, pgr_syncing := True\<rparr>)"
    using p False by (simp add: pck_finish_def pck_sync_def pck_wait_sync_def begin_sync_def set_checkpoint_state_def set_flush_state_def
      finish_tx_def with_world_def pg_defs)
  from commit_io [OF this] run
  have 1: "commit_loop be r p = commit_loop be r (?p\<lparr>pgr_checkpoint_state := PcWaitSyncDbFile, pgr_flush_state := FlushCheckpoint, pgr_syncing := False\<rparr>)"
    by simp
  have "end_tx be r (?p\<lparr>pgr_checkpoint_state := PcWaitSyncDbFile, pgr_flush_state := FlushCheckpoint, pgr_syncing := False\<rparr>) =
      (Inr FlushIO, ?p\<lparr>pgr_checkpoint_state := PcCheckpoint, pgr_flush_state := WaitSyncDbFile, pgr_syncing := True\<rparr>)"
    using False assms(2) by (simp add: end_tx_finish cacheflush_def cf_checkpoint_def pager_checkpoint_def pck_wait_sync_def pck_done_def
      cf_sync_db_def cf_wait_sync_db_def begin_sync_def set_checkpoint_state_def set_flush_state_def finish_tx_def with_world_def pg_defs)
  from commit_io [OF this] run
  have 2: "commit_loop be r (?p\<lparr>pgr_checkpoint_state := PcWaitSyncDbFile, pgr_flush_state := FlushCheckpoint, pgr_syncing := False\<rparr>) =
      commit_loop be r (?p\<lparr>pgr_checkpoint_state := PcCheckpoint, pgr_flush_state := WaitSyncDbFile, pgr_syncing := False\<rparr>)"
    by simp
  have "end_tx be r (?p\<lparr>pgr_checkpoint_state := PcCheckpoint, pgr_flush_state := WaitSyncDbFile, pgr_syncing := False\<rparr>) =
      (Inr (FlushDone (Checkpointed checkpoint_result_default)), ?p\<lparr>pgr_flush_state := FlushStart, pgr_sh := released con sh, pgr_savepoints := []\<rparr>)"
    using assms(4) by (simp add: end_tx_finish cacheflush_def cf_wait_sync_db_def set_flush_state_def finish_done with_world_def pg_defs)
  from commit_done [OF this] show ?thesis unfolding 1 2 by blast
qed

lemma backfill_length:
  assumes "log_ok con sh" "io_db io' = backfill_all mn mx con sh db" "\<forall>n b. db n = Some b \<longrightarrow> length b = unat (wf_page_size con)" "io_db io' n = Some b"
  shows "length b = unat (wf_page_size con)"
proof (cases "in_range mn mx sh n")
  case (Some f)
  have "sorted_wrt (<) (frames_of sh n)" using assms(1) index_okD(1) by (simp add: log_ok_def)
  then have "f \<in> set (frames_of sh n)" using Some by (simp add: in_range_def newest_Some)
  then show ?thesis
    using assms(2,4) Some length_frame_page [OF assms(1)] frames_of_bounds [OF assms(1)] by (auto simp: backfill_all_def)
qed (use assms in \<open>simp add: backfill_all_def\<close>)

lemma commit_checkpoint:
  assumes log: "log_ok con sh" "sh_max_frame sh < 2 ^ 32" "wf_min_frame con \<le> sh_nbackfills sh + 1"
    and io: "io_pending io = []" "io_write_counter io = 0" "\<forall>n b. io_db io n = Some b \<longrightarrow> length b = unat (wf_page_size con)"
    and con: "\<not> wf_syncing con" "oc_state (wf_ongoing con) = CStart" "wf_max_frame_read_lock_index con < length (sh_read_locks sh)"
  obtains res oc sh' io' where "commit_loop be r (with_world p (con, sh, io)) = Some (Inr (Checkpointed res),
      (with_world p (con\<lparr>wf_ongoing := oc\<rparr>, sh', io'))\<lparr>pgr_flush_state := FlushStart, pgr_sh := released con sh', pgr_savepoints := []\<rparr>)"
    "log_ok con sh'" "newest_view con sh' io' = newest_view con sh io" "oc_state oc = CStart" "io_pending io' = []" "io_write_counter io' = 0"
    "\<forall>n b. io_db io' n = Some b \<longrightarrow> length b = unat (wf_page_size con)" "sh_write_lock sh' = sh_write_lock sh"
proof -
  have ix: "index_ok sh" using log(1) by (simp add: log_ok_def)
  obtain locks mx where safe: "safe_loop 0 (sh_read_locks sh) (sh_max_frame sh) = (locks, mx)" by fastforce
  note mx = safe_loop_bound [OF safe log(2)]
  show thesis
    using con(1) ix con(2) io(1,2) safe
  proof (cases rule: commit_drive.drive_checkpoint [where be = be and r = r and p = p])
    case (1 oc1 sh1 io1 oc sh' io' res)
    note ck = ck_shared_log_ok [OF log(1) _ 1(8)]
    have len: "wf_max_frame_read_lock_index con < length (sh_read_locks sh')" using ck(2) mx con(3) by simp
    have "end_tx be r (with_world p (con\<lparr>wf_ongoing := oc1\<rparr>, sh1, io1)) =
        pg_bind (pck_finish (CkDone res)) finish_tx (with_world p (con\<lparr>wf_ongoing := oc\<rparr>, sh', io'))"
      using 1(2) by (simp add: end_tx_checkpoint on_world_with_world pg_bind_def)
    then obtain res' where "commit_loop be r (with_world p (con\<lparr>wf_ongoing := oc1\<rparr>, sh1, io1)) = Some (Inr (Checkpointed res'),
      (with_world p (con\<lparr>wf_ongoing := oc\<rparr>, sh', io'))\<lparr>pgr_flush_state := FlushStart, pgr_sh := released (con\<lparr>wf_ongoing := oc\<rparr>) sh', pgr_savepoints := []\<rparr>)"
      using commit_synced [OF 1(5,6), of "con\<lparr>wf_ongoing := oc\<rparr>" sh' be r _ res p] con(1) len by auto
    then have run: "commit_loop be r (with_world p (con, sh, io)) = Some (Inr (Checkpointed res'),
      (with_world p (con\<lparr>wf_ongoing := oc\<rparr>, sh', io'))\<lparr>pgr_flush_state := FlushStart, pgr_sh := released con sh', pgr_savepoints := []\<rparr>)"
      using 1(1) by (intro settleD) (simp add: settle_def released_def)
    show thesis
    proof (rule that [OF run ck(1) _ 1(4-6)])
      show "newest_view con sh' io' = newest_view con sh io"
        using checkpoint_newest [OF ix log(3) _ 1(8,7)] mx by (simp add: newest_view_def set_reader_max_frame_def fun_eq_iff)
      show "\<forall>n b. io_db io' n = Some b \<longrightarrow> length b = unat (wf_page_size con)"
        using io(3) 1(7) backfill_length [OF log(1)] by blast
    qed (use mx ck in simp_all)
  qed
qed

section \<open>The commit\<close>

text \<open>From the flush to the call that finds the log synced.\<close>

lemma commit_flush:
  assumes start: "cacheflush_start be p = (Inr (), q)" "q = p\<lparr>pgr_cache := c, pgr_sh := sh, pgr_dirty := [], pgr_flush_state := WaitAppendFrames\<rparr>"
    and rdy: "commit_ready p"
  defines "con \<equiv> (pgr_con p)\<lparr>wf_syncing := False\<rparr>"
  defines "s \<equiv> p\<lparr>pgr_cache := c, pgr_sh := sh, pgr_dirty := [], pgr_con := con, pgr_syncing := False\<rparr>"
  shows "\<exists>p2. commit_loop be r p = commit_loop be r p2 \<and>
    end_tx be r p2 = (if should_checkpoint con sh then end_tx be r (with_world s (con, sh, pgr_io p)) else finish_tx (FlushDone WalWritten) s)"
proof -
  have rd: "pgr_flush_state p = FlushStart" "pgr_checkpoint_state p = PcCheckpoint" "pgr_in_flight p = 0"
    "wf_sync_state (pgr_con p) = NotSyncing" "io_pending (pgr_io p) = []"
    using rdy by (simp_all add: commit_ready_def)
  let ?p1 = "s\<lparr>pgr_flush_state := WaitAppendFrames\<rparr>"
  have "end_tx be r p = (Inr FlushIO, q)" using start(1) rd(1) by (simp add: end_tx_finish cacheflush_def finish_tx_def pg_defs)
  moreover have "pager_run_once q = ?p1"
    using rd(5) start(2) by (simp add: pager_run_once_def run_once_def sync_complete_def s_def con_def)
  ultimately have 1: "commit_loop be r p = commit_loop be r ?p1" using commit_io by simp
  have w: "with_world s (con, sh, pgr_io p) = s\<lparr>pgr_flush_state := FlushCheckpoint\<rparr>" and s: "s\<lparr>pgr_flush_state := FlushStart\<rparr> = s"
    using rd(1,2) by (simp_all add: with_world_def s_def)
  have flds: "pgr_con s = con" "pgr_sh s = sh" "pgr_synchronous s = pgr_synchronous p" by (simp_all add: s_def)
  have cont: "pg_bind (pg_get (\<lambda>p. should_checkpoint (pgr_con p) (pgr_sh p))) (\<lambda>should.
       if \<not> should then pg_bind (set_flush_state FlushStart) (\<lambda>_. pg_ret (FlushDone WalWritten))
       else pg_bind (set_flush_state FlushCheckpoint) (\<lambda>_. cf_checkpoint be r)) (s\<lparr>pgr_flush_state := SyncWal\<rparr>) =
     (if should_checkpoint con sh then cacheflush be r (with_world s (con, sh, pgr_io p)) else (Inr (FlushDone WalWritten), s))"
    unfolding w by (simp add: cacheflush_def set_flush_state_def flds s pg_defs)
  show ?thesis
  proof (cases "pgr_synchronous p = SyncOff")
    case True
    have "cacheflush be r ?p1 = (if should_checkpoint con sh then cacheflush be r (with_world s (con, sh, pgr_io p)) else (Inr (FlushDone WalWritten), s))"
      unfolding cont [symmetric] using rd(3) True
      by (simp add: cacheflush_def cf_wait_append_def cf_sync_wal_def set_flush_state_def s_def pg_defs)
    then show ?thesis using 1 by (intro exI [of _ ?p1]) (simp add: end_tx_finish pg_bind_def [of _ finish_tx])
  next
    case False
    let ?p2 = "s\<lparr>pgr_flush_state := SyncWal, pgr_con := con\<lparr>wf_sync_state := Syncing\<rparr>\<rparr>"
    let ?p3 = "s\<lparr>pgr_flush_state := SyncWal, pgr_con := con\<lparr>wf_syncing := True, wf_sync_state := Syncing\<rparr>\<rparr>"
    have "end_tx be r ?p1 = (Inr FlushIO, ?p3)"
      using rd(3,4) False by (simp add: end_tx_finish cacheflush_def cf_wait_append_def cf_sync_wal_def pager_wal_sync_def wal_sync_def
        set_flush_state_def finish_tx_def s_def con_def pg_defs)
    moreover have "pager_run_once ?p3 = ?p2"
      using rd(5) by (simp add: pager_run_once_def run_once_def sync_complete_def s_def con_def)
    ultimately have 2: "commit_loop be r ?p1 = commit_loop be r ?p2" using commit_io by simp
    have "con\<lparr>wf_sync_state := NotSyncing\<rparr> = con" using rd(4) unfolding con_def by (cases "pgr_con p") simp
    then have "pager_wal_sync ?p2 = (Inr SyncDone, s\<lparr>pgr_flush_state := SyncWal\<rparr>)"
      by (simp add: pager_wal_sync_def wal_sync_def pg_defs) (simp add: s_def con_def)
    then have "cacheflush be r ?p2 = (if should_checkpoint con sh then cacheflush be r (with_world s (con, sh, pgr_io p)) else (Inr (FlushDone WalWritten), s))"
      unfolding cont [symmetric] using False flds(3) by (simp add: cacheflush_def cf_sync_wal_def pg_bind_def pg_get_def)
    then show ?thesis using 1 2 by (intro exI [of _ ?p2]) (simp add: end_tx_finish pg_bind_def [of _ finish_tx])
  qed
qed

text \<open>The connection takes the newest snapshot.\<close>

definition at_newest :: "pager \<Rightarrow> pager" where
  "at_newest q = q\<lparr>pgr_con := set_reader_max_frame (sh_max_frame (pgr_sh q)) (pgr_con q)\<rparr>"

lemma commit_ok:
  assumes ok: "pager_ok p" and rdy: "commit_ready p" and mx: "sh_max_frame (pgr_sh p) + length (pgr_dirty p) < 2 ^ 32"
  obtains res q where "commit_loop be r p = Some (Inr res, q)" "pager_ok (at_newest q)" "page_view (at_newest q) = page_view p" "disk q = page_view p"
    "pgr_dirty q = []" "pgr_savepoints q = []" "pgr_header q = pgr_header p" "pgr_flush_state q = FlushStart"
    "sh_write_lock (pgr_sh q) = rw_unlock (sh_write_lock (pgr_sh p))"
proof -
  note result = that
  note st = pager_okD(1) [OF ok]
  note stD = store_okD [OF st]
  obtain c sh q0 where q0: "cacheflush_start be p = (Inr (), q0)" "q0 = p\<lparr>pgr_cache := c, pgr_sh := sh, pgr_dirty := [], pgr_flush_state := WaitAppendFrames\<rparr>"
    "cache_ok c" "\<forall>n. cached c n = None" "log_ok (pgr_con p) sh" "newest_view (pgr_con p) sh (pgr_io p) = page_view p"
    "sh_max_frame sh = sh_max_frame (pgr_sh p) + length (pgr_dirty p)" "sh_nbackfills sh = sh_nbackfills (pgr_sh p)"
    "sh_read_locks sh = sh_read_locks (pgr_sh p)" "sh_write_lock sh = sh_write_lock (pgr_sh p)"
    by (rule cacheflush_start_ok [OF ok, of be]) blast
  define con where "con = (pgr_con p)\<lparr>wf_syncing := False\<rparr>"
  define s where "s = p\<lparr>pgr_cache := c, pgr_sh := sh, pgr_dirty := [], pgr_con := con, pgr_syncing := False\<rparr>"
  obtain p2 where p2: "commit_loop be r p = commit_loop be r p2"
    "end_tx be r p2 = (if should_checkpoint con sh then end_tx be r (with_world s (con, sh, pgr_io p)) else finish_tx (FlushDone WalWritten) s)"
    using commit_flush [OF q0(1,2) rdy, of r] unfolding con_def s_def by blast
  have ps: "wf_page_size con = wf_page_size (pgr_con p)" by (simp add: con_def)
  have log: "log_ok con sh" "newest_view con sh (pgr_io p) = page_view p" using q0(5,6) log_ok_con [OF ps] newest_view_con [OF ps] by simp_all
  have rd: "wf_max_frame_read_lock_index con < length (sh_read_locks sh)" "\<not> wf_syncing con" "oc_state (wf_ongoing con) = CStart"
    "io_pending (pgr_io p) = []" "io_write_counter (pgr_io p) = 0" "wf_min_frame con \<le> sh_nbackfills sh + 1" "pgr_flush_state p = FlushStart"
    using rdy q0(8,9) by (simp_all add: commit_ready_def con_def)
  have db: "\<forall>n b. io_db (pgr_io p) n = Some b \<longrightarrow> length b = unat (wf_page_size con)" using stD(3,5) ps by simp
  have fin: thesis
    if run: "commit_loop be r p = Some (Inr res, q)" and sq: "log_ok con sh'" "newest_view con sh' io' = page_view p"
      "\<forall>n b. io_db io' n = Some b \<longrightarrow> length b = unat (wf_page_size con)" "sh_write_lock sh' = sh_write_lock (pgr_sh p)"
      and q: "pgr_cache q = c" "pgr_dirty q = []" "pgr_savepoints q = []" "pgr_header q = pgr_header p" "pgr_flush_state q = FlushStart"
        "wf_page_size (pgr_con q) = wf_page_size con" "pgr_sh q = released con sh'" "pgr_io q = io'" "pgr_pool q = pgr_pool p" "pgr_read_error q = pgr_read_error p"
    for res q sh' io'
  proof -
    let ?q = "at_newest q"
    have "log_ok (pgr_con q) sh'" "newest_view (pgr_con q) sh' io' = page_view p"
      using sq(1,2) log_ok_con [OF q(6)] newest_view_con [OF q(6)] by simp_all
    then have "store_ok ?q" "disk ?q = page_view p" "disk q = page_view p"
      using st sq(3) q ps by (auto simp: at_newest_def store_ok_def page_size_of_def set_reader_max_frame_def disk_def)
    moreover have "pager_ok ?q" "page_view ?q = disk ?q"
      by (rule empty_cache_ok; use \<open>store_ok ?q\<close> q q0(3,4) in \<open>simp add: at_newest_def\<close>)+
    ultimately show thesis using result [OF run] q sq(4) by simp
  qed
  show thesis
  proof (cases "should_checkpoint con sh")
    case False
    have "end_tx be r p2 = (Inr (FlushDone WalWritten), s\<lparr>pgr_sh := released con sh, pgr_savepoints := []\<rparr>)"
      using p2(2) False rd(1) finish_done [of s WalWritten] by (simp add: s_def)
    from fin [OF trans [OF p2(1) commit_done [OF this]] log db q0(10)] show thesis using rd(7) by (simp add: s_def)
  next
    case True
    have mx': "sh_max_frame sh < 2 ^ 32" using mx q0(7) by simp
    show thesis
      using log(1) mx' rd(6,4,5) db rd(2,3,1)
    proof (cases rule: commit_checkpoint [where be = be and r = r and p = s])
      case (1 res oc sh' io')
      have "commit_loop be r p = commit_loop be r (with_world s (con, sh, pgr_io p))"
        using p2(1) commit_same [of be r p2] p2(2) True by simp
      from fin [OF trans [OF this 1(1)] 1(2) _ 1(7)] show thesis using 1(3,8) log(2) q0(10) by (simp add: s_def with_world_def)
    qed
  qed
qed

end
