(* ===== verification/PagerFree.thy ===== *)
theory PagerFree
  imports PagerCommit "HOL-Library.Multiset"
begin

text \<open>
  Freeing a page: it becomes a leaf of the first trunk page of the free list, or a new first trunk page. The pages of the free list
  are those of the list before and the page that was freed.
\<close>

lemmas alters_union = alters_trans [OF _ _ subset_refl]

section \<open>Marking and writing\<close>

definition put_u32 :: "bytes \<Rightarrow> nat \<Rightarrow> u32 \<Rightarrow> bytes" where
  "put_u32 b pos v = take pos b @ to_be 4 v @ drop (pos + 4) b"

lemma length_put_u32 [simp]: "pos + 4 \<le> length b \<Longrightarrow> length (put_u32 b pos v) = length b"
  by (simp add: put_u32_def)

lemma write_page_u32_eq:
  assumes "pgc_offset (pgr_contents p r) = 0" "pos + 4 \<le> length (buf_of p r)"
  shows "write_page_u32 r pos v p =
    (Inr (), p\<lparr>pgr_contents := (pgr_contents p)(r := (pgr_contents p r)\<lparr>pgc_buffer := put_u32 (buf_of p r) pos v\<rparr>)\<rparr>)"
  using assms by (simp add: write_page_u32_def pc_write_u32_def pc_write_def set_contents_def put_u32_def pg_defs)

definition mark_dirty :: "nat \<Rightarrow> page_ref \<Rightarrow> pager \<Rightarrow> pager" where
  "mark_dirty n r p = put_page n r ((page_flags r p)\<lparr>pg_dirty := True\<rparr>) (pgr_contents p r) p"

definition write_two :: "nat \<Rightarrow> page_ref \<Rightarrow> nat \<Rightarrow> u32 \<Rightarrow> nat \<Rightarrow> u32 \<Rightarrow> pager \<Rightarrow> pager" where
  "write_two n r i v j w p = put_page n r ((page_flags r p)\<lparr>pg_dirty := True\<rparr>)
     ((pgr_contents p r)\<lparr>pgc_buffer := put_u32 (put_u32 (buf_of p r) i v) j w\<rparr>) p"

lemma mark_run: "pg_bind (set_dirty r) (\<lambda>_. pg_bind (add_dirty n) k) p = k () (mark_dirty n r p)"
proof -
  let ?p = "p\<lparr>pgr_cache := (pgr_cache p)\<lparr>pc_pages := (pc_pages (pgr_cache p))(r := (page_flags r p)\<lparr>pg_dirty := True\<rparr>)\<rparr>\<rparr>"
  have "set_dirty r p = (Inr (), ?p)" by (simp add: set_dirty_def set_page_flags_def pg_upd_def)
  moreover have "add_dirty n ?p = (Inr (), mark_dirty n r p)" by (simp add: add_dirty_def pg_upd_def mark_dirty_def put_page_def)
  ultimately show ?thesis by (simp add: pg_bind_def)
qed

lemma write_two_run:
  assumes "obj_ok p n r" "n \<noteq> 1" "i + 4 \<le> page_size_of p" "j + 4 \<le> page_size_of p"
  shows "pg_bind (write_page_u32 r i v) (\<lambda>_. pg_bind (write_page_u32 r j w) k) (mark_dirty n r p) = k () (write_two n r i v j w p)"
proof -
  have o: "pgc_offset (pgr_contents p r) = 0" "length (buf_of p r) = page_size_of p" using assms(1,2) by (simp_all add: obj_ok_def)
  let ?p = "(mark_dirty n r p)\<lparr>pgr_contents := (pgr_contents p)(r := (pgr_contents p r)\<lparr>pgc_buffer := put_u32 (buf_of p r) i v\<rparr>)\<rparr>"
  have "write_page_u32 r i v (mark_dirty n r p) = (Inr (), ?p)"
    using o assms(3) by (subst write_page_u32_eq) (simp_all add: mark_dirty_def put_page_def)
  moreover have "write_page_u32 r j w ?p = (Inr (), write_two n r i v j w p)"
    using o assms(3,4) by (subst write_page_u32_eq) (simp_all add: mark_dirty_def put_page_def write_two_def)
  ultimately show ?thesis by (simp add: pg_bind_def)
qed

lemma write_two_ok:
  assumes "pager_ok p" "objs p n = Some r" "n \<noteq> 1" "i + 4 \<le> page_size_of p" "j + 4 \<le> page_size_of p"
  shows "alters {n} p (write_two n r i v j w p)" "page_view (write_two n r i v j w p) n = Some (put_u32 (put_u32 (buf_of p r) i v) j w)"
    "pgr_header (write_two n r i v j w p) = pgr_header p"
proof -
  let ?s = "(page_flags r p)\<lparr>pg_dirty := True\<rparr>" and ?ct = "(pgr_contents p r)\<lparr>pgc_buffer := put_u32 (put_u32 (buf_of p r) i v) j w\<rparr>"
  have o: "obj_ok p n r" using pager_okD(4) [OF assms(1,2)] .
  then have pre: "dirty_flags ?s" "length (pgc_buffer ?ct) = page_size_of p" "pgc_offset ?ct = (if n = 1 then 100 else 0)"
    using assms(4,5) by (simp_all add: obj_ok_def dirty_flags_def)
  show "alters {n} p (write_two n r i v j w p)" unfolding write_two_def by (rule alters_put_page [OF assms(1,2) pre])
  show "page_view (write_two n r i v j w p) n = Some (put_u32 (put_u32 (buf_of p r) i v) j w)"
    unfolding write_two_def using put_page_ok(2) [OF assms(1,2) pre] by simp
  show "pgr_header (write_two n r i v j w p) = pgr_header p" by (simp add: write_two_def put_page_def)
qed

lemma clear_loaded_ok:
  assumes "pager_ok p"
  obtains q where "clear_loaded r p = (Inr (), q)" "alters {} p q" "page_view q = page_view p" "pgr_header q = pgr_header p"
proof -
  obtain q where q: "set_page_flags r (\<lambda>s. s\<lparr>pg_loaded := False\<rparr>) p = (Inr (), q)" "pager_ok q" "page_view q = page_view p" "objs q = objs p" "rest q = rest p"
    "pgr_header q = pgr_header p" "pgr_dirty q = pgr_dirty p"
    by (rule set_page_flags_ok [OF assms, of "\<lambda>s. s\<lparr>pg_loaded := False\<rparr>" r]) simp_all
  show thesis by (rule that [of q]) (use q in \<open>simp_all add: clear_loaded_def alters_def\<close>)
qed

section \<open>Freeing\<close>

text \<open>A page that is freed must not be dropped while the trunk page is read: one of them is dirty, or there is no trunk page.\<close>

abbreviation trunk_of :: "pager \<Rightarrow> nat" where
  "trunk_of p \<equiv> unat (dh_freelist_trunk_page (pgr_header p))"

definition free_guard :: "nat \<Rightarrow> pager \<Rightarrow> bool" where
  "free_guard n p \<longleftrightarrow> trunk_of p \<noteq> 1 \<and> (trunk_of p = 0 \<or> n \<in> set (pgr_dirty p) \<or> trunk_of p \<in> set (pgr_dirty p))"

definition leaf_write :: "bytes \<Rightarrow> u32 \<Rightarrow> nat \<Rightarrow> bytes" where
  "leaf_write b k n = put_u32 (put_u32 b 4 (k + 1)) (8 + unat k * 4) (word_of_nat n)"

lemma usable_ok:
  assumes "store_ok p"
  obtains u where "usable_space_of p = Inr u" "480 \<le> u" "u \<le> page_size_of p"
  using store_okD(7) [OF assms] by (intro that [of "page_size_of p - unat (dh_reserved_space (pgr_header p))"]) (simp_all add: usable_space_of_def)

lemma free_as_leaf_ok:
  assumes ok: "pager_ok p" and t: "t \<noteq> 1"
  obtains k b q where "free_as_leaf t n r p = (Inr True, q)" "alters {t} p q" "pgr_header q = pgr_header p"
    "slice_u32 b 4 = Inr k" "page_view q t = Some (leaf_write b k n)" "\<forall>b0. page_view p t = Some b0 \<longrightarrow> b = b0"
    "8 + unat k * 4 + 4 \<le> length b" "length b = page_size_of p"
  | q where "free_as_leaf t n r p = (Inr False, q)" "alters {} p q" "pgr_header q = pgr_header p" "t \<in> set (pgr_dirty p) \<Longrightarrow> objs q = objs p"
  | e q where "free_as_leaf t n r p = (Inl e, q)" "alters {} p q" "pgr_header q = pgr_header p" "e \<noteq> Panic"
  using ok
proof (cases rule: read_page_alters [where n = t])
  case (1 x q)
  note okq = altersD(1) [OF 1(2)]
  note st = pager_okD(1) [OF okq]
  have o: "pg_contents (page_flags x q)" "pgc_offset (pgr_contents q x) = 0" "length (buf_of q x) = page_size_of q"
    using 1(4) t by (simp_all add: obj_ok_def)
  have ps: "512 \<le> page_size_of q" using store_okD(8) [OF st] .
  obtain k where k: "slice_u32 (buf_of q x) 4 = Inr k" using ps o(3) by (simp add: slice_u32_def)
  obtain u where u: "usable_space_of q = Inr u" "480 \<le> u" "u \<le> page_size_of q" using usable_ok [OF st] .
  have u2: "usub (u div 4) 2 = Inr (u div 4 - 2)" using u(2) by (simp add: usub_def)
  have start: "free_as_leaf t n r p = (if k < word_of_nat (u div 4 - 2) then
         pg_bind (set_dirty x) (\<lambda>_.
         pg_bind (add_dirty t) (\<lambda>_.
         pg_bind (write_page_u32 x 4 (k + 1)) (\<lambda>_.
         pg_bind (write_page_u32 x (8 + unat k * 4) (word_of_nat n)) (\<lambda>_.
         pg_bind (clear_loaded r) (\<lambda>_. pg_ret True)))))
       else pg_ret False) q"
    using 1(1) o(1,2) k u(1) u2 by (simp add: free_as_leaf_def pc_read_u32_def pg_bind_def [of "read_page t"] pg_bind_def [of "pg_get _"] pg_bind_def [of "pg_res _"]
      pg_get_def pg_res_def)
  show ?thesis
  proof (cases "k < word_of_nat (u div 4 - 2)")
    case False
    then have "free_as_leaf t n r p = (Inr False, q)" using start by (simp add: pg_ret_def)
    then show ?thesis using that(2) 1(2,5,8) pager_okD(5) [OF ok, of t] by auto
  next
    case True
    have "unat (word_of_nat (u div 4 - 2) :: u32) = u div 4 - 2"
      using u(3) store_okD(9) [OF st] by (simp add: unat_of_nat take_bit_nat_eq_self)
    then have kb: "unat k < u div 4 - 2" using True by (simp add: word_less_nat_alt)
    then have pos: "8 + unat k * 4 + 4 \<le> page_size_of q" using u(3) by linarith
    let ?w = "write_two t x 4 (k + 1) (8 + unat k * 4) (word_of_nat n) q"
    have pre: "4 + 4 \<le> page_size_of q" "8 + unat k * 4 + 4 \<le> page_size_of q" using ps pos by simp_all
    note w = write_two_ok [OF okq 1(3) t pre]
    obtain s where s: "clear_loaded r ?w = (Inr (), s)" "alters {} ?w s" "page_view s = page_view ?w" "pgr_header s = pgr_header ?w"
      using clear_loaded_ok [OF altersD(1) [OF w(1)]] by blast
    have run: "free_as_leaf t n r p = (Inr True, s)"
      unfolding start if_P [OF True] mark_run write_two_run [OF 1(4) t pre] using s(1) by (simp add: pg_defs)
    have "alters {t} p s" using alters_union [OF alters_union [OF 1(2) w(1)] s(2)] by simp
    then show ?thesis
    proof (rule that(1) [OF run])
      show "page_view s t = Some (leaf_write (buf_of q x) k n)" using s(3) w(2) by (simp add: leaf_write_def)
      show "\<forall>b0. page_view p t = Some b0 \<longrightarrow> buf_of q x = b0" using 1(9) by blast
    qed (use s(4) w(3) 1(5) k pos o(3) in \<open>simp_all add: page_size_of_def\<close>)
  qed
next
  case (2 e q)
  have "free_as_leaf t n r p = (Inl e, q)" using 2(1) by (simp add: free_as_leaf_def pg_bind_def)
  then show ?thesis using that(3) 2 by blast
qed

lemma free_as_trunk_ok:
  assumes ok: "pager_ok p" and r: "objs p n = Some r" and n: "n \<noteq> 1"
  obtains q where "free_as_trunk t n r p = (Inr (), q)" "alters {n} p q" "pgr_header q = (pgr_header p)\<lparr>dh_freelist_trunk_page := word_of_nat n\<rparr>"
    "page_view q n = Some (put_u32 (put_u32 (buf_of p r) 0 t) 4 0)"
proof -
  have pre: "0 + 4 \<le> page_size_of p" "4 + 4 \<le> page_size_of p" using store_okD(8) [OF pager_okD(1) [OF ok]] by simp_all
  note w = write_two_ok [OF ok r n pre, of t 0]
  let ?w = "write_two n r 0 t 4 0 p"
  have o: "obj_ok p n r" using pager_okD(4) [OF ok r] .
  let ?h = "(pgr_header ?w)\<lparr>dh_freelist_trunk_page := word_of_nat n\<rparr>"
  have al: "alters {} ?w (?w\<lparr>pgr_header := ?h\<rparr>)"
    by (rule alters_upd_header [OF altersD(1) [OF w(1)]])
      (use store_okD(6) [OF pager_okD(1) [OF altersD(1) [OF w(1)]]] in \<open>simp_all add: get_page_size_def header_ok_def\<close>)
  obtain s where s: "clear_loaded r (?w\<lparr>pgr_header := ?h\<rparr>) = (Inr (), s)" "alters {} (?w\<lparr>pgr_header := ?h\<rparr>) s"
    "page_view s = page_view (?w\<lparr>pgr_header := ?h\<rparr>)" "pgr_header s = pgr_header (?w\<lparr>pgr_header := ?h\<rparr>)"
    using clear_loaded_ok [OF altersD(1) [OF al]] by blast
  have c: "pg_contents (page_flags r (mark_dirty n r p))" using o by (simp add: mark_dirty_def put_page_def page_flags_def obj_ok_def)
  have run: "free_as_trunk t n r p = (Inr (), s)"
    unfolding free_as_trunk_def mark_run pg_bind_def [of "pg_get _"] pg_get_def prod.case sum.case if_not_P [OF not_not [THEN iffD2, OF c]]
      write_two_run [OF o n pre] using s(1) by (simp add: upd_header_def pg_bind_def pg_upd_def)
  have "alters {n} p s" using alters_union [OF alters_union [OF w(1) al] s(2)] by simp
  then show thesis by (rule that [OF run]) (use s(3,4) w(2,3) altersD(3) [OF al] in simp_all)
qed

abbreviation counted :: "pager \<Rightarrow> database_header" where
  "counted p \<equiv> (pgr_header p)\<lparr>dh_freelist_pages := dh_freelist_pages (pgr_header p) + 1\<rparr>"

definition page_arg :: "(nat \<times> page_ref) option \<Rightarrow> nat \<Rightarrow> pager \<Rightarrow> bool" where
  "page_arg page n p = (case page of None \<Rightarrow> True | Some (i, r) \<Rightarrow> i = n \<and> objs p n = Some r)"

text \<open>The page is in hand: what happens then.\<close>

definition free_rest :: "nat \<Rightarrow> page_ref \<Rightarrow> unit pg" where
  "free_rest n r =
     pg_bind (upd_header (\<lambda>h. h\<lparr>dh_freelist_pages := dh_freelist_pages h + 1\<rparr>)) (\<lambda>_.
     pg_bind (pg_get (\<lambda>p. dh_freelist_trunk_page (pgr_header p))) (\<lambda>trunk_page_id.
     pg_bind (if trunk_page_id \<noteq> 0 then free_as_leaf (unat trunk_page_id) n r else pg_ret False) (\<lambda>done.
     if done then pg_ret () else free_as_trunk trunk_page_id n r)))"

lemma free_rest_ok:
  assumes ok: "pager_ok p" and n: "2 \<le> n" and r: "objs p n = Some r" and g: "free_guard n p"
  obtains k b q where "free_rest n r p = (Inr (), q)" "alters {trunk_of p} p q" "pgr_header q = counted p" "trunk_of p \<noteq> 0"
    "slice_u32 b 4 = Inr k" "page_view q (trunk_of p) = Some (leaf_write b k n)" "\<forall>b0. page_view p (trunk_of p) = Some b0 \<longrightarrow> b = b0"
    "8 + unat k * 4 + 4 \<le> length b" "length b = page_size_of p"
  | b q where "free_rest n r p = (Inr (), q)" "alters {n} p q" "pgr_header q = (counted p)\<lparr>dh_freelist_trunk_page := word_of_nat n\<rparr>"
    "page_view q n = Some (put_u32 (put_u32 b 0 (dh_freelist_trunk_page (pgr_header p))) 4 0)" "8 \<le> length b"
  | e q where "free_rest n r p = (Inl e, q)" "alters {} p q" "pgr_header q = counted p" "e \<noteq> Panic"
proof -
  note leaf = that(1) and head = that(2) and bad = that(3)
  let ?p = "p\<lparr>pgr_header := counted p\<rparr>" and ?t = "dh_freelist_trunk_page (pgr_header p)"
  have al: "alters {} p ?p"
    using ok by (rule alters_upd_header) (use store_okD(6) [OF pager_okD(1) [OF ok]] in \<open>simp_all add: get_page_size_def header_ok_def\<close>)
  note okp = altersD(1) [OF al]
  have pv: "page_view ?p = page_view p" using altersD(3) [OF al] by auto
  have run: "free_rest n r p = pg_bind (if ?t \<noteq> 0 then free_as_leaf (unat ?t) n r else pg_ret False)
      (\<lambda>done. if done then pg_ret () else free_as_trunk ?t n r) ?p"
    by (simp add: free_rest_def upd_header_def pg_bind_def [of "pg_upd _"] pg_bind_def [of "pg_get _"] pg_upd_def pg_get_def cong: if_cong)
  have n1: "n \<noteq> 1" using n by simp
  have trunk: thesis
    if q: "(if ?t \<noteq> 0 then free_as_leaf (unat ?t) n r else pg_ret False) ?p = (Inr False, q)" "alters {} ?p q" "pgr_header q = counted p" "objs q n = Some r" for q
  proof -
    note okq = altersD(1) [OF q(2)]
    have len: "8 \<le> length (buf_of q r)" using pager_okD(4) [OF okq q(4)] store_okD(8) [OF pager_okD(1) [OF okq]] by (simp add: obj_ok_def)
    obtain s where s: "free_as_trunk ?t n r q = (Inr (), s)" "alters {n} q s" "pgr_header s = (pgr_header q)\<lparr>dh_freelist_trunk_page := word_of_nat n\<rparr>"
      "page_view s n = Some (put_u32 (put_u32 (buf_of q r) 0 ?t) 4 0)"
      using free_as_trunk_ok [OF okq q(4) n1] by blast
    have "free_rest n r p = (Inr (), s)" using run q(1) s(1) by (simp add: pg_bind_def)
    moreover have "alters {n} p s" using alters_union [OF alters_union [OF al q(2)] s(2)] by simp
    ultimately show thesis using head [of s "buf_of q r"] s(3,4) q(3) len by simp
  qed
  show thesis
  proof (cases "?t = 0")
    case True
    show thesis by (rule trunk [of ?p]) (use True al okp r in \<open>simp_all add: pg_ret_def alters_def\<close>)
  next
    case False
    then have t: "unat ?t \<noteq> 1" "n \<in> set (pgr_dirty ?p) \<or> unat ?t \<in> set (pgr_dirty ?p)"
      using g by (auto simp: free_guard_def unat_eq_zero)
    show thesis
      using okp t(1)
    proof (cases rule: free_as_leaf_ok [where n = n and r = r])
      case (1 k b q)
      have "free_rest n r p = (Inr (), q)" using run False 1(1) by (simp add: pg_defs)
      moreover have "alters {unat ?t} p q" using alters_union [OF al 1(2)] by simp
      ultimately show thesis using leaf [of q b k] 1(3-8) pv False by (simp add: unat_eq_zero page_size_of_def get_page_size_def)
    next
      case (2 q)
      have "objs q n = Some r" using t(2) 2(4) altersD(5) [OF 2(2), of n] r by auto
      then show thesis using trunk [of q] 2 False by simp
    next
      case (3 e q)
      have "free_rest n r p = (Inl e, q)" using run False 3(1) by (simp add: pg_defs)
      then show thesis using bad 3(3,4) alters_union [OF al 3(2)] by simp
    qed
  qed
qed

lemma free_page_ok:
  assumes ok: "pager_ok p" and arg: "page_arg page n p" and g: "free_guard n p"
  obtains k b q where "free_page page n p = (Inr (), q)" "alters {trunk_of p} p q" "pgr_header q = counted p" "trunk_of p \<noteq> 0"
    "slice_u32 b 4 = Inr k" "page_view q (trunk_of p) = Some (leaf_write b k n)" "\<forall>b0. page_view p (trunk_of p) = Some b0 \<longrightarrow> b = b0"
    "8 + unat k * 4 + 4 \<le> length b" "length b = page_size_of p" "2 \<le> n" "n < 2 ^ 32"
  | b q where "free_page page n p = (Inr (), q)" "alters {n} p q" "pgr_header q = (counted p)\<lparr>dh_freelist_trunk_page := word_of_nat n\<rparr>"
    "page_view q n = Some (put_u32 (put_u32 b 0 (dh_freelist_trunk_page (pgr_header p))) 4 0)" "8 \<le> length b" "2 \<le> n" "n < 2 ^ 32"
  | e q where "free_page page n p = (Inl e, q)" "alters {} p q" "pgr_header q = pgr_header p \<or> pgr_header q = counted p" "e \<noteq> Panic"
proof -
  note leaf = that(1) and head = that(2) and bad = that(3)
  have self: "alters {} p p" using ok by (simp add: alters_def)
  have main: thesis
    if n: "2 \<le> n" "n \<le> db_size p" and q: "(case page of Some (i, r) \<Rightarrow> if i = n then pg_ret r else pg_err Panic | None \<Rightarrow> read_page n) p = (Inr r, q)"
      "alters {} p q" "objs q n = Some r" "pgr_header q = pgr_header p" "pgr_dirty q = pgr_dirty p" for r q
  proof -
    have run: "free_page page n p = free_rest n r q"
      using n q(1) by (simp add: free_page_def free_rest_def [symmetric] pg_bind_def [of _ "free_rest n"] pg_bind_def [of "pg_get db_size"] pg_get_def)
    have n32: "n < 2 ^ 32" using n(2) unsigned_less [of "dh_database_size (pgr_header p)", where 'a = nat] by simp
    have gq: "free_guard n q" using g q(4,5) by (simp add: free_guard_def)
    have pv: "page_view q = page_view p" using altersD(3) [OF q(2)] by blast
    show thesis
      using altersD(1) [OF q(2)] n(1) q(3) gq
    proof (cases rule: free_rest_ok)
      case (1 k b s)
      then show thesis using leaf [of s b k] run alters_union [OF q(2) 1(2)] pv n n32 q(4) by (simp add: page_size_of_def)
    next
      case (2 b s)
      then show thesis using head [of s b] run alters_union [OF q(2) 2(2)] n n32 q(4) by simp
    next
      case (3 e s)
      then show thesis using bad [of e s] run alters_union [OF q(2) 3(2)] q(4) by simp
    qed
  qed
  show thesis
  proof (cases "n < 2 \<or> n > db_size p")
    case True
    then have "free_page page n p = (Inl (Corrupt ''Invalid page number  for free operation''), p)" by (simp add: free_page_def pg_defs)
    then show thesis using bad self by blast
  next
    case False
    then have n: "2 \<le> n" "n \<le> db_size p" by simp_all
    show thesis
    proof (cases page)
      case (Some a)
      then obtain r where r: "page = Some (n, r)" "objs p n = Some r" using arg by (cases a) (simp add: page_arg_def)
      then show thesis using main [OF n _ self, of r] by (simp add: pg_ret_def)
    next
      case None
      show thesis
        using ok
      proof (cases rule: read_page_alters [where n = n])
        case (1 r q)
        then show thesis using main [OF n, of r q] None by simp
      next
        case (2 e q)
        then have "free_page page n p = (Inl e, q)" using n None by (simp add: free_page_def pg_defs)
        then show thesis using bad 2(2,3,6) by blast
      qed
    qed
  qed
qed

section \<open>The pages of the free list\<close>

definition trunk_leaves :: "bytes \<Rightarrow> u32 list \<Rightarrow> bool" where
  "trunk_leaves b ls \<longleftrightarrow> slice_u32 b 4 = Inr (word_of_nat (length ls)) \<and> length ls < 2 ^ 32 \<and> (\<forall>i<length ls. slice_u32 b (8 + i * 4) = Inr (ls ! i))"

inductive free_chain :: "contents \<Rightarrow> u32 \<Rightarrow> u32 list \<Rightarrow> bool" for v where
  free_chain_end: "free_chain v 0 []"
| free_chain_trunk: "t \<noteq> 0 \<Longrightarrow> v (unat t) = Some b \<Longrightarrow> slice_u32 b 0 = Inr nx \<Longrightarrow> trunk_leaves b ls \<Longrightarrow> free_chain v nx ns \<Longrightarrow>
    free_chain v t (t # ls @ ns)"

inductive_simps free_chain_iff: "free_chain v t ns"

lemma free_chain_cong:
  assumes "free_chain v t ns" "\<forall>m\<in>set ns. v' (unat m) = v (unat m)"
  shows "free_chain v' t ns"
  using assms
proof induction
  case (free_chain_trunk t b nx ls ns)
  then show ?case by (intro free_chain.free_chain_trunk [of t v' b nx ls ns]) simp_all
qed (rule free_chain_end)

lemma slice_u32_put_same: "pos + 4 \<le> length b \<Longrightarrow> slice_u32 (put_u32 b pos v) pos = Inr v"
  using slice_u32_append [of "take pos b" v "drop (pos + 4) b"] by (simp add: put_u32_def min_def)

lemma slice_u32_put_other:
  assumes "pos + 4 \<le> length b" "i + 4 \<le> pos \<or> pos + 4 \<le> i"
  shows "slice_u32 (put_u32 b pos v) i = slice_u32 b i"
proof -
  have "put_u32 b pos v ! j = b ! j" if "j < pos \<or> pos + 4 \<le> j" for j
    using that assms(1) by (auto simp: put_u32_def nth_append)
  then have "slice_idx (put_u32 b pos v) j = slice_idx b j" if "j < pos \<or> pos + 4 \<le> j" for j
    using that assms(1) by (simp add: slice_idx_def)
  then show ?thesis using assms(2) by (auto simp: slice_u32_def)
qed

lemma leaf_write_leaves:
  assumes "trunk_leaves b ls" "slice_u32 b 4 = Inr k" "8 + unat k * 4 + 4 \<le> length b" "length b \<le> 65536"
  shows "trunk_leaves (leaf_write b k n) (ls @ [word_of_nat n])" "slice_u32 (leaf_write b k n) 0 = slice_u32 b 0"
proof -
  have k: "k = word_of_nat (length ls)" and l: "length ls < 2 ^ 32" and ls: "\<And>i. i < length ls \<Longrightarrow> slice_u32 b (8 + i * 4) = Inr (ls ! i)"
    using assms(1,2) by (auto simp: trunk_leaves_def)
  have uk: "unat k = length ls" using k l by (simp add: unat_of_nat take_bit_nat_eq_self)
  let ?b = "put_u32 b 4 (k + 1)"
  have b1: "4 + 4 \<le> length b" "length ?b = length b" "8 + unat k * 4 + 4 \<le> length ?b" using assms(3) by simp_all
  have get: "slice_u32 (leaf_write b k n) i = slice_u32 ?b i" if "i + 4 \<le> 8 + unat k * 4" for i
    unfolding leaf_write_def using slice_u32_put_other [OF b1(3)] that by blast
  have old: "slice_u32 ?b i = slice_u32 b i" if "i + 4 \<le> 4 \<or> 8 \<le> i" for i using slice_u32_put_other [OF b1(1)] that by simp
  show "slice_u32 (leaf_write b k n) 0 = slice_u32 b 0" using get [of 0] old [of 0] by simp
  have "slice_u32 (leaf_write b k n) (8 + i * 4) = Inr ((ls @ [word_of_nat n]) ! i)" if "i < length ls + 1" for i
  proof (cases "i < length ls")
    case True
    then show ?thesis using get [of "8 + i * 4"] old [of "8 + i * 4"] ls uk by (simp add: nth_append)
  next
    case False
    then have "i = unat k" using that uk by simp
    then show ?thesis using slice_u32_put_same [OF b1(3)] uk by (simp add: leaf_write_def)
  qed
  moreover have "slice_u32 (leaf_write b k n) 4 = Inr (word_of_nat (length (ls @ [word_of_nat n :: u32])))"
    using get [of 4] slice_u32_put_same [OF b1(1)] k by (simp add: add.commute)
  ultimately show "trunk_leaves (leaf_write b k n) (ls @ [word_of_nat n])"
    using assms(3,4) uk by (simp add: trunk_leaves_def)
qed

lemma free_chain_add_leaf:
  assumes c: "free_chain v t ns" "distinct ns" and t: "t \<noteq> 0" and b: "\<forall>b0. v (unat t) = Some b0 \<longrightarrow> b = b0"
    and k: "slice_u32 b 4 = Inr k" "8 + unat k * 4 + 4 \<le> length b" "length b \<le> 65536"
    and v': "v' (unat t) = Some (leaf_write b k n)" "\<forall>m. m \<noteq> unat t \<longrightarrow> v' m = v m"
  shows "\<exists>ns'. free_chain v' t ns' \<and> mset ns' = add_mset (word_of_nat n) (mset ns)"
proof -
  obtain b0 nx ls ms where ch: "ns = t # ls @ ms" "v (unat t) = Some b0" "slice_u32 b0 0 = Inr nx" "trunk_leaves b0 ls" "free_chain v nx ms"
    using c(1) t by (subst (asm) free_chain_iff) blast
  have b0: "b0 = b" using b ch(2) by simp
  note w = leaf_write_leaves [OF ch(4) [unfolded b0] k, of n]
  have "unat m \<noteq> unat t" if "m \<in> set ms" for m using c(2) ch(1) that by (auto dest: word_unat_eq_iff [THEN iffD2])
  then have ms: "free_chain v' nx ms" using v'(2) by (intro free_chain_cong [OF ch(5)]) simp
  have "free_chain v' t (t # (ls @ [word_of_nat n]) @ ms)"
    by (rule free_chain_trunk [OF t v'(1) _ w(1) ms]) (use ch(3) b0 w(2) in simp)
  then show ?thesis using ch(1) by (intro exI conjI) auto
qed

lemma free_chain_add_trunk:
  assumes c: "free_chain v t ns" and n: "word_of_nat n \<notin> set ns" "0 < n" "n < 2 ^ 32" and b: "8 \<le> length b"
    and v': "v' n = Some (put_u32 (put_u32 b 0 t) 4 0)" "\<forall>m. m \<noteq> n \<longrightarrow> v' m = v m"
  shows "free_chain v' (word_of_nat n) (word_of_nat n # ns)"
proof -
  have un: "unat (word_of_nat n :: u32) = n" using n(3) by (simp add: unat_of_nat take_bit_nat_eq_self)
  have "unat m \<noteq> n" if "m \<in> set ns" for m using that n(1) by auto
  then have ns: "free_chain v' t ns" using v'(2) by (intro free_chain_cong [OF c]) simp
  let ?b = "put_u32 (put_u32 b 0 t) 4 0"
  have "slice_u32 ?b 0 = Inr t" "slice_u32 ?b 4 = Inr 0"
    using b slice_u32_put_same [of 0 b t] slice_u32_put_same [of 4 "put_u32 b 0 t" 0] slice_u32_put_other [of 4 "put_u32 b 0 t" 0 0] by simp_all
  then have "free_chain v' (word_of_nat n) (word_of_nat n # [] @ ns)"
    by (intro free_chain_trunk [OF _ _ _ _ ns]) (use v'(1) un n(2) in \<open>auto simp: trunk_leaves_def\<close>)
  then show ?thesis by simp
qed

end
