(* ===== verification/PagerClient.thy ===== *)
theory PagerClient
  imports PagerFree
begin

text \<open>
  What the clients of the pager do to it: pointer map entries, changes of pages, and any sequence of operations. Each
  operation is a step on the contents of the database and the stack of savepoints.
\<close>

section \<open>Pointer map entries\<close>

definition entry_bytes :: "ptrmap_type \<Rightarrow> u32 \<Rightarrow> bytes" where
  "entry_bytes t parent = ptrmap_type_u8 t # to_be 4 parent"

definition put_entry :: "bytes \<Rightarrow> nat \<Rightarrow> bytes \<Rightarrow> bytes" where
  "put_entry b off e = take off b @ e @ drop (off + 5) b"

lemma entry_bytes_deserialize: "ptrmap_deserialize (entry_bytes t parent) = Some \<lparr>pm_entry_type = t, pm_parent_page_no = parent\<rparr>"
  using from_be_to_be [of 4 parent] by (simp add: entry_bytes_def ptrmap_deserialize_def ptrmap_consts)

lemma entry_bytes_serialize:
  assumes "length old = 5"
  shows "ptrmap_serialize \<lparr>pm_entry_type = t, pm_parent_page_no = parent\<rparr> old = Inr (entry_bytes t parent)"
proof -
  obtain x xs where "old = x # xs" "length xs = 4" using assms by (cases old) auto
  then show ?thesis by (simp add: ptrmap_serialize_def ptrmap_consts entry_bytes_def)
qed

lemma length_entry_bytes [simp]: "length (entry_bytes t parent) = 5"
  by (simp add: entry_bytes_def)

text \<open>The slot of a page, for the page size of a pager.\<close>

lemma slot_ok:
  assumes "store_ok p" "\<not> n < 2" "is_ptrmap_page n (page_size_of p) \<noteq> Inr True"
  obtains m off where "ptrmap_slot (page_size_of p) n = Inr (m, off)" "get_ptrmap_page_no_for_db_page n (page_size_of p) = Inr m"
    "get_ptrmap_offset_in_page n m (page_size_of p) = Inr off" "off + 5 \<le> page_size_of p" "m \<noteq> 1"
    "is_ptrmap_page n (page_size_of p) = Inr False"
proof -
  have ps: "512 \<le> page_size_of p" "page_size_of p \<le> 65536" "2 \<le> n" using store_okD(8,9) [OF assms(1)] assms(2) by simp_all
  then have b: "is_ptrmap_page n (page_size_of p) = Inr False" using is_ptrmap_page_ok [of "page_size_of p" n] assms(3) by fastforce
  obtain m where m: "ptrmap_slot (page_size_of p) n = Inr (m, (n - m - 1) * 5)" "m < n" "n \<le> m + page_size_of p div 5" "2 \<le> m"
    using ptrmap_slot_eq [OF ps b] by blast
  have "(n - m - 1) * 5 + 5 \<le> page_size_of p" using m(2,3) by linarith
  moreover have "get_ptrmap_page_no_for_db_page n (page_size_of p) = Inr m" "get_ptrmap_offset_in_page n m (page_size_of p) = Inr ((n - m - 1) * 5)"
    using m(1) by (auto simp: ptrmap_slot_def res_bind_def split: sum.splits)
  ultimately show thesis using that m b by simp
qed

lemma ptrmap_put_ok:
  assumes ok: "pager_ok p"
  obtains m off b r q where "ptrmap_put n t parent p = (Inr (), q)" "alters {m} p q" "pgr_header q = pgr_header p" "2 \<le> n"
    "is_ptrmap_page n (page_size_of p) = Inr False" "ptrmap_slot (page_size_of p) n = Inr (m, off)" "off + 5 \<le> length b"
    "page_view q m = Some (put_entry b off (entry_bytes t parent))" "\<forall>b0. page_view p m = Some b0 \<longrightarrow> b = b0"
    "objs q m = Some r" "pg_loaded (page_flags r q)"
  | e q where "ptrmap_put n t parent p = (Inl e, q)" "alters {} p q" "pgr_header q = pgr_header p"
proof (cases "n < 2 \<or> is_ptrmap_page n (page_size_of p) = Inr True")
  case True
  then have "ptrmap_put n t parent p = (Inl (limbo_error.InternalError ''Cannot set ptrmap entry for page ''), p)"
    by (auto simp: ptrmap_put_def ptrmap_consts pg_defs)
  then show ?thesis using that(2) ok by (simp add: alters_def)
next
  case False
  obtain m off where m: "ptrmap_slot (page_size_of p) n = Inr (m, off)" "get_ptrmap_page_no_for_db_page n (page_size_of p) = Inr m"
    "get_ptrmap_offset_in_page n m (page_size_of p) = Inr off" "off + 5 \<le> page_size_of p" "m \<noteq> 1" "is_ptrmap_page n (page_size_of p) = Inr False"
    using slot_ok [OF pager_okD(1) [OF ok], of n] False by blast
  show ?thesis
    using ok
  proof (cases rule: read_page_alters [where n = m])
    case (1 r q)
    note okq = altersD(1) [OF 1(2)]
    let ?c = "pgr_contents q r" and ?s = "(page_flags r q)\<lparr>pg_dirty := True\<rparr>"
    have o: "pg_contents (page_flags r q)" "\<not> pg_locked (page_flags r q)" "pgc_offset ?c = 0" "length (buf_of q r) = page_size_of p"
      using 1(4,5) m(5) by (simp_all add: obj_ok_def page_size_of_def)
    show ?thesis
    proof (cases "pg_loaded (page_flags r q)")
      case nl: False
      then have "ptrmap_put n t parent p = (Inl Panic, q)" using False m 1(1) o by (simp add: ptrmap_put_def ptrmap_consts pg_defs)
      then show ?thesis using that(2) 1(2,5) by blast
    next
      case True
      let ?b = "put_entry (buf_of q r) off (entry_bytes t parent)"
      let ?q = "put_page m r ?s (?c\<lparr>pgc_buffer := ?b\<rparr>) q"
      have sl: "slice_range (buf_of q r) off (off + 5) = Inr (take 5 (drop off (buf_of q r)))" using m(4) o(4) by (simp add: slice_range_def)
      have ser: "ptrmap_serialize \<lparr>pm_entry_type = t, pm_parent_page_no = parent\<rparr> (take 5 (drop off (buf_of q r))) = Inr (entry_bytes t parent)"
        using m(4) o(4) by (intro entry_bytes_serialize) simp
      have wr: "slice_write (buf_of q r) off (entry_bytes t parent) = Inr ?b" using m(4) o(4) by (simp add: put_entry_def)
      have run: "ptrmap_put n t parent p = (Inr (), ?q)"
        using False m 1(1) o True sl ser wr by (simp add: ptrmap_put_def ptrmap_consts pg_defs set_contents_def set_dirty_def set_page_flags_def
          add_dirty_def page_flags_def put_page_def)
      have pre: "dirty_flags ?s" "length (pgc_buffer (?c\<lparr>pgc_buffer := ?b\<rparr>)) = page_size_of q" "pgc_offset (?c\<lparr>pgc_buffer := ?b\<rparr>) = (if m = 1 then 100 else 0)"
        using 1(4,5) m(4,5) o by (simp_all add: obj_ok_def dirty_flags_def put_entry_def page_size_of_def)
      note put = put_page_ok [OF okq 1(3) pre]
      have al: "alters {m} p ?q" using alters_union [OF 1(2) alters_put_page [OF okq 1(3) pre]] by simp
      show ?thesis
      proof (rule that(1) [OF run al])
        show "page_view ?q m = Some ?b" using put(2) by simp
        show "\<forall>b0. page_view p m = Some b0 \<longrightarrow> buf_of q r = b0" using 1(9) by blast
        show "objs ?q m = Some r" using put(4) 1(3) by simp
        show "pg_loaded (page_flags r ?q)" using True by (simp add: put_page_def page_flags_def)
      qed (use m o(4) False 1(5) in \<open>simp_all add: put_page_def\<close>)
    qed
  next
    case (2 e q)
    then have "ptrmap_put n t parent p = (Inl e, q)" using False m by (simp add: ptrmap_put_def ptrmap_consts pg_defs)
    then show ?thesis using that(2) 2(2,3) by blast
  qed
qed

lemma ptrmap_get_ok:
  assumes ok: "pager_ok p" and n: "2 \<le> n" "is_ptrmap_page n (page_size_of p) = Inr False" and slot: "ptrmap_slot (page_size_of p) n = Inr (m, off)"
    and r: "objs p m = Some r" "pg_loaded (page_flags r p)" and b: "page_view p m = Some b"
    and e: "ptrmap_deserialize (take 5 (drop off b)) = Some entry"
  obtains q where "ptrmap_get n p = (Inr (Some entry), q)" "alters {} p q"
proof -
  obtain m' off' where m: "ptrmap_slot (page_size_of p) n = Inr (m', off')" "get_ptrmap_page_no_for_db_page n (page_size_of p) = Inr m'"
    "get_ptrmap_offset_in_page n m' (page_size_of p) = Inr off'" "off' + 5 \<le> page_size_of p" "m' \<noteq> 1"
    using slot_ok [OF pager_okD(1) [OF ok], of n] n by auto
  then have eq: "m' = m" "off' = off" using slot by auto
  note m = m(2-5) [unfolded eq]
  have o: "obj_ok p m r" using pager_okD(4) [OF ok r(1)] .
  have bf: "buf_of p r = b" using b o r(1) by (auto simp: page_view_def obj_ok_def split: if_splits)
  obtain c where c: "cache_get m (pgr_cache p) = Some (Some r, c)" "cache_ok c" "cached c = objs p" "pc_pages c = pc_pages (pgr_cache p)"
    using cache_get_ok [OF pager_okD(2) [OF ok], of m] r(1) by auto
  let ?q = "p\<lparr>pgr_cache := c\<rparr>"
  have rd: "read_page m p = (Inr r, ?q)" using c(1) by (simp add: read_page_def pg_defs)
  have len: "length b = page_size_of p" "pgc_offset (pgr_contents p r) = 0" using o m(4) bf by (simp_all add: obj_ok_def)
  have fl: "page_flags r ?q = page_flags r p" using c(4) by (simp add: page_flags_def)
  have sl: "slice_range b off (off + 5) = Inr (take 5 (drop off b))" "slice_from b 0 = Inr b" using m(3) len(1) by (simp_all add: slice_range_def slice_from_def)
  have "ptrmap_get n p = (Inr (Some entry), ?q)"
    using n m rd fl o r(2) bf len sl e by (simp add: ptrmap_get_def ptrmap_consts pg_defs obj_ok_def)
  moreover have "alters {} p ?q"
    using untouched_alters [OF ok, of ?q] shrunk_same [OF ok c(2-4)] pager_okD(3) [OF ok] by (simp add: untouched_def rest_def)
  ultimately show thesis using that by blast
qed

section \<open>Operations\<close>

text \<open>A client changes bytes of a page: it reads the page, marks it dirty and writes into its buffer.\<close>

definition modify_page :: "nat \<Rightarrow> nat \<Rightarrow> bytes \<Rightarrow> unit pg" where
  "modify_page n pos bs =
     pg_bind (read_page n) (\<lambda>r.
     pg_bind (set_dirty r) (\<lambda>_.
     pg_bind (add_dirty n) (\<lambda>_.
     pg_bind (pg_get (\<lambda>p. pc_write (pgr_contents p r) pos bs)) (\<lambda>c.
     pg_bind (pg_res c) (set_contents r)))))"

lemma modify_page_ok:
  assumes ok: "pager_ok p"
  obtains b q where "modify_page n pos bs p = (Inr (), q)" "alters {n} p q" "pgr_header q = pgr_header p"
    "page_view q n = Some (take pos b @ bs @ drop (pos + length bs) b)" "\<forall>b0. page_view p n = Some b0 \<longrightarrow> b = b0"
  | e q where "modify_page n pos bs p = (Inl e, q)" "alters {n} p q" "pgr_header q = pgr_header p"
  using ok
proof (cases rule: read_page_alters [where n = n])
  case (1 r q)
  note okq = altersD(1) [OF 1(2)]
  let ?c = "pgr_contents q r" and ?s = "(page_flags r q)\<lparr>pg_dirty := True\<rparr>"
  have o: "length (buf_of q r) = page_size_of q" "dirty_flags ?s" "pgc_offset ?c = (if n = 1 then 100 else 0)"
    using 1(4) by (simp_all add: obj_ok_def dirty_flags_def)
  have start: "modify_page n pos bs p = pg_bind (pg_get (\<lambda>p. pc_write (pgr_contents p r) pos bs)) (\<lambda>c. pg_bind (pg_res c) (set_contents r)) (mark_dirty n r q)"
    using 1(1) mark_run by (simp add: modify_page_def pg_bind_def [of "read_page n"])
  show ?thesis
  proof (cases "pos + length bs \<le> length (buf_of q r)")
    case True
    let ?b = "take pos (buf_of q r) @ bs @ drop (pos + length bs) (buf_of q r)"
    let ?q = "put_page n r ?s (?c\<lparr>pgc_buffer := ?b\<rparr>) q"
    have run: "modify_page n pos bs p = (Inr (), ?q)"
      unfolding start using True by (simp add: pc_write_def mark_dirty_def put_page_def set_contents_def pg_defs)
    have pre: "length (pgc_buffer (?c\<lparr>pgc_buffer := ?b\<rparr>)) = page_size_of q" "pgc_offset (?c\<lparr>pgc_buffer := ?b\<rparr>) = (if n = 1 then 100 else 0)"
      using True o by simp_all
    note put = put_page_ok [OF okq 1(3) o(2) pre]
    have "alters {n} p ?q" using alters_union [OF 1(2) alters_put_page [OF okq 1(3) o(2) pre]] by simp
    then show ?thesis
    proof (rule that(1) [OF run])
      show "page_view ?q n = Some ?b" using put(2) by simp
      show "\<forall>b0. page_view p n = Some b0 \<longrightarrow> buf_of q r = b0" using 1(9) by blast
    qed (simp add: put_page_def 1(5))
  next
    case False
    have "modify_page n pos bs p = (Inl Panic, mark_dirty n r q)"
      unfolding start using False by (simp add: pc_write_def slice_write_def mark_dirty_def put_page_def pg_defs)
    moreover have "alters {n} p (mark_dirty n r q)"
      using alters_union [OF 1(2) alters_put_page [OF okq 1(3) o(2) o(1) o(3)]] by (simp add: mark_dirty_def)
    ultimately show ?thesis using that(2) 1(5) by (simp add: mark_dirty_def put_page_def)
  qed
next
  case (2 e q)
  have "modify_page n pos bs p = (Inl e, q)" using 2(1) by (simp add: modify_page_def pg_defs)
  then show ?thesis using that(2) alters_trans [OF 2(2), of "{}" q "{n}"] altersD(1) [OF 2(2)] 2(3) by (simp add: alters_def)
qed

datatype pager_op =
  OpRead nat
| OpModify nat nat bytes
| OpAllocate
| OpFree nat
| OpPutEntry nat ptrmap_type u32
| OpWriteHeader
| OpOpen string bool
| OpRollbackTo string
| OpRelease string

fun pager_exec :: "bool \<Rightarrow> pager_op \<Rightarrow> unit pg" where
  "pager_exec be (OpRead n) = pg_bind (read_page n) (\<lambda>_. pg_ret ())"
| "pager_exec be (OpModify n pos bs) = modify_page n pos bs"
| "pager_exec be OpAllocate = pg_bind allocate_page (\<lambda>_. pg_ret ())"
| "pager_exec be (OpFree n) = pg_bind (read_page n) (\<lambda>r. free_page (Some (n, r)) n)"
| "pager_exec be (OpPutEntry n t parent) = ptrmap_put n t parent"
| "pager_exec be OpWriteHeader = write_database_header"
| "pager_exec be (OpOpen name own) = open_savepoint be name own"
| "pager_exec be (OpRollbackTo name) = rollback_to_savepoint name"
| "pager_exec be (OpRelease name) = pg_bind (release_savepoint name) (\<lambda>_. pg_ret ())"

text \<open>Allocation stays clear of the last page numbers, and a page is freed under the condition of \<open>free_guard\<close>.\<close>

fun legal :: "pager_op \<Rightarrow> pager \<Rightarrow> bool" where
  "legal OpAllocate p \<longleftrightarrow> 1 \<le> db_size p \<and> db_size p + 2 < 2 ^ 32"
| "legal (OpFree n) p \<longleftrightarrow> free_guard n p"
| "legal _ p \<longleftrightarrow> True"

section \<open>The specification\<close>

text \<open>
  The abstract state: the header in memory, the contents of the database, and the savepoints with the contents each of
  them restores. \<open>db_step op res s s'\<close>: the operation may take \<open>s\<close> to \<open>s'\<close> with the result \<open>res\<close>.
\<close>

type_synonym db = "database_header \<times> db_state"

definition abs_of :: "pager \<Rightarrow> db" where
  "abs_of p = (pgr_header p, db_of p)"

definition same_but :: "nat set \<Rightarrow> contents \<Rightarrow> contents \<Rightarrow> bool" where
  "same_but K v v' \<longleftrightarrow> (\<forall>m. m \<notin> K \<longrightarrow> v' m = v m)"

definition find_sp :: "string \<Rightarrow> (string \<times> bool \<times> contents) list \<Rightarrow> nat option" where
  "find_sp name = rposition (\<lambda>sp. eq_ignore_ascii_case (fst sp) name)"

abbreviation no_savepoint :: "'a res" where
  "no_savepoint \<equiv> Inl (ParseError ''no such savepoint: '')"

fun db_step :: "pager_op \<Rightarrow> unit res \<Rightarrow> db \<Rightarrow> db \<Rightarrow> bool" where
  "db_step (OpRead n) res (h, v, st) (h', v', st') \<longleftrightarrow> h' = h \<and> v' = v \<and> st' = st \<and> res \<noteq> Inl Panic"
| "db_step (OpModify n pos bs) res (h, v, st) (h', v', st') \<longleftrightarrow> h' = h \<and> st' = st \<and> same_but {n} v v' \<and>
     (res = Inr () \<longrightarrow> (\<exists>b. (\<forall>b0. v n = Some b0 \<longrightarrow> b = b0) \<and> v' n = Some (take pos b @ bs @ drop (pos + length bs) b)))"
| "db_step OpAllocate res (h, v, st) (h', v', st') \<longleftrightarrow> st' = st \<and> res \<noteq> Inl Panic \<and>
     (let k = unat (dh_database_size h) + 1 in
      if res = Inr () then
        (\<exists>n\<in>{k, k + 1}. h' = h\<lparr>dh_database_size := word_of_nat n\<rparr> \<and> v' n \<noteq> None) \<and> same_but {1, k, k + 1} v v' \<and> (\<exists>b. v' 1 = Some (header_bytes h' @ b))
      else same_but {k, k + 1} v v')"
| "db_step (OpFree n) res (h, v, st) (h', v', st') \<longleftrightarrow> st' = st \<and> res \<noteq> Inl Panic \<and>
     (let t = unat (dh_freelist_trunk_page h); h1 = h\<lparr>dh_freelist_pages := dh_freelist_pages h + 1\<rparr> in
      if res = Inr () then h' = h1 \<and> t \<noteq> 0 \<and> same_but {t} v v' \<or> h' = h1\<lparr>dh_freelist_trunk_page := word_of_nat n\<rparr> \<and> same_but {n} v v'
      else v' = v \<and> (h' = h \<or> h' = h1))"
| "db_step (OpPutEntry n t parent) res (h, v, st) (h', v', st') \<longleftrightarrow> h' = h \<and> st' = st \<and>
     (if res = Inr () then \<exists>m off. ptrmap_slot (unat (get_page_size h)) n = Inr (m, off) \<and> same_but {m} v v' \<and>
        (\<exists>b. v' m = Some (put_entry b off (entry_bytes t parent))) else v' = v)"
| "db_step OpWriteHeader res (h, v, st) (h', v', st') \<longleftrightarrow> h' = h \<and> st' = st \<and> res \<noteq> Inl Panic \<and>
     (if res = Inr () then same_but {1} v v' \<and> (\<exists>b. v' 1 = Some (header_bytes h @ b)) else v' = v)"
| "db_step (OpOpen name own) res (h, v, st) (h', v', st') \<longleftrightarrow> res = Inr () \<and> h' = h \<and> v' = v \<and> st' = st @ [(name, own, v)]"
| "db_step (OpRollbackTo name) res (h, v, st) (h', v', st') \<longleftrightarrow> h' = h \<and>
     (case find_sp name st of
        None \<Rightarrow> res = no_savepoint \<and> v' = v \<and> st' = st
      | Some i \<Rightarrow> res = Inr () \<and> v' = snd (snd (st ! i)) \<and> st' = take (i + 1) st)"
| "db_step (OpRelease name) res (h, v, st) (h', v', st') \<longleftrightarrow> h' = h \<and> v' = v \<and>
     (case find_sp name st of
        None \<Rightarrow> res = no_savepoint \<and> st' = st
      | Some i \<Rightarrow> res = Inr () \<and> st' = take i st)"

section \<open>The pager implements it\<close>

lemma alters_step:
  assumes "pager_inv p" "alters K p q"
  shows "pager_inv q" "snd (db_of q) = snd (db_of p)" "txn_kept p q" "same_but K (page_view p) (page_view q)"
proof -
  have r: "rest q = rest p" using altersD(2) [OF assms(2)] .
  have "saved q = saved p" "pgr_savepoints q = pgr_savepoints p" using r by (simp_all add: fun_eq_iff saved_def rest_def)
  then show "snd (db_of q) = snd (db_of p)" by (simp add: db_of_def)
  have "savepoints_ok q" using assms(1) r by (simp add: pager_inv_def savepoints_ok_def rest_def)
  then show "pager_inv q" using altersD(1) [OF assms(2)] by (simp add: pager_inv_def)
  show "txn_kept p q" using r by (rule txn_kept_rest)
  show "same_but K (page_view p) (page_view q)" using altersD(3) [OF assms(2)] by (simp add: same_but_def)
qed

definition implements :: "pager_op \<Rightarrow> pager \<Rightarrow> unit res \<times> pager \<Rightarrow> bool" where
  "implements op p rq \<longleftrightarrow> (case rq of (res, q) \<Rightarrow> pager_inv q \<and> txn_kept p q \<and> db_step op res (abs_of p) (abs_of q))"

lemma abs_of_eq: "abs_of p = (pgr_header p, page_view p, snd (db_of p))"
  by (simp add: abs_of_def db_of_def)

lemma same_but_none: "same_but {} v v' \<Longrightarrow> v' = v"
  by (auto simp: same_but_def)

lemmas step_defs = implements_def abs_of_eq

lemma exec_read:
  assumes inv: "pager_inv p"
  shows "implements (OpRead n) p (pager_exec be (OpRead n) p)"
proof -
  have "pager_ok p" using inv by (simp add: pager_inv_def)
  then show ?thesis
  proof (cases rule: read_page_alters [where n = n])
    case (1 r q)
    then show ?thesis using alters_step [OF inv 1(2)] by (simp add: step_defs pg_defs same_but_none)
  next
    case (2 e q)
    then show ?thesis using alters_step [OF inv 2(2)] by (simp add: step_defs pg_defs same_but_none)
  qed
qed

lemma exec_modify:
  assumes inv: "pager_inv p"
  shows "implements (OpModify n pos bs) p (pager_exec be (OpModify n pos bs) p)"
proof -
  have "pager_ok p" using inv by (simp add: pager_inv_def)
  then show ?thesis
  proof (cases rule: modify_page_ok [where n = n and pos = pos and bs = bs])
    case (1 b q)
    then show ?thesis using alters_step [OF inv 1(2)] by (auto simp: step_defs)
  next
    case (2 e q)
    then show ?thesis using alters_step [OF inv 2(2)] by (simp add: step_defs)
  qed
qed

lemma exec_allocate:
  assumes inv: "pager_inv p" and sz: "1 \<le> db_size p" "db_size p + 2 < 2 ^ 32"
  shows "implements OpAllocate p (pager_exec be OpAllocate p)"
proof -
  have "pager_ok p" using inv by (simp add: pager_inv_def)
  then show ?thesis
    using sz
  proof (cases rule: allocate_page_ok)
    case (1 n r q)
    note al = alters_step [OF inv 1(3)]
    have "page_view q n \<noteq> None" using 1(4,5) by (simp add: page_view_def)
    then have n: "\<exists>n\<in>{db_size p + 1, db_size p + 1 + 1}. pgr_header q = resized n p \<and> page_view q n \<noteq> None" using 1(2,6) by auto
    have "\<exists>b. page_view q 1 = Some (header_bytes (pgr_header q) @ b)" using 1(6,7) by simp
    then show ?thesis using 1(1) al n by (simp add: step_defs pg_defs Let_def)
  next
    case (2 e q)
    then show ?thesis using alters_step [OF inv 2(3)] by (simp add: step_defs pg_defs Let_def)
  qed
qed

lemma exec_free:
  assumes inv: "pager_inv p" and g: "free_guard n p"
  shows "implements (OpFree n) p (pager_exec be (OpFree n) p)"
proof -
  have "pager_ok p" using inv by (simp add: pager_inv_def)
  then show ?thesis
  proof (cases rule: read_page_alters [where n = n])
    case (1 r q)
    have gq: "free_guard n q" using g 1(5,6) by (simp add: free_guard_def)
    have arg: "page_arg (Some (n, r)) n q" using 1(3) by (simp add: page_arg_def)
    have run: "pager_exec be (OpFree n) p = free_page (Some (n, r)) n q" using 1(1) by (simp add: pg_bind_def)
    show ?thesis
      using altersD(1) [OF 1(2)] arg gq
    proof (cases rule: free_page_ok)
      case f: (1 k b s)
      note al = alters_step [OF inv alters_union [OF 1(2) f(2)]]
      show ?thesis using f(1,3,4) al 1(5) unfolding run by (simp add: step_defs Let_def)
    next
      case f: (2 b s)
      note al = alters_step [OF inv alters_union [OF 1(2) f(2)]]
      show ?thesis using f(1,3) al 1(5) unfolding run by (simp add: step_defs Let_def)
    next
      case f: (3 e s)
      note al = alters_step [OF inv alters_union [OF 1(2) f(2)]]
      show ?thesis using f(1,3,4) al 1(5) unfolding run by (simp add: step_defs Let_def same_but_none)
    qed
  next
    case (2 e q)
    then show ?thesis using alters_step [OF inv 2(2)] by (simp add: step_defs pg_defs Let_def same_but_none)
  qed
qed

lemma exec_put_entry:
  assumes inv: "pager_inv p"
  shows "implements (OpPutEntry n t parent) p (pager_exec be (OpPutEntry n t parent) p)"
proof -
  have "pager_ok p" using inv by (simp add: pager_inv_def)
  then show ?thesis
  proof (cases rule: ptrmap_put_ok [where n = n and t = t and parent = parent])
    case (1 m off b r q)
    note al = alters_step [OF inv 1(2)]
    have "\<exists>m off. ptrmap_slot (page_size_of p) n = Inr (m, off) \<and> same_but {m} (page_view p) (page_view q) \<and>
        (\<exists>b. page_view q m = Some (put_entry b off (entry_bytes t parent)))"
      using 1(6,8) al(4) by blast
    then show ?thesis using 1(1,3) al by (simp add: step_defs page_size_of_def)
  next
    case (2 e q)
    then show ?thesis using alters_step [OF inv 2(2)] by (simp add: step_defs same_but_none)
  qed
qed

lemma exec_write_header:
  assumes inv: "pager_inv p"
  shows "implements OpWriteHeader p (pager_exec be OpWriteHeader p)"
proof -
  have "pager_ok p" using inv by (simp add: pager_inv_def)
  then show ?thesis
  proof (cases rule: write_database_header_ok)
    case (1 q b)
    then show ?thesis using alters_step [OF inv 1(2)] by (simp add: step_defs)
  next
    case (2 e q)
    then show ?thesis using alters_step [OF inv 2(2)] by (simp add: step_defs same_but_none)
  qed
qed

lemma exec_open:
  assumes inv: "pager_inv p"
  shows "implements (OpOpen name own) p (pager_exec be (OpOpen name own) p)"
proof -
  obtain q where q: "open_savepoint be name own p = (Inr (), q)" "pager_inv q"
    "db_of q = (fst (db_of p), snd (db_of p) @ [(name, own, fst (db_of p))])" "pgr_header q = pgr_header p" "txn_kept p q"
    using open_savepoint_ok [OF inv] .
  then show ?thesis by (simp add: implements_def abs_of_def db_of_def)
qed

lemma find_sp_db: "find_sp name (snd (db_of p)) = rposition (\<lambda>sp. eq_ignore_ascii_case (sp_name sp) name) (pgr_savepoints p)"
  by (simp add: find_sp_def db_of_def rposition_map)

lemma exec_rollback_to:
  assumes inv: "pager_inv p"
  shows "implements (OpRollbackTo name) p (pager_exec be (OpRollbackTo name) p)"
proof (cases "find_sp name (snd (db_of p))")
  case None
  then show ?thesis using rollback_to_savepoint_missing(1) [of name p] inv by (simp add: find_sp_db implements_def abs_of_def db_of_def txn_kept_def find_sp_def rposition_map)
next
  case (Some i)
  obtain q where q: "rollback_to_savepoint name p = (Inr (), q)" "pager_inv q"
    "db_of q = (snd (snd (snd (db_of p) ! i)), take (i + 1) (snd (db_of p)))" "pgr_header q = pgr_header p" "txn_kept p q"
    using rollback_to_savepoint_ok [OF inv] Some unfolding find_sp_db by blast
  have "abs_of q = (pgr_header p, snd (snd (snd (db_of p) ! i)), take (i + 1) (snd (db_of p)))" using q(3,4) by (simp add: abs_of_def)
  then show ?thesis using q(1,2,5) Some by (simp add: implements_def abs_of_eq [of p])
qed

lemma exec_release:
  assumes inv: "pager_inv p"
  shows "implements (OpRelease name) p (pager_exec be (OpRelease name) p)"
proof (cases "find_sp name (snd (db_of p))")
  case None
  then show ?thesis using rollback_to_savepoint_missing(2) [of name p] inv by (simp add: find_sp_db implements_def abs_of_def db_of_def txn_kept_def find_sp_def rposition_map pg_defs)
next
  case (Some i)
  obtain q where q: "release_savepoint name p = (Inr (fst (snd (snd (db_of p) ! i))), q)" "pager_inv q"
    "db_of q = (fst (db_of p), take i (snd (db_of p)))" "pgr_header q = pgr_header p" "txn_kept p q"
    using release_savepoint_ok [OF inv] Some unfolding find_sp_db by blast
  have "abs_of q = (pgr_header p, page_view p, take i (snd (db_of p)))" using q(3,4) by (simp add: abs_of_def db_of_def)
  then show ?thesis using q(1,2,5) Some by (simp add: implements_def abs_of_eq [of p] pg_defs)
qed

lemma exec_implements:
  assumes "pager_inv p" "legal op p"
  shows "implements op p (pager_exec be op p)"
  using assms exec_read exec_modify exec_allocate exec_free exec_put_entry exec_write_header exec_open exec_rollback_to exec_release
  by (cases op) simp_all

end
