(* ===== verification/PagerProps.thy ===== *)
theory PagerProps
  imports PagerClient
begin

text \<open>
  The properties of the pager as a whole: what its clients read and write, savepoints, rollback and commit, pointer maps and the
  free list.
\<close>

section \<open>Sequences of operations\<close>

fun exec_all :: "bool \<Rightarrow> pager_op list \<Rightarrow> pager \<Rightarrow> pager" where
  "exec_all be [] p = p"
| "exec_all be (op # ops) p = exec_all be ops (snd (pager_exec be op p))"

fun legal_all :: "bool \<Rightarrow> pager_op list \<Rightarrow> pager \<Rightarrow> bool" where
  "legal_all be [] p \<longleftrightarrow> True"
| "legal_all be (op # ops) p \<longleftrightarrow> legal op p \<and> legal_all be ops (snd (pager_exec be op p))"

text \<open>The stack of savepoints stays higher than \<open>d\<close>.\<close>

fun stays_open :: "bool \<Rightarrow> nat \<Rightarrow> pager_op list \<Rightarrow> pager \<Rightarrow> bool" where
  "stays_open be d [] p \<longleftrightarrow> True"
| "stays_open be d (op # ops) p \<longleftrightarrow> d < length (pgr_savepoints (snd (pager_exec be op p))) \<and> stays_open be d ops (snd (pager_exec be op p))"

lemma implementsD:
  assumes "implements op p rq"
  shows "pager_inv (snd rq)" "txn_kept p (snd rq)" "db_step op (fst rq) (abs_of p) (abs_of (snd rq))"
  using assms by (auto simp: implements_def split: prod.splits)

lemma exec_all_ok:
  assumes "pager_inv p" "legal_all be ops p"
  shows "pager_inv (exec_all be ops p) \<and> txn_kept p (exec_all be ops p)"
  using assms
proof (induction ops arbitrary: p)
  case Nil
  then show ?case by (simp add: txn_kept_def)
next
  case (Cons op ops)
  note i = implementsD [OF exec_implements [of p op be]]
  show ?case using Cons i txn_kept_trans by fastforce
qed

lemma db_step_stack:
  assumes "db_step op res (h, v, st) (h', v', st')" "d < length st" "d < length st'"
  shows "st' ! d = st ! d"
  using assms by (cases op) (auto simp: nth_append Let_def split: option.splits if_splits)

lemma stays_open_entry:
  assumes "pager_inv p" "legal_all be ops p" "stays_open be d ops p" "d < length (pgr_savepoints p)"
  shows "snd (db_of (exec_all be ops p)) ! d = snd (db_of p) ! d"
  using assms
proof (induction ops arbitrary: p)
  case (Cons op ops)
  let ?q = "snd (pager_exec be op p)"
  note i = implementsD [OF exec_implements [of p op be]]
  have "db_step op (fst (pager_exec be op p)) (abs_of p) (abs_of ?q)" "pager_inv ?q" using i Cons.prems by simp_all
  moreover have "length (snd (db_of p)) = length (pgr_savepoints p)" for p by (simp add: db_of_def)
  ultimately have "snd (db_of ?q) ! d = snd (db_of p) ! d"
    using db_step_stack Cons.prems unfolding abs_of_eq by (metis stays_open.simps(2))
  then show ?case using Cons \<open>pager_inv ?q\<close> by simp
qed simp

section \<open>A small database\<close>

text \<open>One page of 512 bytes, an empty log, and a cache of eight pages.\<close>

definition demo_header :: database_header where
  "demo_header = database_header_default\<lparr>dh_page_size := 512, dh_database_size := 1\<rparr>"

definition demo_log :: wal_shared where
  "demo_log = demo_shared\<lparr>sh_max_frame := 0, sh_frame_cache := Map.empty, sh_pages_in_frames := []\<rparr>"

definition demo_page :: bytes where
  "demo_page = replicate 512 0"

definition demo_disk :: wal_io where
  "demo_disk = \<lparr>io_pending = [], io_db = [1 \<mapsto> demo_page], io_write_counter = 0\<rparr>"

definition demo_pages :: "page_ref \<Rightarrow> page_state" where
  "demo_pages = (\<lambda>_. \<lparr>pg_locked = False, pg_dirty = False, pg_loaded = False, pg_contents = False\<rparr>)"

definition demo_pager :: pager where
  "demo_pager = finish_open demo_header (the (cache_new 8 demo_pages)) [] (wal_file_new 512) demo_log demo_disk"

lemma demo_cache: "cache_ok (the (cache_new 8 demo_pages))" "cached (the (cache_new 8 demo_pages)) n = None"
proof -
  obtain c where c: "cache_new 8 demo_pages = Some c" "refines c (lru_new 8 demo_pages)"
    using cache_new_refines [of 8 demo_pages] by auto
  then show "cache_ok (the (cache_new 8 demo_pages))" "cached (the (cache_new 8 demo_pages)) n = None"
    using cache_okI [OF c(2)] cached_refines [OF c(2)] by (simp_all add: lru_inj_def lru_new_def)
qed

lemma demo_fields:
  "pgr_header demo_pager = demo_header" "pgr_cache demo_pager = the (cache_new 8 demo_pages)" "pgr_pool demo_pager = []" "pgr_dirty demo_pager = []"
  "pgr_con demo_pager = wal_file_new 512" "pgr_sh demo_pager = demo_log" "pgr_io demo_pager = demo_disk" "pgr_read_error demo_pager n = None"
  "pgr_savepoints demo_pager = []"
  by (simp_all add: demo_pager_def finish_open_def)

lemma demo_log_fields:
  "sh_max_frame demo_log = 0" "sh_frame_cache demo_log = Map.empty" "sh_pages_in_frames demo_log = []" "sh_nbackfills demo_log = 0" "length (sh_file demo_log) = 568"
  "frames_of demo_log n = []" "sh_read_locks demo_log = [rw_new, rw_new, rw_new, rw_new, rw_new]" "sh_write_lock demo_log = rw_new"
  by (simp_all add: demo_log_def demo_shared_def demo_file_def frames_of_def)

lemma demo_pager_ok: "pager_inv demo_pager" "commit_ready demo_pager" "in_txn demo_pager" "db_size demo_pager = 1"
  "page_view demo_pager = disk demo_pager" "disk demo_pager 1 = Some demo_page"
proof -
  have hd: "page_size_of demo_pager = 512" "dh_reserved_space (pgr_header demo_pager) = 0" "header_ok (pgr_header demo_pager)"
    by (simp_all add: page_size_of_def demo_fields get_page_size_def demo_header_def database_header_default_def header_ok_def)
  have "log_ok (wal_file_new 512) demo_log"
    by (simp add: log_ok_def index_ok_def demo_log_fields wal_file_new_def valid_page_size_def)
  moreover have "io_db demo_disk n = Some b \<Longrightarrow> length b = 512" for n b by (auto simp: demo_disk_def demo_page_def split: if_splits)
  ultimately have "store_ok demo_pager"
    using hd by (simp add: store_ok_def demo_fields demo_log_fields wal_file_new_def)
  then have "pager_ok demo_pager" by (rule empty_cache_ok) (simp_all add: demo_fields demo_cache)
  then show "pager_inv demo_pager" by (simp add: pager_inv_def savepoints_ok_def demo_fields)
  show "commit_ready demo_pager" by (simp add: commit_ready_def demo_pager_def finish_open_def wal_file_new_def demo_disk_def demo_log_def demo_shared_def)
  show "in_txn demo_pager" by (simp add: in_txn_def demo_fields demo_log_fields wal_file_new_def)
  show "db_size demo_pager = 1" by (simp add: demo_fields demo_header_def)
  show "page_view demo_pager = disk demo_pager" by (simp add: page_view_def fun_eq_iff demo_fields)
  show "disk demo_pager 1 = Some demo_page"
    by (simp add: disk_def newest_view_def view_def find_frame_newest demo_fields demo_log_fields newest_def demo_disk_def)
qed

text \<open>Pages that go into an empty cache, and into one that is full of dirty pages.\<close>

lemma get_absent:
  assumes "refines c l" "map_of (lru_items l) k = None"
  obtains c' where "cache_get k c = Some (None, c')" "refines c' l"
  using pc_exec_refines [OF assms(1), of "PGet k"] assms(2) by (auto simp: lru_peek_def)

lemma set_flags_refines: "refines c l \<Longrightarrow> refines (c\<lparr>pc_pages := (pc_pages c)(r := s)\<rparr>) (l\<lparr>lru_pages := (lru_pages l)(r := s)\<rparr>)"
  using pc_exec_refines [of c l "PSetPage r s"] by simp

lemma insert_empty:
  assumes "refines c l" "lru_items l = []" "0 < lru_capacity l"
  obtains c' where "cache_insert k r c = Some (Inr (), c')" "refines c' (l\<lparr>lru_items := [(k, r)]\<rparr>)"
  using pc_exec_refines [OF assms(1), of "PInsert k r"] assms(2,3) by (auto simp: lru_insert_def lru_peek_def lru_make_room_def)

lemma insert_full:
  assumes "refines c l" "lru_items l = [(k, r)]" "lru_capacity l = 1" "\<not> pg_locked (lru_pages l r)" "pg_dirty (lru_pages l r)" "n \<noteq> k"
  obtains c' where "cache_insert n x c = Some (Inl cache_error.Full, c')"
  using pc_exec_refines [OF assms(1), of "PInsert n x"] assms(2-6)
  by (auto simp: lru_insert_def lru_peek_def lru_make_room_def lru_delete_def)

lemma read_fresh:
  assumes ok: "pager_ok p" and c: "refines (pgr_cache p) l" "lru_items l = []" "0 < lru_capacity l" and e: "pgr_read_error p n = None"
  shows "\<exists>q. read_page n p = (Inr (pgr_next_ref p), q) \<and> pg_loaded (page_flags (pgr_next_ref p) q)"
proof -
  obtain c1 where c1: "cache_get n (pgr_cache p) = Some (None, c1)" "refines c1 l" using get_absent [OF c(1)] c(2) by auto
  let ?new = "\<lparr>pg_locked = True, pg_dirty = False, pg_loaded = False, pg_contents = False\<rparr>" and ?r = "pgr_next_ref p"
  obtain c2 where c2: "cache_insert n ?r (c1\<lparr>pc_pages := (pc_pages c1)(?r := ?new)\<rparr>) = Some (Inr (), c2)"
    using insert_empty [OF set_flags_refines [OF c1(2), of ?r ?new], of n ?r] c(2,3) by auto
  let ?p = "p\<lparr>pgr_next_ref := Suc ?r, pgr_cache := c2\<rparr>"
  have st: "store_ok ?p" using pager_okD(1) [OF ok] by (rule rest_store [rotated 3]) (simp_all add: rest_def)
  obtain b bs where "fetch_page n ?p = (Inr b, ?p\<lparr>pgr_pool := bs\<rparr>)"
    using st by (cases rule: fetch_page_ok [where n = n]) (use e in auto)
  then show ?thesis
    using c1(1) c2 by (simp add: read_page_def new_page_def set_page_flags_def finish_read_page_def set_contents_def page_flags_def pg_defs)
qed

lemma read_page_obj:
  assumes ok: "pager_ok p" and rd: "read_page n p = (Inr r, q)"
  shows "obj_ok q n r" "pgr_header q = pgr_header p" "pager_ok q" "objs q n = Some r"
proof -
  have "obj_ok q n r \<and> pgr_header q = pgr_header p \<and> pager_ok q \<and> objs q n = Some r"
    using ok
  proof (cases rule: read_page_alters [where n = n])
    case (1 x s)
    then have "x = r" "s = q" using rd by simp_all
    then show ?thesis using 1(3-5) altersD(1) [OF 1(2)] by simp
  qed (use rd in simp)
  then show "obj_ok q n r" "pgr_header q = pgr_header p" "pager_ok q" "objs q n = Some r" by simp_all
qed

lemma ptrmap_put_run:
  assumes ok: "pager_ok p" and n: "2 \<le> n" "is_ptrmap_page n (page_size_of p) = Inr False" "get_ptrmap_page_no_for_db_page n (page_size_of p) = Inr m"
    "get_ptrmap_offset_in_page n m (page_size_of p) = Inr off"
    and rd: "read_page m p = (Inr r, q)" "pg_loaded (page_flags r q)" and off: "off + 5 \<le> page_size_of p"
  shows "\<exists>q. ptrmap_put n t parent p = (Inr (), q)"
proof -
  have o: "\<not> pg_locked (page_flags r q)" "pg_contents (page_flags r q)" "length (buf_of q r) = page_size_of p"
    using read_page_obj(1,2) [OF ok rd(1)] by (simp_all add: obj_ok_def page_size_of_def)
  have "slice_range (buf_of q r) off (off + 5) = Inr (take 5 (drop off (buf_of q r)))" using off o(3) by (simp add: slice_range_def)
  moreover have "ptrmap_serialize \<lparr>pm_entry_type = t, pm_parent_page_no = parent\<rparr> (take 5 (drop off (buf_of q r))) = Inr (entry_bytes t parent)"
    using off o(3) by (intro entry_bytes_serialize) simp
  ultimately show ?thesis
    using n rd o off by (simp add: ptrmap_put_def ptrmap_consts set_contents_def set_dirty_def set_page_flags_def add_dirty_def pg_defs)
qed

lemma demo_refines: "refines (pgr_cache demo_pager) (lru_new 8 demo_pages)"
  using cache_new_refines [of 8 demo_pages] by (auto simp: demo_fields)

section \<open>The loop of \<open>btree_create\<close>\<close>

text \<open>Two pointer map pages are never neighbours, so that the loop over them turns at most once, and a bound of two turns is enough.\<close>

lemma ptrmap_pages_apart:
  assumes "512 \<le> ps" "ps \<le> 65536" "2 \<le> n" "is_ptrmap_page n ps = Inr True"
  shows "is_ptrmap_page (n + 1) ps = Inr False"
proof -
  obtain k where k: "get_ptrmap_page_no_for_db_page n ps = Inr (k * (ps div 5 + 1) + 2)" "k * (ps div 5 + 1) + 2 \<le> n"
    using ptrmap_page_no [OF assms(1-3)] by blast
  obtain j where j: "get_ptrmap_page_no_for_db_page (n + 1) ps = Inr (j * (ps div 5 + 1) + 2)"
    "j * (ps div 5 + 1) + 2 \<le> n + 1" "n + 1 \<le> j * (ps div 5 + 1) + 2 + ps div 5"
    using ptrmap_page_no [OF assms(1,2), of "n + 1"] assms(3) by auto
  have five: "2 \<le> ps div 5" using assms(1) by simp
  have "\<exists>i. n = i * (ps div 5 + 1) + 2"
  proof (cases "n = 2")
    case True
    then show ?thesis by (intro exI [of _ 0]) simp
  next
    case False
    then have "n = k * (ps div 5 + 1) + 2" using assms(3,4) k(1) by (simp add: is_ptrmap_page_def ptrmap_consts)
    then show ?thesis by blast
  qed
  then obtain i where i: "n = i * (ps div 5 + 1) + 2" by blast
  have "j * (ps div 5 + 1) \<noteq> i * (ps div 5 + 1) + 1"
  proof
    assume "j * (ps div 5 + 1) = i * (ps div 5 + 1) + 1"
    then have "(j * (ps div 5 + 1)) mod (ps div 5 + 1) = (i * (ps div 5 + 1) + 1) mod (ps div 5 + 1)" by (rule arg_cong)
    also have "\<dots> = 1 mod (ps div 5 + 1)" by (rule mod_mult_self3)
    finally show False using five unfolding mod_mult_self2_is_0 by simp
  qed
  then have "j * (ps div 5 + 1) + 2 \<noteq> n + 1" using i by simp
  then show ?thesis using assms(3) j(1) by (simp add: is_ptrmap_page_def ptrmap_consts)
qed

lemma skip_ptrmap_returns:
  assumes "512 \<le> ps" "ps \<le> 65536" "1 \<le> n"
  shows "\<exists>m. skip_ptrmap ps n (Suc (Suc k)) = Inr m \<and> n \<le> m \<and> m \<le> n + 1 \<and> is_ptrmap_page m ps = Inr False"
proof (cases "n = 1")
  case True
  then show ?thesis by (simp add: is_ptrmap_page_def)
next
  case False
  then have n: "2 \<le> n" using assms(3) by simp
  obtain b where b: "is_ptrmap_page n ps = Inr b"
    by (rule ptrmap_page_no [OF assms(1,2) n]) (use n in \<open>cases "n = 2"; simp add: is_ptrmap_page_def ptrmap_consts\<close>)
  show ?thesis using b ptrmap_pages_apart [OF assms(1,2) n] by (cases b) simp_all
qed

text \<open>The start of a write transaction.\<close>

lemma begin_write_tx_ok:
  assumes "pager_inv p" "pgr_dirty p = []" "pgr_savepoints p = []" "pager_begin_write_tx p = (Inr LOk, p1)"
  shows "pager_inv p1 \<and> in_txn p1 \<and> txn_start p1 = page_view p \<and> lk_lock (sh_write_lock (pgr_sh p1)) = WRITE_LOCK"
proof -
  obtain con sh where w: "begin_write_tx (pgr_con p) (pgr_sh p) = (con, sh, LOk)" and p1: "p1 = p\<lparr>pgr_con := con, pgr_sh := sh\<rparr>"
    using assms(4) by (auto simp: pager_begin_write_tx_def pg_defs split: prod.splits)
  have f: "wf_page_size con = wf_page_size (pgr_con p)" "wf_max_frame con = wf_max_frame (pgr_con p)" "wf_txn_start_max_frame con = sh_max_frame (pgr_sh p)"
    and g: "sh_max_frame sh = sh_max_frame (pgr_sh p)" "sh_nbackfills sh = sh_nbackfills (pgr_sh p)" "sh_frame_cache sh = sh_frame_cache (pgr_sh p)"
      "sh_pages_in_frames sh = sh_pages_in_frames (pgr_sh p)" "sh_file sh = sh_file (pgr_sh p)"
    using w by (auto simp: begin_write_tx_def split: prod.splits bool.splits)
  have ok: "pager_ok p" using assms(1) by (simp add: pager_inv_def)
  note log = store_okD(1) [OF pager_okD(1) [OF ok]]
  have lg: "log_ok con sh = log_ok (pgr_con p) (pgr_sh p)" using f g by (simp add: log_ok_def index_ok_def)
  have nv: "newest_view con sh io = newest_view (pgr_con p) (pgr_sh p) io" for io
    using f g by (simp add: fun_eq_iff newest_view_def view_def find_frame_newest frames_of_def frame_page_def split: option.splits)
  have dk: "disk p1 = disk p" by (simp add: disk_def p1 nv)
  have "pager_ok p1"
    using ok lg f g dk unfolding pager_ok_def store_ok_def obj_ok_def by (simp add: p1 page_size_of_def page_flags_def)
  moreover have "in_txn p1" using g f log assms(3) by (simp add: in_txn_def p1 log_ok_def)
  moreover have "txn_start p1 = page_view p"
    using rollback_view [OF log_ext_refl [of con sh], of "wf_txn_start_last_checksum con"] lg log nv f(3) g(1) assms(2)
    by (simp add: txn_start_def wal_rollback_def p1 page_view_def disk_def fun_eq_iff)
  moreover have "pager_inv p1" using \<open>pager_ok p1\<close> assms(3) by (simp add: pager_inv_def savepoints_ok_def p1)
  moreover have "lk_lock (sh_write_lock sh) = WRITE_LOCK"
    using w by (auto simp: begin_write_tx_def rw_write_def split: prod.splits bool.splits lock_word.splits)
  ultimately show ?thesis by (simp add: p1)
qed

section \<open>Properties\<close>



text \<open>
  C4. Rolling back to a savepoint restores the contents of the database that it was opened on, whatever the client did in
  between, nested savepoints, allocations, frees and errors included, as long as the savepoint stayed open and its name
  is not taken by a newer one.
\<close>

theorem savepoint_restores:
  assumes "pager_inv p" "open_savepoint be name own p = (Inr (), p1)" "legal_all be ops p1" "stays_open be (length (pgr_savepoints p)) ops p1"
    "rposition (\<lambda>sp. eq_ignore_ascii_case (sp_name sp) name) (pgr_savepoints (exec_all be ops p1)) = Some (length (pgr_savepoints p))"
  shows "\<exists>q. rollback_to_savepoint name (exec_all be ops p1) = (Inr (), q) \<and> pager_inv q \<and> page_view q = page_view p \<and> page_view p1 = page_view p"
proof -
  let ?d = "length (pgr_savepoints p)"
  obtain p1' where p1: "open_savepoint be name own p = (Inr (), p1')" "pager_inv p1'"
    "db_of p1' = (fst (db_of p), snd (db_of p) @ [(name, own, fst (db_of p))])"
    using open_savepoint_ok [OF assms(1)] by blast
  then have eq: "p1' = p1" using assms(2) by simp
  have pv: "page_view p1 = page_view p" using p1(3) eq by (simp add: db_of_def)
  have "length (snd (db_of p1)) = length (snd (db_of p)) + 1" using p1(3) eq by simp
  then have d: "?d < length (pgr_savepoints p1)" by (simp add: db_of_def)
  have "snd (db_of (exec_all be ops p1)) ! ?d = snd (db_of p1) ! ?d"
    using stays_open_entry [OF _ assms(3,4) d] p1(2) eq by simp
  also have "\<dots> = (name, own, page_view p)" using p1(3) eq by (simp add: db_of_def nth_append)
  finally have entry: "snd (db_of (exec_all be ops p1)) ! ?d = (name, own, page_view p)" .
  have inv: "pager_inv (exec_all be ops p1)" using exec_all_ok [OF _ assms(3)] p1(2) eq by simp
  obtain q where q: "rollback_to_savepoint name (exec_all be ops p1) = (Inr (), q)" "pager_inv q"
    "db_of q = (snd (snd (snd (db_of (exec_all be ops p1)) ! ?d)), take (?d + 1) (snd (db_of (exec_all be ops p1))))"
    using rollback_to_savepoint_ok [OF inv assms(5)] by blast
  then show ?thesis using entry pv by (simp add: db_of_def)
qed

theorem savepoint_restores_witness:
  "\<exists>p1 q. open_savepoint False ''s'' False demo_pager = (Inr (), p1) \<and>
    rollback_to_savepoint ''s'' (exec_all False [OpModify 1 120 [1, 2], OpAllocate] p1) = (Inr (), q) \<and> page_view q 1 = Some demo_page"
proof -
  let ?ops = "[OpModify 1 120 [1, 2], OpAllocate]"
  obtain p1 where p1: "open_savepoint False ''s'' False demo_pager = (Inr (), p1)" "pager_inv p1"
    "db_of p1 = (fst (db_of demo_pager), snd (db_of demo_pager) @ [(''s'', False, fst (db_of demo_pager))])" "pgr_header p1 = pgr_header demo_pager"
    using open_savepoint_ok [OF demo_pager_ok(1)] by blast
  have st1: "snd (db_of p1) = [(''s'', False, page_view demo_pager)]" using p1(3) by (simp add: db_of_def demo_fields)
  let ?p2 = "snd (pager_exec False (OpModify 1 120 [1, 2]) p1)"
  note i2 = implementsD [OF exec_modify [OF p1(2), of 1 120 "[1, 2]" False]]
  have a2: "pgr_header ?p2 = pgr_header p1" "snd (db_of ?p2) = snd (db_of p1)" using i2(3) by (simp_all add: abs_of_eq)
  have l2: "legal OpAllocate ?p2" using a2(1) p1(4) demo_pager_ok(4) by simp
  let ?p3 = "snd (pager_exec False OpAllocate ?p2)"
  note i3 = implementsD [OF exec_implements [OF i2(1) l2, of False]]
  have a3: "snd (db_of ?p3) = snd (db_of p1)" using i3(3) a2(2) by (simp add: abs_of_eq)
  have len: "length (pgr_savepoints p) = length (snd (db_of p))" for p by (simp add: db_of_def)
  have la: "legal_all False ?ops p1" using l2 by simp
  have so: "stays_open False (length (pgr_savepoints demo_pager)) ?ops p1"
    using a2(2) a3 st1 by (simp add: len demo_fields)
  have "find_sp ''s'' (snd (db_of ?p3)) = Some 0" using a3 st1 by (simp add: find_sp_def eq_ignore_ascii_case_def)
  then have f: "rposition (\<lambda>sp. eq_ignore_ascii_case (sp_name sp) ''s'') (pgr_savepoints (exec_all False ?ops p1)) = Some (length (pgr_savepoints demo_pager))"
    by (simp add: find_sp_db demo_fields)
  show ?thesis using savepoint_restores [OF demo_pager_ok(1) p1(1) la so f] p1(1) demo_pager_ok(5,6) by auto
qed

text \<open>
  C10. Rolling back a write transaction restores the contents of the database at its start, whatever the client did since. The
  header in memory is not restored: it keeps what the transaction made of it.
\<close>

theorem txn_rollback_restores:
  assumes "pager_inv p" "pgr_dirty p = []" "pgr_savepoints p = []" "pager_begin_write_tx p = (Inr LOk, p1)" "legal_all be ops p1"
  shows "\<exists>q. pager_rollback (exec_all be ops p1) = (Inr (), q) \<and> pager_inv q \<and> page_view q = page_view p \<and>
    pgr_savepoints q = [] \<and> pgr_header q = pgr_header (exec_all be ops p1)"
proof -
  have e: "pager_inv (exec_all be ops p1)" "in_txn (exec_all be ops p1)" "txn_start (exec_all be ops p1) = page_view p"
    using begin_write_tx_ok [OF assms(1-4)] exec_all_ok [OF _ assms(5)] by (auto simp: txn_kept_def)
  obtain q where "pager_rollback (exec_all be ops p1) = (Inr (), q)" "pager_inv q" "db_of q = (txn_start (exec_all be ops p1), [])"
    "pgr_header q = pgr_header (exec_all be ops p1)"
    using pager_rollback_ok [of "exec_all be ops p1"] e(1,2) by (auto simp: pager_inv_def)
  then show ?thesis using e(3) by (simp add: db_of_def)
qed

theorem txn_rollback_restores_witness:
  "\<exists>p1 q. pager_begin_write_tx demo_pager = (Inr LOk, p1) \<and>
    pager_rollback (exec_all False [OpAllocate, OpOpen ''s'' False, OpModify 1 120 [1, 2]] p1) = (Inr (), q) \<and> page_view q 1 = Some demo_page"
proof -
  obtain con sh where w: "begin_write_tx (wal_file_new 512) demo_log = (con, sh, LOk)"
    by (simp add: begin_write_tx_def demo_log_fields rw_write_def rw_new_def)
  let ?p1 = "demo_pager\<lparr>pgr_con := con, pgr_sh := sh\<rparr>"
  have p1: "pager_begin_write_tx demo_pager = (Inr LOk, ?p1)" using w by (simp add: pager_begin_write_tx_def pg_defs demo_fields)
  have "legal OpAllocate ?p1" using demo_pager_ok(4) by simp
  then have "legal_all False [OpAllocate, OpOpen ''s'' False, OpModify 1 120 [1, 2]] ?p1" by simp
  from txn_rollback_restores [OF demo_pager_ok(1) _ _ p1 this] show ?thesis
    using p1 demo_pager_ok(5,6) by (auto simp: demo_fields)
qed

text \<open>
  C39. Rolling back a write transaction does not release the write lock that its start took: afterwards every connection
  to the log, this one included, is told that the database is busy when it starts to write.
\<close>

theorem rollback_keeps_write_lock:
  assumes "pager_inv p" "pgr_dirty p = []" "pgr_savepoints p = []" "pager_begin_write_tx p = (Inr LOk, p1)" "legal_all be ops p1"
  shows "\<exists>q. pager_rollback (exec_all be ops p1) = (Inr (), q) \<and> pager_begin_write_tx q = (Inr LBusy, q) \<and>
    (\<forall>con. begin_write_tx con (pgr_sh q) = (con, pgr_sh q, LBusy))"
proof -
  have e: "pager_ok (exec_all be ops p1)" "in_txn (exec_all be ops p1)" "lk_lock (sh_write_lock (pgr_sh (exec_all be ops p1))) = WRITE_LOCK"
    using begin_write_tx_ok [OF assms(1-4)] exec_all_ok [OF _ assms(5)] by (auto simp: txn_kept_def pager_inv_def)
  obtain q where q: "pager_rollback (exec_all be ops p1) = (Inr (), q)"
    "pgr_sh q = wal_rollback (pgr_con (exec_all be ops p1)) (pgr_sh (exec_all be ops p1))"
    using pager_rollback_ok [OF e(1,2)] by blast
  have "lk_lock (sh_write_lock (pgr_sh q)) = WRITE_LOCK" using q(2) e(3) by (simp add: wal_rollback_def)
  then have "begin_write_tx con (pgr_sh q) = (con, pgr_sh q, LBusy)" for con by (simp add: begin_write_tx_def rw_write_def)
  then show ?thesis using q(1) by (simp add: pager_begin_write_tx_def pg_defs)
qed

theorem rollback_keeps_write_lock_witness:
  "\<exists>p1 q. pager_begin_write_tx demo_pager = (Inr LOk, p1) \<and>
    pager_rollback (exec_all False [OpModify 1 120 [1, 2]] p1) = (Inr (), q) \<and> pager_begin_write_tx q = (Inr LBusy, q)"
proof -
  obtain con sh where "begin_write_tx (wal_file_new 512) demo_log = (con, sh, LOk)"
    by (simp add: begin_write_tx_def demo_log_fields rw_write_def rw_new_def)
  then have p1: "pager_begin_write_tx demo_pager = (Inr LOk, demo_pager\<lparr>pgr_con := con, pgr_sh := sh\<rparr>)"
    by (simp add: pager_begin_write_tx_def pg_defs demo_fields)
  show ?thesis
    using rollback_keeps_write_lock [OF demo_pager_ok(1) _ _ p1, of False "[OpModify 1 120 [1, 2]]"] p1 by (auto simp: demo_fields)
qed


text \<open>The log and the number of dirty pages after one change of a page.\<close>

lemma modify_counts:
  assumes ok: "pager_ok p" and d: "pgr_dirty p = []"
  shows "pgr_sh (snd (modify_page n pos bs p)) = pgr_sh p" "length (pgr_dirty (snd (modify_page n pos bs p))) \<le> 1"
proof -
  have r: "rest (snd (modify_page n pos bs p)) = rest p"
    using ok by (cases rule: modify_page_ok [where n = n and pos = pos and bs = bs]) (auto dest: altersD(2))
  then show "pgr_sh (snd (modify_page n pos bs p)) = pgr_sh p" by (simp add: rest_def)
  show "length (pgr_dirty (snd (modify_page n pos bs p))) \<le> 1"
    using ok
  proof (cases rule: read_page_alters [where n = n])
    case (1 r q)
    have "modify_page n pos bs p = pg_bind (pg_get (\<lambda>p. pc_write (pgr_contents p r) pos bs)) (\<lambda>c. pg_bind (pg_res c) (set_contents r)) (mark_dirty n r q)"
      using 1(1) mark_run by (simp add: modify_page_def pg_bind_def [of "read_page n"])
    then show ?thesis using 1(6) d by (simp add: pg_defs set_contents_def mark_dirty_def put_page_def split: sum.split)
  next
    case (2 e q)
    then show ?thesis using d by (simp add: modify_page_def pg_defs)
  qed
qed


text \<open>
  C13. Reading a page: it never panics and changes nothing that is seen, and the page object it returns holds the
  contents of the page, those of the client's own changes included.
\<close>

theorem read_page_view:
  assumes "pager_ok p" "read_page n p = (res, q)"
  shows "pager_ok q \<and> page_view q = page_view p \<and> pgr_dirty q = pgr_dirty p \<and>
    (case res of Inl e \<Rightarrow> e \<noteq> Panic
     | Inr r \<Rightarrow> objs q n = Some r \<and> \<not> pg_locked (page_flags r q) \<and> (\<forall>b. page_view p n = Some b \<longrightarrow> pgc_buffer (pgr_contents q r) = b))"
  using assms(1)
proof (cases rule: read_page_alters [where n = n])
  case (1 r s)
  then have e: "res = Inr r" "s = q" using assms(2) by simp_all
  have "page_view q = page_view p" using altersD(3) [OF 1(2)] e by auto
  then show ?thesis using 1(3,4,6,9) altersD(1) [OF 1(2)] e by (auto simp: obj_ok_def)
next
  case (2 e s)
  then have e: "res = Inl e" "s = q" using assms(2) by simp_all
  have "page_view q = page_view p" using altersD(3) [OF 2(2)] e by auto
  then show ?thesis using 2(4,6) altersD(1) [OF 2(2)] e by simp
qed

theorem read_page_view_witness:
  "pager_ok demo_pager \<and> (\<exists>res q. read_page 1 demo_pager = (res, q) \<and> page_view q 1 = Some demo_page)"
proof -
  obtain res q where r: "read_page 1 demo_pager = (res, q)" by fastforce
  have "pager_ok demo_pager" using demo_pager_ok(1) by (simp add: pager_inv_def)
  then show ?thesis using read_page_view [OF _ r] r demo_pager_ok(5,6) by auto
qed

text \<open>
  C15. A pointer map entry that was written is read back, with the kind and the parent that were given. No other page than
  the pointer map page changes, and on that page no other entry.
\<close>

theorem ptrmap_put_get:
  assumes "pager_ok p" "ptrmap_put n t parent p = (Inr (), q)"
  shows "pager_ok q \<and> (\<exists>m off s. ptrmap_slot (page_size_of p) n = Inr (m, off) \<and>
    ptrmap_get n q = (Inr (Some \<lparr>pm_entry_type = t, pm_parent_page_no = parent\<rparr>), s) \<and> page_view s = page_view q \<and>
    (\<forall>k. k \<noteq> m \<longrightarrow> page_view q k = page_view p k) \<and>
    (\<forall>k j b. 2 \<le> k \<and> k \<noteq> n \<and> ptrmap_slot (page_size_of p) k = Inr (m, j) \<and> page_view p m = Some b \<longrightarrow>
       map_option (\<lambda>b. take 5 (drop j b)) (page_view q m) = Some (take 5 (drop j b))))"
  using assms(1)
proof (cases rule: ptrmap_put_ok [where n = n and t = t and parent = parent])
  case (1 m off b r s)
  have e: "s = q" using 1(1) assms(2) by simp
  note al = altersD [OF 1(2), unfolded e]
  have ps: "page_size_of q = page_size_of p" using 1(3) e by (simp add: page_size_of_def)
  have get: "take 5 (drop off (put_entry b off (entry_bytes t parent))) = entry_bytes t parent"
    using 1(7) by (simp add: put_entry_def)
  obtain s' where s': "ptrmap_get n q = (Inr (Some \<lparr>pm_entry_type = t, pm_parent_page_no = parent\<rparr>), s')" "alters {} q s'"
    using ptrmap_get_ok [OF al(1), of n m off r] 1(4-8,10,11) entry_bytes_deserialize get unfolding e ps by metis
  have pv: "page_view s' = page_view q" using altersD(3) [OF s'(2)] by auto
  have st: "512 \<le> page_size_of p" "page_size_of p \<le> 65536" using store_okD(8,9) [OF pager_okD(1) [OF assms(1)]] by simp_all
  have "take 5 (drop j (put_entry b off (entry_bytes t parent))) = take 5 (drop j b)"
    if "2 \<le> k" "k \<noteq> n" "ptrmap_slot (page_size_of p) k = Inr (m, j)" for k j
    using ptrmap_slots_disjoint [OF st that(1) 1(4) that(2,3) 1(6)] 1(7) by (auto simp: put_entry_def drop_take)
  then show ?thesis using al(1,3) 1(6,8,9) s'(1) pv e by auto
next
  case (2 e s)
  then show ?thesis using assms(2) by simp
qed

theorem ptrmap_put_get_witness:
  "\<exists>q s. ptrmap_put 3 RootPage 9 demo_pager = (Inr (), q) \<and>
    ptrmap_get 3 q = (Inr (Some \<lparr>pm_entry_type = RootPage, pm_parent_page_no = 9\<rparr>), s)"
proof -
  have ok: "pager_ok demo_pager" using demo_pager_ok(1) by (simp add: pager_inv_def)
  have ps: "page_size_of demo_pager = 512" by (simp add: page_size_of_def demo_fields get_page_size_def demo_header_def)
  have slot: "is_ptrmap_page 3 512 = Inr False" "get_ptrmap_page_no_for_db_page 3 512 = Inr 2" "get_ptrmap_offset_in_page 3 2 512 = Inr 0"
    by (simp_all add: is_ptrmap_page_def get_ptrmap_page_no_for_db_page_def get_ptrmap_offset_in_page_def ptrmap_page_cycle_length_def
      entries_per_ptrmap_page_def ptrmap_consts usub_def Let_def)
  obtain q0 where q0: "read_page 2 demo_pager = (Inr (pgr_next_ref demo_pager), q0)" "pg_loaded (page_flags (pgr_next_ref demo_pager) q0)"
    using read_fresh [OF ok demo_refines, of 2] by (auto simp: lru_new_def demo_fields)
  obtain q where q: "ptrmap_put 3 RootPage 9 demo_pager = (Inr (), q)"
    using ptrmap_put_run [OF ok _ _ _ _ q0, of 3 0 RootPage 9] ps slot by auto
  show ?thesis using ptrmap_put_get [OF ok q] q by blast
qed

text \<open>
  C40. Allocation does not leave the size of the database alone when it fails, as its documentation promises: in a cache with
  room for one page, the new page takes the room, the header page cannot be read, and the call fails with a full cache
  after the size in the header was raised.
\<close>

theorem allocate_full_grows:
  assumes "cache_new 1 pages = Some (pgr_cache p)" "pgr_auto_vacuum p = VacuumNone" "1 \<le> db_size p" "db_size p + 1 < 2 ^ 32"
  shows "\<exists>q. allocate_page p = (Inl CacheFull, q) \<and> db_size q = db_size p + 1"
proof -
  let ?k = "db_size p + 1" and ?r = "pgr_next_ref p" and ?s = "\<lparr>pg_locked = False, pg_dirty = False, pg_loaded = True, pg_contents = True\<rparr>"
  have c0: "refines (pgr_cache p) (lru_new 1 pages)" using cache_new_refines [of 1 pages] assms(1) by auto
  have "\<exists>b bs. pool_get p = (Inr b, p\<lparr>pgr_pool := bs\<rparr>)"
  proof (cases "pgr_pool p")
    case Nil
    then show ?thesis by (intro exI [of _ "replicate (page_size_of p) 0"] exI [of _ "[]"]) (simp add: pool_get_def)
  qed (simp add: pool_get_def, blast)
  then obtain b bs where b: "pool_get p = (Inr b, p\<lparr>pgr_pool := bs\<rparr>)" by blast
  let ?c1 = "(pgr_cache p)\<lparr>pc_pages := (pc_pages (pgr_cache p))(?r := ?s)\<rparr>"
  let ?p1 = "p\<lparr>pgr_pool := bs, pgr_next_ref := Suc ?r, pgr_cache := ?c1, pgr_contents := (pgr_contents p)(?r := page_content_new 0 b)\<rparr>"
  have a: "allocate_page_object 0 p = (Inr ?r, ?p1)"
    using b by (simp add: allocate_page_object_def new_page_def set_page_flags_def set_contents_def pg_defs)
  obtain c2 where c2: "cache_insert ?k ?r ?c1 = Some (Inr (), c2)"
    "refines c2 ((lru_new 1 pages)\<lparr>lru_pages := (lru_pages (lru_new 1 pages))(?r := ?s), lru_items := [(?k, ?r)]\<rparr>)"
    using insert_empty [OF set_flags_refines [OF c0, of ?r ?s], of ?k ?r] by (auto simp: lru_new_def)
  have i: "insert_new_page ?k ?r ?p1 = (Inr (), ?p1\<lparr>pgr_cache := c2\<rparr>)" using c2(1) by (simp add: insert_new_page_def pg_defs)
  have r: "reserve_ptrmap_page ?k p = (Inr None, p)" using assms(2) by (simp add: reserve_ptrmap_page_def pg_defs)
  have al: "allocate_page p = grow ?k ?r (?p1\<lparr>pgr_cache := c2\<rparr>)"
    using allocate_page_unfold [OF assms(4) assms(4) _ r a] i by simp
  let ?l = "(lru_new 1 pages)\<lparr>lru_pages := (lru_pages (lru_new 1 pages))(?r := ?s, ?r := (pc_pages c2 ?r)\<lparr>pg_dirty := True\<rparr>), lru_items := [(?k, ?r)]\<rparr>"
  let ?c3 = "c2\<lparr>pc_pages := (pc_pages c2)(?r := (pc_pages c2 ?r)\<lparr>pg_dirty := True\<rparr>)\<rparr>"
  have pg: "pc_pages c2 ?r = ?s" using pages_refines [OF c2(2)] by simp
  have c3: "refines ?c3 ?l" using set_flags_refines [OF c2(2), of ?r "(pc_pages c2 ?r)\<lparr>pg_dirty := True\<rparr>"] by (simp add: lru_new_def)
  obtain c4 where c4: "cache_get 1 ?c3 = Some (None, c4)" "refines c4 ?l" using get_absent [OF c3, of 1] assms(3) by auto
  let ?new = "\<lparr>pg_locked = True, pg_dirty = False, pg_loaded = False, pg_contents = False\<rparr>"
  obtain c5 where c5: "cache_insert 1 (Suc ?r) (c4\<lparr>pc_pages := (pc_pages c4)(Suc ?r := ?new)\<rparr>) = Some (Inl cache_error.Full, c5)"
    using insert_full [OF set_flags_refines [OF c4(2), of "Suc ?r" ?new], of ?k ?r 1 "Suc ?r"] assms(3) pg by (auto simp: lru_new_def)
  have small: "unat (word_of_nat m :: u32) = m" if "m < 2 ^ 32" for m using that by (simp add: unat_of_nat take_bit_nat_eq_self)
  have "unat (word_of_nat ?k :: u32) = ?k" using assms(4) by (rule small)
  then show ?thesis
    unfolding al using c4(1) c5
    by (simp add: grow_def set_dirty_def set_page_flags_def add_dirty_def set_database_size_def write_database_header_def read_page_def new_page_def
      DATABASE_HEADER_PAGE_ID_def page_flags_def pg_defs)
qed

theorem allocate_full_grows_witness:
  "\<exists>p q. db_size p = 1 \<and> allocate_page p = (Inl CacheFull, q) \<and> db_size q = 2"
proof -
  obtain c where c: "cache_new 1 demo_pages = Some c" using cache_new_refines [of 1 demo_pages] by auto
  let ?p = "demo_pager\<lparr>pgr_cache := c\<rparr>"
  have "cache_new 1 demo_pages = Some (pgr_cache ?p)" "pgr_auto_vacuum ?p = VacuumNone" "db_size ?p = 1"
    using c demo_pager_ok(4) by (simp_all add: demo_pager_def finish_open_def)
  moreover from this have "1 \<le> db_size ?p" "db_size ?p + 1 < 2 ^ 32" by simp_all
  ultimately show ?thesis using allocate_full_grows [of demo_pages ?p] by (metis one_add_one)
qed



end
