(* ===== verification/Spec2Isabelle.thy ===== *)
theory Spec2Isabelle
  imports Prelude Varint MvccCursor PageCacheProps RecordProps WalProps PagerProps
begin

text \<open>
  \<^bold>\<open>A verification of the storage engine of OxiSQL.\<close>

  The repository is a SQL database in Rust. Its core is \<open>crates/oxisqlite-core\<close>: a parser and a translator turn
  SQL into programs of a virtual machine, whose instructions work on b-trees of pages. A pager
  reads and writes the pages through a page cache and a write-ahead log; an alternative store
  keeps row versions in memory and isolates transactions by snapshots. The other crates are drivers, pools
  and adapters around it. This development covers the storage layer from the bytes up to the pager.

  \<^bold>\<open>Theories and sources\<close> (paths below \<open>crates/oxisqlite-core/\<close>).

  \<^item> \<open>Prelude\<close>: words for the integer types, \<open>LimboError\<close>, checked slice access, big-endian bytes.
    A Rust panic is the error value \<open>Panic\<close>; arithmetic that leaves its type is a panic unless the source
    wraps or saturates.
  \<^item> \<open>Varint\<close>: \<open>read_varint\<close>, \<open>write_varint\<close>, \<open>write_varint_to_vec\<close> of \<open>storage/sqlite3_ondisk/mod.rs\<close>, against a
    reference encoding in base 128.
  \<^item> \<open>RecordFormat\<close>, \<open>RecordEnc\<close>, \<open>RecordDec\<close>, \<open>RecordProps\<close>: rows as byte strings (\<open>types/mod.rs\<close>: \<open>Value\<close>,
    \<open>SerialType\<close>, \<open>Record::serialize\<close>, \<open>ImmutableRecord::from_registers\<close>; \<open>sqlite3_ondisk\<close>: \<open>read_record\<close>, \<open>read_value\<close>).
    Definitions, then the encoders, then the decoder, then the properties.
  \<^item> \<open>PageCell\<close>, \<open>CellProps\<close>: b-tree pages and cells (\<open>sqlite3_ondisk\<close>: \<open>PageContent\<close>, \<open>read_btree_cell\<close>,
    \<open>payload_overflows\<close>; \<open>storage/btree/page_ops.rs\<close>: \<open>fill_cell_payload\<close> and the thresholds;
    \<open>storage/btree/cursor_core.rs\<close>: \<open>process_overflow_read\<close>). The pages by number are a map; the
    reader's state between two calls is explicit.
  \<^item> \<open>DbHeader\<close>: the database header of page 1. \<open>Ptrmap\<close>: pointer map pages (\<open>storage/pager/functions.rs\<close>).
  \<^item> \<open>PageCache\<close>, \<open>PageCacheInv\<close>, \<open>PageCacheLru\<close>, \<open>PageCacheProps\<close>: \<open>storage/page_cache.rs\<close>, with the heap of
    list entries explicit. \<open>PageCacheInv\<close> has the hash map behind the locale of an index,
    \<open>PageCacheLru\<close> the abstract cache and the simulation.
  \<^item> \<open>WalLock\<close>, \<open>WalFormat\<close>, \<open>Wal\<close>, \<open>WalRecover\<close>, \<open>WalSnap\<close>, \<open>WalProps\<close>: \<open>storage/wal.rs\<close> and the log format of
    \<open>sqlite3_ondisk\<close>. Locks as sequential operations and as interleaved atomic accesses; the
    log file as bytes; the checkpoint as a state machine driven by a loop. The locale
    \<open>checkpoint_driver\<close> of \<open>WalSnap\<close> says what a driver of the machine promises, and has the proof that a
    checkpoint keeps the views; the loop of \<open>wal_checkpoint_mode\<close> and the commit loop are its instances.
  \<^item> \<open>Pager\<close>: \<open>storage/pager/pager_caching.rs\<close>, \<open>pager_caching_2.rs\<close>, \<open>types.rs\<close> and \<open>functions.rs\<close>, \<open>step_end_write_txn\<close> of
    \<open>vdbe/mod.rs\<close>. The record \<open>pager\<close> holds the page cache, the contents of the page objects, the connection to
    the log and its shared part, the file, the header in memory, the dirty pages, the savepoints and the states of the flush and
    checkpoint machines. An operation is a function from a pager to a result and a pager.
  \<^item> \<open>PagerCache\<close> (what cache operations do to the pages that are found), \<open>PagerAlloc\<close> (allocation, and
    b-tree cells written with pages the pager allocates), \<open>PagerLog\<close> (what the log shows), \<open>PagerInv\<close>, \<open>PagerOps\<close> (the
    invariant; reading, allocating, the header page), \<open>PagerTx\<close> (savepoints and rollback), \<open>PagerCommit\<close>
    (the commit loop), \<open>PagerFree\<close> (the free list), \<open>PagerClient\<close> (the operations of a client against an abstract
    database), \<open>PagerProps\<close> (the properties).
  \<^item> \<open>Mvcc\<close>, \<open>MvccInv\<close>, \<open>MvccIso\<close>, \<open>MvccProps\<close>, \<open>MvccCursor\<close>: \<open>mvcc/database/mod.rs\<close> and \<open>mvcc/cursor.rs\<close>. Every
    operation of the store is one step; interleavings are sequences of operations.

  \<^bold>\<open>What is shown.\<close> Codecs: encoding and decoding are inverse (varints, records, cells with their overflow
  pages, database header, log), decoders never panic on arbitrary bytes, two encoders agree. Page cache: for all
  sequences of operations it refines a least-recently-used cache, keeps pinned pages,
  respects its capacity, frees what it allocates. Log: recovery restores what was written, checkpoints keep the snapshots of
  readers and complete, rollback restores, locks exclude. Pager, over cache and log: its operations refine an
  abstract database, which is a map from page numbers to bytes, with a stack of saved contents for the savepoints. Reads return
  the contents and the client's own changes, rolling back to a savepoint or to the start of the transaction
  restores the contents, a commit returns and publishes what the client saw, freed
  pages join the free list, pointer map entries are read back. Versioned store: an invariant of all
  reachable stores, stable snapshots, first writer wins, commits become visible, garbage
  collection is invisible, cursors agree. Some theorems state behaviour the sources do not intend;
  they say so in their text.

  \<^bold>\<open>Bounds and termination.\<close> Loops are structural or come with a measure. Loops whose end depends on the data
  (list traversals by pointer, overflow chains, checkpoints, cell writing) are
  \<open>partial_function (option)\<close>, and the properties that use them state that they return. The one
  bound on turns is that of \<open>skip_ptrmap\<close>, the loop of \<open>btree_create\<close> over pointer map pages: it is three, and
  \<open>skip_ptrmap_returns\<close> shows that two are enough, since no two pointer map pages are neighbours.
  Payload lengths are below 2 to the 64, usable page sizes at least 480 and below 65536 as the code's
  \<open>u16\<close> demands; page and frame numbers are natural numbers cut to 32 bits where the code cuts them.

  \<^bold>\<open>Not modelled.\<close> Balancing, seeking and page editing of b-trees, the virtual machine, the
  translator, SQL functions, and the crates around the core: they are large and their correctness
  is relative to SQL's semantics. The parser's tables are generated. I/O back ends, \<open>regex\<close>, JSON and date
  handling, macros and extensions are I/O or library code. Of the I/O of the pager, reads of pages can fail with any error,
  the requests of a checkpoint complete one at a time, and other reads and writes complete when they are submitted; short writes
  and write errors of the log are left out. The properties of the pager speak of one connection at a time.
\<close>

end
